(* ===== verification/Prelude.thy ===== *)
theory Prelude
  imports Complex_Main "HOL-Library.Word" "HOL-Library.AList" "HOL-Library.List_Lexorder"
begin

text \<open>
  Shared ground of the development. JavaScript strings are sequences of UTF-16 code units, so
  \<open>jstr\<close> is a list of 16-bit words; \<open>lit\<close> turns an ASCII literal into one. The theory also holds
  the lemma collections, the combinators for computations that may throw, the insertion-ordered
  \<open>Map\<close> of the language as an association list, and small facts about lists.
\<close>

named_theorems lit_simps "evaluation and injectivity of string literals"
named_theorems res_simps "computations that may throw"

section \<open>Strings\<close>

type_synonym code_unit = "16 word"
type_synonym jstr = "code_unit list"

definition cu :: "char \<Rightarrow> code_unit" where
  "cu c = word_of_nat (of_char c)"

definition lit :: "string \<Rightarrow> jstr" where
  "lit s = map cu s"

lemma of_char_bound: "(of_char c :: nat) < 256"
  using nat_of_char_less_256 [of c] by simp

lemma cu_inject [simp]: "cu c = cu d \<longleftrightarrow> c = d"
proof
  assume "cu c = cu d"
  then have "unat (cu c) = unat (cu d)" by simp
  then have "(of_char c :: nat) = of_char d"
    using of_char_bound [of c] of_char_bound [of d]
    by (simp add: cu_def unat_of_nat take_bit_eq_mod)
  then show "c = d" by simp
qed simp

lemma lit_inject [simp]: "lit s = lit t \<longleftrightarrow> s = t"
  by (auto simp: lit_def inj_map_eq_map inj_def)

lemma lit_Nil [simp]: "lit [] = []"
  by (simp add: lit_def)

lemma lit_Nil_iff [simp]: "lit s = [] \<longleftrightarrow> s = []" "[] = lit s \<longleftrightarrow> s = []"
  by (auto simp: lit_def)

lemma length_lit [simp]: "length (lit s) = length s"
  by (simp add: lit_def)

lemma lit_append [simp]: "lit (s @ t) = lit s @ lit t"
  by (simp add: lit_def)

lemmas lit_eval [lit_simps] = lit_def cu_def

text \<open>The character classes of the regular expressions in the code.\<close>

definition is_digit :: "code_unit \<Rightarrow> bool" where
  "is_digit c \<longleftrightarrow> 48 \<le> c \<and> c \<le> 57"

definition is_ident_start :: "code_unit \<Rightarrow> bool" where
  "is_ident_start c \<longleftrightarrow> (97 \<le> c \<and> c \<le> 122) \<or> (65 \<le> c \<and> c \<le> 90) \<or> c = 95"

definition is_ident_char :: "code_unit \<Rightarrow> bool" where
  "is_ident_char c \<longleftrightarrow> is_ident_start c \<or> is_digit c"

fun is_identifier :: "jstr \<Rightarrow> bool" where
  \<comment> \<open>\<open>/^[a-zA-Z_][a-zA-Z0-9_]*$/.test(s)\<close>\<close>
  "is_identifier [] = False"
| "is_identifier (c # cs) = (is_ident_start c \<and> list_all is_ident_char cs)"

definition is_line_terminator :: "code_unit \<Rightarrow> bool" where
  \<comment> \<open>the code units that \<open>.\<close> does not match\<close>
  "is_line_terminator c \<longleftrightarrow> c = 10 \<or> c = 13 \<or> c = 8232 \<or> c = 8233"

definition is_white_space :: "code_unit \<Rightarrow> bool" where
  \<comment> \<open>WhiteSpace and LineTerminator: what \<open>trim\<close> removes and \<open>\s\<close> matches\<close>
  "is_white_space c \<longleftrightarrow> (9 \<le> c \<and> c \<le> 13) \<or> c = 32 \<or> c = 160 \<or> c = 5760
     \<or> (8192 \<le> c \<and> c \<le> 8202) \<or> c = 8232 \<or> c = 8233 \<or> c = 8239 \<or> c = 8287 \<or> c = 12288 \<or> c = 65279"

definition js_trim :: "jstr \<Rightarrow> jstr" where
  "js_trim s = rev (dropWhile is_white_space (rev (dropWhile is_white_space s)))"

fun split_char :: "code_unit \<Rightarrow> jstr \<Rightarrow> jstr list" where
  \<comment> \<open>\<open>s.split(c)\<close>\<close>
  "split_char c [] = [[]]"
| "split_char c (x # s) = (if x = c then [] # split_char c s
     else case split_char c s of p # ps \<Rightarrow> (x # p) # ps | [] \<Rightarrow> [[x]])"

text \<open>Decimal rendering of non-negative integers.\<close>

function dec_digits :: "int \<Rightarrow> jstr" where
  "dec_digits n = (if n < 10 then [48 + word_of_int n]
     else dec_digits (n div 10) @ [48 + word_of_int (n mod 10)])"
  by pat_completeness auto
termination
  by (relation "measure nat") auto

declare dec_digits.simps [simp del]

lemma dec_digits_not_Nil [simp]: "dec_digits n \<noteq> []"
  by (subst dec_digits.simps) simp

definition digits_value :: "jstr \<Rightarrow> int" where
  "digits_value s = foldl (\<lambda>v c. 10 * v + uint (c - 48)) 0 s"

lemma digits_value_snoc: "digits_value (s @ [c]) = 10 * digits_value s + uint (c - 48)"
  by (simp add: digits_value_def)

lemma digits_value_dec_digits [simp]: "0 \<le> n \<Longrightarrow> digits_value (dec_digits n) = n"
proof (induction n rule: dec_digits.induct)
  case (1 n)
  have small: "uint (word_of_int m :: code_unit) = m" if "0 \<le> m" "m < 10" for m
    using that by (simp add: uint_word_of_int)
  show ?case
  proof (cases "n < 10")
    case True
    then show ?thesis using "1.prems"
      by (subst dec_digits.simps) (simp add: digits_value_def small)
  next
    case False
    then show ?thesis using 1 small [of "n mod 10"]
      by (subst dec_digits.simps) (simp add: digits_value_snoc)
  qed
qed

lemma dec_digits_inject [simp]:
  "0 \<le> m \<Longrightarrow> 0 \<le> n \<Longrightarrow> dec_digits m = dec_digits n \<longleftrightarrow> m = n"
  by (metis digits_value_dec_digits)

lemma dec_digits_digits: "0 \<le> n \<Longrightarrow> c \<in> set (dec_digits n) \<Longrightarrow> is_digit c"
proof (induction n rule: dec_digits.induct)
  case (1 n)
  have small: "is_digit (48 + word_of_int m)" if "0 \<le> m" "m < 10" for m
  proof -
    have "m = 0 \<or> m = 1 \<or> m = 2 \<or> m = 3 \<or> m = 4 \<or> m = 5 \<or> m = 6 \<or> m = 7 \<or> m = 8 \<or> m = 9"
      using that by arith
    then show ?thesis by (elim disjE) (simp_all add: is_digit_def)
  qed
  show ?case
  proof (cases "n < 10")
    case True
    then show ?thesis using "1.prems" small by (subst (asm) dec_digits.simps) simp
  next
    case False
    then have "c \<in> set (dec_digits (n div 10)) \<or> c = 48 + word_of_int (n mod 10)"
      using "1.prems" by (subst (asm) dec_digits.simps) auto
    then show ?thesis using 1 False small [of "n mod 10"] by auto
  qed
qed

section \<open>Insertion-ordered maps\<close>

text \<open>
  A JavaScript \<open>Map\<close> iterates in insertion order; \<open>set\<close> on a present key keeps its place and
  \<open>delete\<close> removes it. That is an association list with distinct keys under \<^const>\<open>AList.update\<close>
  and \<^const>\<open>AList.delete\<close>. \<open>map_of\<close> is \<open>get\<close>.
\<close>

type_synonym ('k, 'v) jsmap = "('k \<times> 'v) list"

abbreviation jm_keys :: "('k, 'v) jsmap \<Rightarrow> 'k list" where
  "jm_keys m \<equiv> map fst m"

abbreviation jm_values :: "('k, 'v) jsmap \<Rightarrow> 'v list" where
  "jm_values m \<equiv> map snd m"

abbreviation jm_ok :: "('k, 'v) jsmap \<Rightarrow> bool" where
  "jm_ok m \<equiv> distinct (map fst m)"

definition jm_has :: "('k, 'v) jsmap \<Rightarrow> 'k \<Rightarrow> bool" where
  "jm_has m k \<longleftrightarrow> map_of m k \<noteq> None"

lemma jm_has_iff: "jm_has m k \<longleftrightarrow> k \<in> set (jm_keys m)"
  by (auto simp: jm_has_def map_of_eq_None_iff)

lemma update_fresh: "map_of m k = None \<Longrightarrow> AList.update k v m = m @ [(k, v)]"
  by (induction m) (auto split: if_splits)

lemma update_keys: "map_of m k \<noteq> None \<Longrightarrow> jm_keys (AList.update k v m) = jm_keys m"
  by (induction m) auto

lemma update_present:
  "jm_ok m \<Longrightarrow> map_of m k \<noteq> None \<Longrightarrow>
   AList.update k v m = map (\<lambda>(k', w). (k', if k' = k then v else w)) m"
proof (induction m)
  case (Cons p m)
  obtain k' w where p: "p = (k', w)" by (cases p)
  have "map (\<lambda>(j, u). (j, if j = k' then v else u)) m = m" if "k' \<notin> fst ` set m"
    using that by (induction m) auto
  then show ?case using Cons p by (auto split: if_splits)
qed simp

lemma set_update:
  "jm_ok m \<Longrightarrow> set (AList.update k v m) = insert (k, v) {(k', w) \<in> set m. k' \<noteq> k}"
proof (induction m)
  case (Cons p m)
  then show ?case by (cases p) (force split: if_splits)
qed simp

lemma set_delete: "set (AList.delete k m) = {(k', w) \<in> set m. k' \<noteq> k}"
  by (auto simp: AList.delete_eq)

lemma jm_ok_update [simp]: "jm_ok m \<Longrightarrow> jm_ok (AList.update k v m)"
  by (rule distinct_update)

lemma jm_ok_delete [simp]: "jm_ok m \<Longrightarrow> jm_ok (AList.delete k m)"
  by (rule distinct_delete)

lemma map_of_update [simp]: "map_of (AList.update k v m) = (map_of m)(k \<mapsto> v)"
  by (rule update_conv')

lemma map_of_delete [simp]: "map_of (AList.delete k m) = (map_of m)(k := None)"
  by (rule delete_conv')

lemma map_of_mem: "jm_ok m \<Longrightarrow> map_of m k = Some v \<longleftrightarrow> (k, v) \<in> set m"
  by simp

end
