(* ===== verification/JsNumber.thy ===== *)
theory JsNumber
  imports Prelude "HOL-Library.Log_Nat"
begin

text \<open>
  The language's Number type: IEEE 754 binary64. A finite value is an exact rational, negative
  zero and the non-finite values are constructors of their own, so every operation is the exact
  rational operation followed by one rounding to nearest, ties to even. The conversions
  \<open>String(n)\<close> and \<open>Number(s)\<close> are the algorithms of the language's specification.
\<close>

datatype jsnum = NaN | PosInf | NegInf | NegZero | Fin rat

abbreviation int_num :: "int \<Rightarrow> jsnum" where
  "int_num i \<equiv> Fin (of_int i)"

section \<open>Rounding\<close>

definition pow2 :: "int \<Rightarrow> rat" where
  "pow2 e = (if 0 \<le> e then 2 ^ nat e else 1 / 2 ^ nat (- e))"

definition ilog2 :: "rat \<Rightarrow> int" where
  \<comment> \<open>the largest \<open>e\<close> with \<open>pow2 e \<le> r\<close>, for positive \<open>r\<close>\<close>
  "ilog2 r = (let (a, b) = quotient_of r; e = bitlen a - bitlen b
     in if pow2 e \<le> r then e else e - 1)"

definition round_half_even :: "rat \<Rightarrow> int" where
  "round_half_even r = (let f = \<lfloor>r\<rfloor>; d = r - of_int f
     in if d < 1 / 2 then f else if 1 / 2 < d then f + 1 else if even f then f else f + 1)"

definition to_double :: "rat \<Rightarrow> jsnum" where
  "to_double r =
     (if r = 0 then Fin 0
      else let e = max (ilog2 \<bar>r\<bar> - 52) (- 1074);
               m = round_half_even (\<bar>r\<bar> / pow2 e);
               v = of_int m * pow2 e
           in if pow2 1024 \<le> v then (if 0 < r then PosInf else NegInf)
              else if m = 0 then (if 0 < r then Fin 0 else NegZero)
              else Fin (if 0 < r then v else - v))"

lemma round_half_even_of_int [simp]: "round_half_even (of_int i) = i"
  by (simp add: round_half_even_def Let_def)

lemma pow2_pos [simp]: "0 < pow2 e"
  by (simp add: pow2_def)

lemma pow2_neq_0 [simp]: "pow2 e \<noteq> 0"
  using pow2_pos [of e] by linarith

lemma pow2_of_nat: "pow2 (int n) = 2 ^ n"
  by (simp add: pow2_def)

lemma ilog2_of_nat:
  assumes "0 < n"
  shows "ilog2 (of_int (int n)) = int (floorlog 2 n) - 1"
proof -
  have q: "quotient_of (of_int (int n)) = (int n, 1)"
    by (simp add: quotient_of_int)
  have up: "n < 2 ^ floorlog 2 n"
    using assms floorlog_bounds [of n 2] by simp
  have lo: "2 ^ (floorlog 2 n - 1) \<le> n"
    using assms floorlog_bounds [of n 2] by simp
  have pos: "0 < floorlog 2 n"
    using assms by (simp add: floorlog_def)
  have one: "floorlog 2 (Suc 0) = Suc 0"
    by (simp add: floorlog_def)
  have e: "bitlen (int n) - 1 = int (floorlog 2 n - 1)"
    using pos by (simp add: bitlen_def of_nat_diff)
  have "pow2 (bitlen (int n) - 1) = of_nat (2 ^ (floorlog 2 n - 1))"
    unfolding e pow2_of_nat by simp
  also have "\<dots> \<le> (of_nat n :: rat)"
    using lo by (rule of_nat_mono)
  finally show ?thesis
    using pos by (simp add: ilog2_def q one Let_def bitlen_def)
qed

text \<open>Integers of magnitude at most \<open>2 ^ 53\<close> are exactly representable.\<close>

lemma to_double_of_nat:
  assumes "0 < n" and "n \<le> 2 ^ 53"
  shows "to_double (of_int (int n)) = Fin (of_int (int n))"
    and "to_double (of_int (- int n)) = Fin (of_int (- int n))"
proof -
  define k where "k = floorlog 2 n"
  have k: "0 < k" "2 ^ (k - 1) \<le> n" "n < 2 ^ k"
    using assms(1) floorlog_bounds [of n 2] by (auto simp: k_def floorlog_def)
  have "(2::nat) ^ (k - 1) \<le> 2 ^ 53" using k(2) assms(2) by (rule order_trans)
  then have "k - 1 \<le> 53" by (rule power_le_imp_le_exp [rotated]) simp
  then have k54: "k \<le> 54" by simp
  let ?e = "max (ilog2 (of_int (int n)) - 52) (- 1074)"
  have e: "?e = int k - 53"
    using k(1) k54 assms(1) by (simp add: ilog2_of_nat [simplified] k_def)
  obtain m where m: "of_int (int n) / pow2 ?e = of_int m" and m0: "0 < m"
  proof (cases "k = 54")
    case True
    then have "n = 2 ^ 53" using k(2) assms(2) by simp
    then have "of_int (int n) / pow2 ?e = of_int (2 ^ 52)"
      unfolding e True by (simp add: pow2_def)
    then show ?thesis using that [of "2 ^ 52"] by simp
  next
    case False
    then have "pow2 ?e = 1 / 2 ^ (53 - k)"
      unfolding e using k54 by (cases "k = 53") (simp_all add: pow2_def nat_diff_distrib)
    then have "of_int (int n) / pow2 ?e = of_int (int n * 2 ^ (53 - k))" by simp
    then show ?thesis using that [of "int n * 2 ^ (53 - k)"] assms(1) by simp
  qed
  have v: "of_int m * pow2 ?e = of_int (int n)"
    using m by (simp add: field_simps flip: m)
  have "(of_int (int n) :: rat) \<le> 2 ^ 53"
    using assms(2) by (metis of_int_le_iff of_int_of_nat_eq of_nat_le_iff of_nat_numeral of_nat_power)
  also have "\<dots> < pow2 1024" by (simp add: pow2_def)
  finally have lt: "\<not> pow2 1024 \<le> (of_int (int n) :: rat)" by simp
  have rm: "round_half_even (of_int (int n) / pow2 ?e) = m" unfolding m by simp
  show "to_double (of_int (int n)) = Fin (of_int (int n))"
    using assms(1) m0 lt by (simp add: to_double_def Let_def rm [simplified] v [simplified])
  show "to_double (of_int (- int n)) = Fin (of_int (- int n))"
    using assms(1) m0 lt by (simp add: to_double_def Let_def rm [simplified] v [simplified])
qed

lemma to_double_int: "\<bar>i\<bar> \<le> 2 ^ 53 \<Longrightarrow> to_double (of_int i) = int_num i"
proof -
  assume a: "\<bar>i\<bar> \<le> 2 ^ 53"
  have "i = 0 \<or> (\<exists>n. i = int n \<and> 0 < n) \<or> (\<exists>n. i = - int n \<and> 0 < n)"
    using int_cases3 [of i] by blast
  then consider "i = 0" | n where "i = int n" "0 < n" | n where "i = - int n" "0 < n"
    by blast
  then show ?thesis
  proof cases
    case 1
    then show ?thesis by (simp add: to_double_def)
  next
    case 2
    then have "n \<le> 2 ^ 53" using a by simp
    then show ?thesis using 2 to_double_of_nat(1) [of n] by simp
  next
    case 3
    then have "n \<le> 2 ^ 53" using a by simp
    then show ?thesis using 3 to_double_of_nat(2) [of n] by simp
  qed
qed


section \<open>Arithmetic and comparison\<close>

fun num_val :: "jsnum \<Rightarrow> rat" where
  \<comment> \<open>the value of a finite number\<close>
  "num_val (Fin r) = r"
| "num_val _ = 0"

fun is_finite_num :: "jsnum \<Rightarrow> bool" where
  \<comment> \<open>\<open>Number.isFinite\<close>\<close>
  "is_finite_num (Fin r) = True"
| "is_finite_num NegZero = True"
| "is_finite_num _ = False"

definition is_integer_num :: "jsnum \<Rightarrow> bool" where
  \<comment> \<open>\<open>Number.isInteger\<close>\<close>
  "is_integer_num n \<longleftrightarrow> is_finite_num n \<and> of_int \<lfloor>num_val n\<rfloor> = num_val n"

definition num_int :: "jsnum \<Rightarrow> int" where
  \<comment> \<open>the integer an integral number holds\<close>
  "num_int n = \<lfloor>num_val n\<rfloor>"

fun num_is_neg :: "jsnum \<Rightarrow> bool" where
  \<comment> \<open>the sign bit\<close>
  "num_is_neg NegInf = True"
| "num_is_neg NegZero = True"
| "num_is_neg (Fin r) = (r < 0)"
| "num_is_neg _ = False"

fun num_neg :: "jsnum \<Rightarrow> jsnum" where
  "num_neg NaN = NaN"
| "num_neg PosInf = NegInf"
| "num_neg NegInf = PosInf"
| "num_neg NegZero = Fin 0"
| "num_neg (Fin r) = (if r = 0 then NegZero else Fin (- r))"

fun num_add :: "jsnum \<Rightarrow> jsnum \<Rightarrow> jsnum" where
  "num_add NaN _ = NaN"
| "num_add _ NaN = NaN"
| "num_add PosInf NegInf = NaN"
| "num_add NegInf PosInf = NaN"
| "num_add PosInf _ = PosInf"
| "num_add _ PosInf = PosInf"
| "num_add NegInf _ = NegInf"
| "num_add _ NegInf = NegInf"
| "num_add NegZero NegZero = NegZero"
| "num_add a b = to_double (num_val a + num_val b)"

definition num_sub :: "jsnum \<Rightarrow> jsnum \<Rightarrow> jsnum" where
  "num_sub a b = num_add a (num_neg b)"

definition signed_num :: "bool \<Rightarrow> jsnum \<Rightarrow> jsnum" where
  "signed_num neg n = (if neg then num_neg n else n)"

definition num_is_zero :: "jsnum \<Rightarrow> bool" where
  "num_is_zero n \<longleftrightarrow> n = NegZero \<or> n = Fin 0"

definition num_div :: "jsnum \<Rightarrow> jsnum \<Rightarrow> jsnum" where
  "num_div a b =
     (let neg = (num_is_neg a \<noteq> num_is_neg b) in
      if a = NaN \<or> b = NaN then NaN
      else if a = PosInf \<or> a = NegInf then
        (if b = PosInf \<or> b = NegInf then NaN else signed_num neg PosInf)
      else if b = PosInf \<or> b = NegInf then signed_num neg (Fin 0)
      else if num_is_zero b then (if num_is_zero a then NaN else signed_num neg PosInf)
      else if num_is_zero a then signed_num neg (Fin 0)
      else to_double (num_val a / num_val b))"

fun num_lt :: "jsnum \<Rightarrow> jsnum \<Rightarrow> bool" where
  "num_lt NaN _ = False"
| "num_lt _ NaN = False"
| "num_lt PosInf _ = False"
| "num_lt _ NegInf = False"
| "num_lt NegInf _ = True"
| "num_lt _ PosInf = True"
| "num_lt a b = (num_val a < num_val b)"

definition num_le :: "jsnum \<Rightarrow> jsnum \<Rightarrow> bool" where
  "num_le a b \<longleftrightarrow> a \<noteq> NaN \<and> b \<noteq> NaN \<and> \<not> num_lt b a"

definition num_norm :: "jsnum \<Rightarrow> jsnum" where
  \<comment> \<open>the two zeros are one value for every comparison\<close>
  "num_norm n = (if n = NegZero then Fin 0 else n)"

definition num_eq :: "jsnum \<Rightarrow> jsnum \<Rightarrow> bool" where
  \<comment> \<open>\<open>===\<close> on numbers\<close>
  "num_eq a b \<longleftrightarrow> a \<noteq> NaN \<and> num_norm a = num_norm b"

definition num_same :: "jsnum \<Rightarrow> jsnum \<Rightarrow> bool" where
  \<comment> \<open>SameValueZero: as \<open>===\<close>, but \<open>NaN\<close> equals itself\<close>
  "num_same a b \<longleftrightarrow> num_norm a = num_norm b"

lemma num_lt_irrefl [simp]: "\<not> num_lt a a"
  by (cases a) auto

lemma num_lt_trans: "num_lt a b \<Longrightarrow> num_lt b c \<Longrightarrow> num_lt a c"
  by (cases a; cases b; cases c) auto

lemma num_lt_asym: "num_lt a b \<Longrightarrow> \<not> num_lt b a"
  using num_lt_trans num_lt_irrefl by blast

lemma num_lt_total: "a \<noteq> NaN \<Longrightarrow> b \<noteq> NaN \<Longrightarrow> num_lt a b \<or> num_lt b a \<or> num_eq a b"
  by (cases a; cases b) (auto simp: num_eq_def num_norm_def)

lemma num_lt_NaN [simp]: "\<not> num_lt NaN a" "\<not> num_lt a NaN"
  by (cases a; simp)+

lemma num_le_trans: "num_le a b \<Longrightarrow> num_le b c \<Longrightarrow> num_le a c"
  unfolding num_le_def by (cases a; cases b; cases c) auto

lemma num_le_total: "a \<noteq> NaN \<Longrightarrow> b \<noteq> NaN \<Longrightarrow> num_le a b \<or> num_le b a"
  unfolding num_le_def using num_lt_asym by blast

lemma num_le_refl [simp]: "a \<noteq> NaN \<Longrightarrow> num_le a a"
  by (simp add: num_le_def)

lemma num_lt_imp_le: "num_lt a b \<Longrightarrow> num_le a b"
  unfolding num_le_def using num_lt_asym by fastforce

lemma num_add_int: "\<bar>i + j\<bar> \<le> 2 ^ 53 \<Longrightarrow> num_add (int_num i) (int_num j) = int_num (i + j)"
  using to_double_int [of "i + j"] by simp

lemma is_integer_int_num [simp]: "is_integer_num (int_num i)"
  by (simp add: is_integer_num_def)

lemma num_int_int_num [simp]: "num_int (int_num i) = i"
  by (simp add: num_int_def)

section \<open>Conversion to and from strings\<close>

text \<open>
  \<open>Number::toString\<close>: the shortest digit string that reads back as the same number, the closest
  of those, then the layout by the position of the decimal point. An integer of magnitude at most
  \<open>2 ^ 53\<close> takes the first branch: every shorter or other integer below that bound is a different
  number, so its shortest digits are its own decimal digits.
\<close>

definition pow10 :: "int \<Rightarrow> rat" where
  "pow10 e = (if 0 \<le> e then 10 ^ nat e else 1 / 10 ^ nat (- e))"

definition dec_exponent :: "rat \<Rightarrow> int" where
  \<comment> \<open>\<open>n\<close> with \<open>10 ^ (n - 1) \<le> r < 10 ^ n\<close>; the least positive double is above \<open>10 ^ -330\<close>\<close>
  "dec_exponent r = int (length (dec_digits \<lfloor>r * 10 ^ 330\<rfloor>)) - 330"

definition digit_candidates :: "rat \<Rightarrow> nat \<Rightarrow> (int \<times> int) list" where
  \<comment> \<open>the integers of \<open>k\<close> digits around \<open>r\<close>, nearest first, each with its decimal exponent\<close>
  "digit_candidates r k =
     (let n = dec_exponent r; q = r / pow10 (n - int k); f = \<lfloor>q\<rfloor>;
          up = (if f + 1 = 10 ^ k then (10 ^ (k - 1), n + 1) else (f + 1, n))
      in if q - of_int f \<le> 1 / 2 then [(f, n), up] else [up, (f, n)])"

fun shortest_digits :: "nat \<Rightarrow> nat \<Rightarrow> rat \<Rightarrow> int \<times> nat \<times> int" where
  "shortest_digits 0 k r = (let (s, n) = hd (digit_candidates r k) in (s, k, n))"
| "shortest_digits (Suc fuel) k r =
     (case List.find (\<lambda>(s, n). to_double (of_int s * pow10 (n - int k)) = Fin r) (digit_candidates r k)
      of Some (s, n) \<Rightarrow> (s, k, n) | None \<Rightarrow> shortest_digits fuel (k + 1) r)"

definition layout_digits :: "int \<times> nat \<times> int \<Rightarrow> jstr" where
  "layout_digits d = (case d of (s, k, n) \<Rightarrow>
     let ds = dec_digits s;
         ex = (if 0 \<le> n - 1 then lit ''e+'' else lit ''e-'') @ dec_digits \<bar>n - 1\<bar>
     in if int k \<le> n \<and> n \<le> 21 then ds @ replicate (nat n - k) 48
        else if 0 < n \<and> n \<le> 21 then take (nat n) ds @ lit ''.'' @ drop (nat n) ds
        else if - 6 < n \<and> n \<le> 0 then lit ''0.'' @ replicate (nat (- n)) 48 @ ds
        else if k = 1 then ds @ ex
        else take 1 ds @ lit ''.'' @ drop 1 ds @ ex)"

definition pos_to_string :: "rat \<Rightarrow> jstr" where
  "pos_to_string r =
     (if of_int \<lfloor>r\<rfloor> = r \<and> r \<le> 2 ^ 53 then dec_digits \<lfloor>r\<rfloor>
      else layout_digits (shortest_digits 16 1 r))"

fun num_to_string :: "jsnum \<Rightarrow> jstr" where
  "num_to_string NaN = lit ''NaN''"
| "num_to_string PosInf = lit ''Infinity''"
| "num_to_string NegInf = lit ''-Infinity''"
| "num_to_string NegZero = lit ''0''"
| "num_to_string (Fin r) =
     (if r < 0 then lit ''-'' @ pos_to_string (- r) else pos_to_string r)"

lemma num_to_string_int:
  assumes "\<bar>i\<bar> \<le> 2 ^ 53"
  shows "num_to_string (int_num i) = (if i < 0 then lit ''-'' else []) @ dec_digits \<bar>i\<bar>"
proof -
  have "(of_int \<bar>i\<bar> :: rat) \<le> of_int (2 ^ 53)"
    using assms by (simp only: of_int_le_iff)
  then have "\<bar>of_int i :: rat\<bar> \<le> 9007199254740992" by simp
  then show ?thesis
    by (cases "i < 0") (auto simp: pos_to_string_def simp flip: of_int_minus)
qed

text \<open>\<open>Number(s)\<close> on a string: StringNumericLiteral, with the sign, the radix prefixes and \<open>Infinity\<close>.\<close>

definition take_digits :: "jstr \<Rightarrow> jstr \<times> jstr" where
  "take_digits s = (takeWhile is_digit s, dropWhile is_digit s)"

definition parse_exponent :: "jstr \<Rightarrow> int option" where
  \<comment> \<open>the part after the mantissa: empty, or \<open>e\<close> with an optional sign and digits to the end\<close>
  "parse_exponent s =
     (case s of [] \<Rightarrow> Some 0
      | c # t \<Rightarrow>
          if c = cu CHR ''e'' \<or> c = cu CHR ''E'' then
            (let neg = (take 1 t = lit ''-''); u = (if take 1 t = lit ''-'' \<or> take 1 t = lit ''+'' then drop 1 t else t)
             in if u \<noteq> [] \<and> list_all is_digit u
                then Some (if neg then - digits_value u else digits_value u) else None)
          else None)"

definition parse_unsigned_decimal :: "jstr \<Rightarrow> rat option" where
  "parse_unsigned_decimal s =
     (let (a, s1) = take_digits s;
          (b, s2) = (if take 1 s1 = lit ''.'' then take_digits (drop 1 s1) else ([], s1))
      in if a = [] \<and> b = [] then None
         else case parse_exponent s2 of None \<Rightarrow> None
              | Some x \<Rightarrow> Some (of_int (digits_value (a @ b)) * pow10 (x - int (length b))))"

definition hex_digit_value :: "code_unit \<Rightarrow> int option" where
  "hex_digit_value c =
     (if is_digit c then Some (uint (c - 48))
      else if 97 \<le> c \<and> c \<le> 102 then Some (uint (c - 87))
      else if 65 \<le> c \<and> c \<le> 70 then Some (uint (c - 55)) else None)"

fun parse_radix :: "int \<Rightarrow> jstr \<Rightarrow> int \<Rightarrow> int option" where
  "parse_radix b [] v = Some v"
| "parse_radix b (c # s) v =
     (case hex_digit_value c of None \<Rightarrow> None
      | Some d \<Rightarrow> if d < b then parse_radix b s (b * v + d) else None)"

definition radix_of_prefix :: "jstr \<Rightarrow> int option" where
  "radix_of_prefix s =
     (if s = lit ''0x'' \<or> s = lit ''0X'' then Some 16
      else if s = lit ''0o'' \<or> s = lit ''0O'' then Some 8
      else if s = lit ''0b'' \<or> s = lit ''0B'' then Some 2 else None)"

definition signed_literal :: "bool \<Rightarrow> jstr \<Rightarrow> jsnum" where
  "signed_literal neg s =
     (if s = lit ''Infinity'' then signed_num neg PosInf
      else case parse_unsigned_decimal s of None \<Rightarrow> NaN | Some r \<Rightarrow> signed_num neg (to_double r))"

definition string_to_num :: "jstr \<Rightarrow> jsnum" where
  "string_to_num s0 =
     (let s = js_trim s0 in
      if s = [] then Fin 0
      else case radix_of_prefix (take 2 s) of
        Some b \<Rightarrow> if drop 2 s = [] then NaN
                  else (case parse_radix b (drop 2 s) 0 of None \<Rightarrow> NaN | Some v \<Rightarrow> to_double (of_int v))
      | None \<Rightarrow> if take 1 s = lit ''-'' then signed_literal True (drop 1 s)
                else if take 1 s = lit ''+'' then signed_literal False (drop 1 s)
                else signed_literal False s)"

end
