(* ===== verification/Errors.thy ===== *)
theory Errors
  imports Prelude
begin

text \<open>
  The errors the SDK throws (\<open>client/relational/errors.ts\<close>, the \<open>BackpressureError\<close> of
  \<open>client/proxy.ts\<close> and the language's own classes). A value of \<open>js_error\<close> is the class with the
  arguments of its constructor; \<open>error_name\<close> and \<open>error_message\<close> are the two properties of the
  thrown object. A computation that may throw returns \<open>js_error + 'a\<close>.
\<close>

datatype js_error =
    Error jstr
  | TypeError jstr
  | RangeError jstr
  | RelationalError jstr
  | TableExistsError jstr
  | TableNotFoundError jstr
  | ConstraintError jstr
  | QueryError jstr
  | BackpressureError jstr int

fun error_name :: "js_error \<Rightarrow> jstr" where
  "error_name (Error _) = lit ''Error''"
| "error_name (TypeError _) = lit ''TypeError''"
| "error_name (RangeError _) = lit ''RangeError''"
| "error_name (RelationalError _) = lit ''RelationalError''"
| "error_name (TableExistsError _) = lit ''TableExistsError''"
| "error_name (TableNotFoundError _) = lit ''TableNotFoundError''"
| "error_name (ConstraintError _) = lit ''ConstraintError''"
| "error_name (QueryError _) = lit ''QueryError''"
| "error_name (BackpressureError _ _) = lit ''BackpressureError''"

definition quoted :: "jstr \<Rightarrow> jstr" where
  \<comment> \<open>\<open>'${s}'\<close> in the message templates\<close>
  "quoted s = [39] @ s @ [39]"

fun error_message :: "js_error \<Rightarrow> jstr" where
  "error_message (Error m) = m"
| "error_message (TypeError m) = m"
| "error_message (RangeError m) = m"
| "error_message (RelationalError m) = m"
| "error_message (TableExistsError t) = lit ''table '' @ quoted t @ lit '' already exists''"
| "error_message (TableNotFoundError t) = lit ''table '' @ quoted t @ lit '' not found''"
| "error_message (ConstraintError m) = m"
| "error_message (QueryError m) = m"
| "error_message (BackpressureError m _) = m"

definition is_relational_error :: "js_error \<Rightarrow> bool" where
  \<comment> \<open>\<open>e instanceof RelationalError\<close>\<close>
  "is_relational_error e \<longleftrightarrow>
     (case e of RelationalError _ \<Rightarrow> True | TableExistsError _ \<Rightarrow> True | TableNotFoundError _ \<Rightarrow> True
      | ConstraintError _ \<Rightarrow> True | QueryError _ \<Rightarrow> True | _ \<Rightarrow> False)"

section \<open>Computations that may throw\<close>

type_synonym 'a res = "js_error + 'a"

definition res_bind :: "'a res \<Rightarrow> ('a \<Rightarrow> 'b res) \<Rightarrow> 'b res" where
  "res_bind r f = (case r of Inl e \<Rightarrow> Inl e | Inr a \<Rightarrow> f a)"

lemma res_bind_simps [simp, res_simps]:
  "res_bind (Inl e) f = Inl e"
  "res_bind (Inr a) f = f a"
  by (simp_all add: res_bind_def)

lemma res_bind_eq_Inr: "res_bind r f = Inr b \<longleftrightarrow> (\<exists>a. r = Inr a \<and> f a = Inr b)"
  by (cases r) simp_all

lemma res_bind_eq_Inl: "res_bind r f = Inl e \<longleftrightarrow> r = Inl e \<or> (\<exists>a. r = Inr a \<and> f a = Inl e)"
  by (cases r) simp_all

lemmas res_bind_eqs [res_simps] = res_bind_eq_Inr res_bind_eq_Inl

definition throw_if :: "bool \<Rightarrow> js_error \<Rightarrow> unit res" where
  "throw_if c e = (if c then Inl e else Inr ())"

lemma throw_if_eqs [simp, res_simps]:
  "throw_if c e = Inr u \<longleftrightarrow> \<not> c"
  "throw_if c e = Inl e' \<longleftrightarrow> c \<and> e' = e"
  by (auto simp: throw_if_def)

definition is_ok :: "'a res \<Rightarrow> bool" where
  "is_ok r \<longleftrightarrow> (\<exists>a. r = Inr a)"

lemma is_ok_simps [simp]: "is_ok (Inr a)" "\<not> is_ok (Inl e)"
  by (simp_all add: is_ok_def)

lemma is_ok_code [code]: "is_ok (Inr a) = True" "is_ok (Inl e) = False"
  by simp_all

text \<open>Running a throwing action over every element in order, stopping at the first error.\<close>

fun res_each :: "('a \<Rightarrow> unit res) \<Rightarrow> 'a list \<Rightarrow> unit res" where
  "res_each f [] = Inr ()"
| "res_each f (x # xs) = res_bind (f x) (\<lambda>_. res_each f xs)"

lemma res_each_ok: "res_each f xs = Inr u \<longleftrightarrow> (\<forall>x\<in>set xs. is_ok (f x))"
  by (induction xs) (auto simp: res_bind_eqs is_ok_def)

fun res_map :: "('a \<Rightarrow> 'b res) \<Rightarrow> 'a list \<Rightarrow> 'b list res" where
  "res_map f [] = Inr []"
| "res_map f (x # xs) = res_bind (f x) (\<lambda>y. res_bind (res_map f xs) (\<lambda>ys. Inr (y # ys)))"

lemma res_map_eq_Inr: "res_map f xs = Inr ys \<longleftrightarrow> list_all2 (\<lambda>x y. f x = Inr y) xs ys"
  by (induction xs arbitrary: ys) (auto simp: res_bind_eqs list_all2_Cons1)

text \<open>
  A method that mutates the object it is called on and may throw: an exception leaves the
  mutations made before it in place, so the state is returned in both cases.
\<close>

type_synonym ('s, 'a) action = "'s \<Rightarrow> 'a res \<times> 's"

definition act_bind :: "('s, 'a) action \<Rightarrow> ('a \<Rightarrow> ('s, 'b) action) \<Rightarrow> ('s, 'b) action" where
  "act_bind f g s = (case f s of (Inl e, s') \<Rightarrow> (Inl e, s') | (Inr a, s') \<Rightarrow> g a s')"

definition act_res :: "'a res \<Rightarrow> ('s, 'a) action" where
  "act_res r s = (r, s)"

abbreviation act_return :: "'a \<Rightarrow> ('s, 'a) action" where
  "act_return a \<equiv> act_res (Inr a)"

abbreviation act_throw :: "js_error \<Rightarrow> ('s, 'a) action" where
  "act_throw e \<equiv> act_res (Inl e)"

lemma act_res_simps [simp, res_simps]:
  "act_res r s = (r, s)"
  "act_bind (act_res (Inl e)) g = act_res (Inl e)"
  "act_bind (act_res (Inr a)) g = g a"
  by (simp_all add: act_res_def act_bind_def fun_eq_iff)

lemma act_bind_cases:
  assumes "act_bind f g s = (r, s')"
  obtains (thrown) e where "f s = (Inl e, s')" "r = Inl e"
    | (returned) a t where "f s = (Inr a, t)" "g a t = (r, s')"
  using assms by (auto simp: act_bind_def split: prod.splits sum.splits)

lemma act_bind_Inl [res_simps]: "f s = (Inl e, s') \<Longrightarrow> act_bind f g s = (Inl e, s')"
  by (simp add: act_bind_def)

lemma act_bind_Inr [res_simps]: "f s = (Inr a, s') \<Longrightarrow> act_bind f g s = g a s'"
  by (simp add: act_bind_def)

fun run_each :: "('a \<Rightarrow> ('s, unit) action) \<Rightarrow> 'a list \<Rightarrow> ('s, unit) action" where
  "run_each f [] s = (Inr (), s)"
| "run_each f (x # xs) s =
     (case f x s of (Inl e, s') \<Rightarrow> (Inl e, s') | (Inr _, s') \<Rightarrow> run_each f xs s')"

lemma run_each_invariant:
  assumes step: "\<And>x s. x \<in> set xs \<Longrightarrow> I s \<Longrightarrow> I (snd (f x s))"
  shows "I s \<Longrightarrow> I (snd (run_each f xs s))"
  using step
proof (induction xs arbitrary: s)
  case (Cons x xs)
  have "I (snd (f x s))" using Cons.prems by simp
  then show ?case using Cons.IH Cons.prems(2)
    by (cases "f x s") (auto split: sum.splits)
qed simp

end
