(* ===== verification/JsValue.thy ===== *)
theory JsValue
  imports JsNumber Errors
begin

text \<open>
  The values a row cell, a filter operand or a key argument may hold. Typed arrays and other
  objects are compared by identity, so both carry one; the content of an array rides along.
  Equality, ordering and \<open>String(v)\<close> are the language's own rules.
\<close>

type_synonym byte = "8 word"

datatype jsval =
    Undefined
  | Null
  | Bool bool
  | Num jsnum
  | Str jstr
  | Bytes nat "byte list"
  | Obj nat

fun typeof :: "jsval \<Rightarrow> jstr" where
  "typeof Undefined = lit ''undefined''"
| "typeof Null = lit ''object''"
| "typeof (Bool _) = lit ''boolean''"
| "typeof (Num _) = lit ''number''"
| "typeof (Str _) = lit ''string''"
| "typeof (Bytes _ _) = lit ''object''"
| "typeof (Obj _) = lit ''object''"

fun strict_eq :: "jsval \<Rightarrow> jsval \<Rightarrow> bool" where
  \<comment> \<open>\<open>===\<close>\<close>
  "strict_eq Undefined Undefined = True"
| "strict_eq Null Null = True"
| "strict_eq (Bool a) (Bool b) = (a = b)"
| "strict_eq (Num a) (Num b) = num_eq a b"
| "strict_eq (Str a) (Str b) = (a = b)"
| "strict_eq (Bytes i _) (Bytes j _) = (i = j)"
| "strict_eq (Obj i) (Obj j) = (i = j)"
| "strict_eq _ _ = False"

fun same_value_zero :: "jsval \<Rightarrow> jsval \<Rightarrow> bool" where
  \<comment> \<open>the equality of \<open>Array.includes\<close> and \<open>Set.has\<close>\<close>
  "same_value_zero (Num a) (Num b) = num_same a b"
| "same_value_zero a b = strict_eq a b"

fun truthy :: "jsval \<Rightarrow> bool" where
  "truthy Undefined = False"
| "truthy Null = False"
| "truthy (Bool b) = b"
| "truthy (Num n) = (n \<noteq> NaN \<and> \<not> num_is_zero n)"
| "truthy (Str s) = (s \<noteq> [])"
| "truthy _ = True"

definition byte_to_dec :: "byte \<Rightarrow> jstr" where
  "byte_to_dec b = dec_digits (uint b)"

fun join_with :: "jstr \<Rightarrow> jstr list \<Rightarrow> jstr" where
  "join_with sep [] = []"
| "join_with sep [s] = s"
| "join_with sep (s # t # ss) = s @ sep @ join_with sep (t # ss)"

fun js_String :: "jsval \<Rightarrow> jstr" where
  \<comment> \<open>\<open>String(v)\<close>\<close>
  "js_String Undefined = lit ''undefined''"
| "js_String Null = lit ''null''"
| "js_String (Bool b) = (if b then lit ''true'' else lit ''false'')"
| "js_String (Num n) = num_to_string n"
| "js_String (Str s) = s"
| "js_String (Bytes _ bs) = join_with (lit '','') (map byte_to_dec bs)"
| "js_String (Obj _) = lit ''[object Object]''"

fun to_primitive :: "jsval \<Rightarrow> jsval" where
  "to_primitive (Bytes i bs) = Str (js_String (Bytes i bs))"
| "to_primitive (Obj i) = Str (js_String (Obj i))"
| "to_primitive v = v"

fun to_number :: "jsval \<Rightarrow> jsnum" where
  "to_number Undefined = NaN"
| "to_number Null = Fin 0"
| "to_number (Bool b) = (if b then Fin 1 else Fin 0)"
| "to_number (Num n) = n"
| "to_number (Str s) = string_to_num s"
| "to_number (Bytes i bs) = string_to_num (js_String (Bytes i bs))"
| "to_number (Obj i) = string_to_num (js_String (Obj i))"

definition js_lt :: "jsval \<Rightarrow> jsval \<Rightarrow> bool" where
  \<comment> \<open>\<open>a < b\<close>: two strings by code unit, anything else as numbers\<close>
  "js_lt a b =
     (case (to_primitive a, to_primitive b) of
        (Str s, Str t) \<Rightarrow> s < t
      | (p, q) \<Rightarrow> num_lt (to_number p) (to_number q))"

definition js_le :: "jsval \<Rightarrow> jsval \<Rightarrow> bool" where
  "js_le a b =
     (case (to_primitive a, to_primitive b) of
        (Str s, Str t) \<Rightarrow> s \<le> t
      | (p, q) \<Rightarrow> num_le (to_number p) (to_number q))"

lemma js_lt_Num [simp]: "js_lt (Num a) (Num b) = num_lt a b"
  by (simp add: js_lt_def)

lemma js_le_Num [simp]: "js_le (Num a) (Num b) = num_le a b"
  by (simp add: js_le_def)

lemma js_lt_Str [simp]: "js_lt (Str a) (Str b) \<longleftrightarrow> a < b"
  by (simp add: js_lt_def)

lemma strict_eq_sym: "strict_eq a b = strict_eq b a"
  by (induction a b rule: strict_eq.induct) (auto simp: num_eq_def num_norm_def)

lemma same_value_zero_refl [simp]: "same_value_zero a a"
  by (cases a) (auto simp: num_same_def)

lemma same_value_zero_trans: "same_value_zero a b \<Longrightarrow> same_value_zero b c \<Longrightarrow> same_value_zero a c"
  by (cases a; cases b; cases c) (auto simp: num_same_def)

lemma same_value_zero_sym: "same_value_zero a b = same_value_zero b a"
  by (cases a; cases b) (auto simp: num_same_def)

lemma strict_eq_imp_same: "strict_eq a b \<Longrightarrow> same_value_zero a b"
  by (cases a; cases b) (auto simp: num_same_def num_eq_def)

lemma js_lt_irrefl [simp]: "\<not> js_lt a a"
  by (auto simp: js_lt_def split: jsval.splits)

lemma js_lt_not_both: "js_lt a b \<Longrightarrow> \<not> js_lt b a"
  unfolding js_lt_def
  by (cases "to_primitive a"; cases "to_primitive b") (auto dest: num_lt_asym)

section \<open>Rows\<close>

text \<open>
  A row is a plain object. Reading a missing key gives \<open>undefined\<close>; the copies \<open>{ ...r }\<close> and the
  merge \<open>{ ...a, ...b }\<close> are the map itself and map override. Keys inherited from
  \<open>Object.prototype\<close> are not modelled.
\<close>

type_synonym row = "jstr \<Rightarrow> jsval option"

definition row_get :: "row \<Rightarrow> jstr \<Rightarrow> jsval" where
  "row_get r c = (case r c of None \<Rightarrow> Undefined | Some v \<Rightarrow> v)"

lemma row_get_upd [simp]: "row_get (r(c \<mapsto> v)) d = (if d = c then v else row_get r d)"
  by (simp add: row_get_def)

lemma row_get_empty [simp]: "row_get Map.empty c = Undefined"
  by (simp add: row_get_def)

lemma row_get_merge:
  "row_get (a ++ b) c = (case b c of None \<Rightarrow> row_get a c | Some v \<Rightarrow> v)"
  by (simp add: row_get_def map_add_def split: option.splits)

end
