(* ===== verification/RelSchema.thy ===== *)
theory RelSchema
  imports JsValue
begin

text \<open>
  Column types, column definitions and the table schema compiler: \<open>client/relational/types.ts\<close>,
  \<open>column.ts\<close> and \<open>schema.ts\<close>. The central facts are the layout of a row (consecutive,
  disjoint, inside \<open>totalSize\<close>) and the exact condition under which a definition is accepted.
\<close>

section \<open>Types\<close>

text \<open>\<open>UnknownType\<close> is any other string an untyped caller can pass, for instance from a catalog file.\<close>

datatype relational_type =
    TBool | TInt8 | TInt16 | TInt32 | TInt64 | TUint8 | TUint16 | TUint32
  | TFloat32 | TFloat64 | TString | TBytes | TTimestampMs
  | UnknownType jstr

fun type_name :: "relational_type \<Rightarrow> jstr" where
  "type_name TBool = lit ''bool''"
| "type_name TInt8 = lit ''int8''"
| "type_name TInt16 = lit ''int16''"
| "type_name TInt32 = lit ''int32''"
| "type_name TInt64 = lit ''int64''"
| "type_name TUint8 = lit ''uint8''"
| "type_name TUint16 = lit ''uint16''"
| "type_name TUint32 = lit ''uint32''"
| "type_name TFloat32 = lit ''float32''"
| "type_name TFloat64 = lit ''float64''"
| "type_name TString = lit ''string''"
| "type_name TBytes = lit ''bytes''"
| "type_name TTimestampMs = lit ''timestamp_ms''"
| "type_name (UnknownType s) = s"

fun relationalTypeSize :: "relational_type \<Rightarrow> nat res" where
  "relationalTypeSize TBool = Inr 1"
| "relationalTypeSize TInt8 = Inr 1"
| "relationalTypeSize TUint8 = Inr 1"
| "relationalTypeSize TInt16 = Inr 2"
| "relationalTypeSize TUint16 = Inr 2"
| "relationalTypeSize TInt32 = Inr 4"
| "relationalTypeSize TUint32 = Inr 4"
| "relationalTypeSize TFloat32 = Inr 4"
| "relationalTypeSize TInt64 = Inr 8"
| "relationalTypeSize TFloat64 = Inr 8"
| "relationalTypeSize TTimestampMs = Inr 8"
| "relationalTypeSize TString = Inr 8"
| "relationalTypeSize TBytes = Inr 8"
| "relationalTypeSize (UnknownType t) = Inl (Error (lit ''unknown relational type '' @ quoted t))"

definition isVariableType :: "relational_type \<Rightarrow> bool" where
  "isVariableType t \<longleftrightarrow> t = TString \<or> t = TBytes"

fun known_type :: "relational_type \<Rightarrow> bool" where
  "known_type (UnknownType _) = False"
| "known_type _ = True"

lemma relationalTypeSize_ok: "is_ok (relationalTypeSize t) \<longleftrightarrow> known_type t"
  by (cases t) simp_all

lemma relationalTypeSize_pos: "relationalTypeSize t = Inr n \<Longrightarrow> 0 < n \<and> n \<le> 8"
  by (cases t) auto

section \<open>Columns\<close>

text \<open>An absent optional flag is \<open>None\<close>; an absent default is \<open>Undefined\<close>.\<close>

record column_def =
  col_name :: jstr
  col_type :: relational_type
  nullable :: "bool option"
  primaryKey :: "bool option"
  unique :: "bool option"
  defaultValue :: jsval

abbreviation flag :: "bool option \<Rightarrow> bool" where
  \<comment> \<open>truthiness of an optional flag\<close>
  "flag f \<equiv> f = Some True"

definition validateColumn :: "'a column_def_scheme \<Rightarrow> unit res" where
  "validateColumn col =
     (if \<not> is_identifier (col_name col) then Inl (Error (lit ''invalid column name '' @ quoted (col_name col)))
      else if 64 < length (col_name col) then Inl (Error (lit ''column name too long (max 64)''))
      else if flag (primaryKey col) \<and> flag (nullable col) then
        Inl (Error (lit ''primary key column '' @ quoted (col_name col) @ lit '' cannot be nullable''))
      else Inr ())"

definition valid_column :: "'a column_def_scheme \<Rightarrow> bool" where
  "valid_column col \<longleftrightarrow> is_identifier (col_name col) \<and> length (col_name col) \<le> 64
     \<and> \<not> (flag (primaryKey col) \<and> flag (nullable col))"

lemma validateColumn_ok: "validateColumn col = Inr u \<longleftrightarrow> valid_column col"
  by (auto simp: validateColumn_def valid_column_def)

section \<open>Schemas\<close>

record compiled_column = column_def +
  offset :: nat
  csize :: nat

record schema =
  tableName :: jstr
  columns :: "compiled_column list"
  totalSize :: nat
  primaryKeyName :: jstr
  byName :: "(jstr, compiled_column) jsmap"

definition compile_column :: "column_def \<Rightarrow> nat \<Rightarrow> nat \<Rightarrow> compiled_column" where
  \<comment> \<open>\<open>{ ...d, offset, size }\<close>\<close>
  "compile_column d off sz = column_def.extend d (compiled_column.fields off sz)"

definition base_def :: "compiled_column \<Rightarrow> column_def" where
  "base_def c = column_def.truncate c"

text \<open>The loop over the definitions, with its variables \<open>seen\<close>, \<open>pkCount\<close>, \<open>offset\<close> and \<open>compiled\<close>.\<close>

fun compile_loop :: "column_def list \<Rightarrow> jstr list \<Rightarrow> nat \<Rightarrow> nat \<Rightarrow> compiled_column list
    \<Rightarrow> (nat \<times> nat \<times> compiled_column list) res" where
  "compile_loop [] seen pkCount off compiled = Inr (pkCount, off, compiled)"
| "compile_loop (d # ds) seen pkCount off compiled =
     res_bind (validateColumn d) (\<lambda>_.
       if col_name d \<in> set seen then Inl (Error (lit ''duplicate column '' @ quoted (col_name d)))
       else res_bind (relationalTypeSize (col_type d)) (\<lambda>sz.
         compile_loop ds (col_name d # seen) (if flag (primaryKey d) then pkCount + 1 else pkCount)
           (off + sz) (compiled @ [compile_column d off sz])))"

definition first_primary_key :: "compiled_column list \<Rightarrow> jstr" where
  "first_primary_key cs = (case List.find (\<lambda>c. flag (primaryKey c)) cs of Some c \<Rightarrow> col_name c | None \<Rightarrow> [])"

definition new_RelationalSchema :: "jstr \<Rightarrow> column_def list \<Rightarrow> schema res" where
  "new_RelationalSchema name defs =
     (if \<not> is_identifier name then Inl (Error (lit ''invalid table name '' @ quoted name))
      else if defs = [] \<or> 32 < length defs then Inl (Error (lit ''table must have 1..32 columns''))
      else res_bind (compile_loop defs [] 0 4 []) (\<lambda>(pkCount, off, compiled).
        if pkCount \<noteq> 1 then Inl (Error (lit ''table must declare exactly one primaryKey column''))
        else Inr \<lparr>tableName = name, columns = compiled, totalSize = off,
                  primaryKeyName = first_primary_key compiled,
                  byName = foldl (\<lambda>m c. AList.update (col_name c) c m) [] compiled\<rparr>))"

subsection \<open>What the compiler produces\<close>

lemma compile_column_sel [simp]:
  "col_name (compile_column d off sz) = col_name d"
  "col_type (compile_column d off sz) = col_type d"
  "nullable (compile_column d off sz) = nullable d"
  "primaryKey (compile_column d off sz) = primaryKey d"
  "unique (compile_column d off sz) = unique d"
  "defaultValue (compile_column d off sz) = defaultValue d"
  "offset (compile_column d off sz) = off"
  "csize (compile_column d off sz) = sz"
  by (simp_all add: compile_column_def column_def.defs compiled_column.defs)

lemma base_def_compile_column [simp]: "base_def (compile_column d off sz) = d"
  by (simp add: base_def_def compile_column_def column_def.defs compiled_column.defs)

fun laid_out :: "nat \<Rightarrow> compiled_column list \<Rightarrow> bool" where
  \<comment> \<open>each column starts where the one before ends, with the width of its type\<close>
  "laid_out off [] = True"
| "laid_out off (c # cs) =
     (offset c = off \<and> relationalTypeSize (col_type c) = Inr (csize c) \<and> laid_out (off + csize c) cs)"

lemma laid_out_append:
  "laid_out off (cs @ ds) \<longleftrightarrow> laid_out off cs \<and> laid_out (off + sum_list (map csize cs)) ds"
  by (induction cs arbitrary: off) (auto simp: add.assoc)

lemma laid_out_offsets:
  "laid_out off cs \<Longrightarrow> c \<in> set cs \<Longrightarrow> off \<le> offset c \<and> offset c + csize c \<le> off + sum_list (map csize cs)"
  by (induction cs arbitrary: off) fastforce+

lemma laid_out_nth:
  "laid_out off cs \<Longrightarrow> i < length cs \<Longrightarrow> offset (cs ! i) = off + sum_list (map csize (take i cs))"
proof (induction cs arbitrary: off i)
  case (Cons c cs)
  then show ?case by (cases i) auto
qed simp

lemma laid_out_disjoint:
  assumes "laid_out off cs" "i < j" "j < length cs"
  shows "offset (cs ! i) + csize (cs ! i) \<le> offset (cs ! j)"
proof -
  have "sum_list (map csize (take (Suc i) cs)) \<le> sum_list (map csize (take j cs))"
  proof -
    have "take j cs = take (Suc i) cs @ take (j - Suc i) (drop (Suc i) cs)"
      using assms(2) by (metis Suc_leI le_add_diff_inverse take_add)
    then show ?thesis by simp
  qed
  then show ?thesis using assms laid_out_nth [of off cs i] laid_out_nth [of off cs j]
    by (simp add: take_Suc_conv_app_nth)
qed

lemma compile_loop_ok:
  assumes "compile_loop ds seen n off cs0 = Inr (m, fin, cs)" and "laid_out o0 cs0"
    and "off = o0 + sum_list (map csize cs0)"
  shows "\<exists>new. cs = cs0 @ new \<and> map base_def new = ds \<and> laid_out o0 cs
     \<and> fin = o0 + sum_list (map csize cs)
     \<and> m = n + length (filter (\<lambda>d. flag (primaryKey d)) ds)
     \<and> list_all valid_column ds \<and> list_all (\<lambda>d. known_type (col_type d)) ds
     \<and> distinct (map col_name ds) \<and> set (map col_name ds) \<inter> set seen = {}"
  using assms
proof (induction ds arbitrary: seen n off cs0)
  case (Cons d ds)
  obtain sz where sz: "relationalTypeSize (col_type d) = Inr sz"
    and vc: "valid_column d" and fresh: "col_name d \<notin> set seen"
    and rec: "compile_loop ds (col_name d # seen) (if flag (primaryKey d) then n + 1 else n)
       (off + sz) (cs0 @ [compile_column d off sz]) = Inr (m, fin, cs)"
    using Cons.prems(1) by (auto simp: res_bind_eqs validateColumn_ok split: if_splits)
  have lo: "laid_out o0 (cs0 @ [compile_column d off sz])"
    using Cons.prems(2,3) sz by (simp add: laid_out_append)
  have kt: "known_type (col_type d)"
    using sz relationalTypeSize_ok by (metis is_ok_simps(1))
  show ?case using Cons.IH [OF rec lo] Cons.prems(3) vc fresh kt by auto
qed simp

lemma compile_loop_complete:
  assumes "list_all valid_column ds" "list_all (\<lambda>d. known_type (col_type d)) ds"
    and "distinct (map col_name ds)" "set (map col_name ds) \<inter> set seen = {}"
  shows "is_ok (compile_loop ds seen n off cs0)"
  using assms
proof (induction ds arbitrary: seen n off cs0)
  case (Cons d ds)
  obtain sz where "relationalTypeSize (col_type d) = Inr sz"
    using Cons.prems(2) relationalTypeSize_ok [of "col_type d"] by (auto simp: is_ok_def)
  moreover have "validateColumn d = Inr ()" using Cons.prems(1) by (simp add: validateColumn_ok)
  ultimately show ?case using Cons by auto
qed simp

subsection \<open>Acceptance and well-formedness\<close>

definition schema_accepts :: "jstr \<Rightarrow> column_def list \<Rightarrow> bool" where
  "schema_accepts name defs \<longleftrightarrow> is_identifier name \<and> defs \<noteq> [] \<and> length defs \<le> 32
     \<and> list_all valid_column defs \<and> list_all (\<lambda>d. known_type (col_type d)) defs
     \<and> distinct (map col_name defs) \<and> length (filter (\<lambda>d. flag (primaryKey d)) defs) = 1"

definition wf_schema :: "schema \<Rightarrow> bool" where
  "wf_schema s \<longleftrightarrow> is_identifier (tableName s) \<and> columns s \<noteq> [] \<and> length (columns s) \<le> 32
     \<and> laid_out 4 (columns s) \<and> totalSize s = 4 + sum_list (map csize (columns s))
     \<and> distinct (map col_name (columns s))
     \<and> (\<exists>c\<in>set (columns s). col_name c = primaryKeyName s \<and> flag (primaryKey c) \<and> \<not> flag (nullable c))
     \<and> (\<forall>c\<in>set (columns s). flag (primaryKey c) \<longrightarrow> col_name c = primaryKeyName s)
     \<and> (\<forall>c\<in>set (columns s). map_of (byName s) (col_name c) = Some c)
     \<and> (\<forall>n c. map_of (byName s) n = Some c \<longrightarrow> c \<in> set (columns s) \<and> col_name c = n)"

lemma foldl_update_fresh:
  "distinct (map f cs) \<Longrightarrow> (\<And>c. c \<in> set cs \<Longrightarrow> map_of m (f c) = None) \<Longrightarrow>
   foldl (\<lambda>m c. AList.update (f c) c m) m cs = m @ map (\<lambda>c. (f c, c)) cs"
proof (induction cs arbitrary: m)
  case (Cons c cs)
  have u: "AList.update (f c) c m = m @ [(f c, c)]"
    using Cons.prems(2) by (simp add: update_fresh)
  have "map_of (m @ [(f c, c)]) (f d) = None" if "d \<in> set cs" for d
  proof -
    have "f d \<noteq> f c" using Cons.prems(1) that by (metis distinct.simps(2) image_eqI list.map(2) set_map)
    then show ?thesis using Cons.prems(2) that by (simp add: map_add_def)
  qed
  then show ?case using Cons.IH [of "m @ [(f c, c)]"] Cons.prems(1) by (simp add: u)
qed simp

lemma distinct_map_unique:
  "distinct (map f xs) \<Longrightarrow> x \<in> set xs \<Longrightarrow> y \<in> set xs \<Longrightarrow> f x = f y \<Longrightarrow> x = y"
  by (metis distinct_map inj_onD)

lemma filter_length_1:
  assumes "length (filter P xs) = 1"
  obtains x where "x \<in> set xs" "P x" "filter P xs = [x]" "List.find P xs = Some x"
proof -
  obtain x where x: "filter P xs = [x]"
    using assms by (metis One_nat_def length_0_conv length_Suc_conv)
  then have "x \<in> set (filter P xs)" by simp
  then have "x \<in> set xs" "P x" by simp_all
  moreover have "List.find P xs = Some x"
    using x by (induction xs) (auto split: if_splits)
  ultimately show ?thesis using that x by blast
qed

lemma new_RelationalSchema_Inr:
  assumes "new_RelationalSchema name defs = Inr s"
  shows "schema_accepts name defs" and "wf_schema s"
    and "map base_def (columns s) = defs" and "tableName s = name"
proof -
  obtain n fin cs where loop: "compile_loop defs [] 0 4 [] = Inr (n, fin, cs)" and n1: "n = 1"
    and nm: "is_identifier name" "defs \<noteq> []" "length defs \<le> 32"
    and s: "s = \<lparr>tableName = name, columns = cs, totalSize = fin, primaryKeyName = first_primary_key cs,
               byName = foldl (\<lambda>m c. AList.update (col_name c) c m) [] cs\<rparr>"
    using assms by (auto simp: new_RelationalSchema_def res_bind_eqs split: if_splits)
  have cs: "map base_def cs = defs" "laid_out 4 cs" "fin = 4 + sum_list (map csize cs)"
    "length (filter (\<lambda>d. flag (primaryKey d)) defs) = 1"
    "list_all valid_column defs" "list_all (\<lambda>d. known_type (col_type d)) defs" "distinct (map col_name defs)"
    using compile_loop_ok [OF loop, of 4] n1 by auto
  have sel: "col_name (base_def c) = col_name c" "primaryKey (base_def c) = primaryKey c"
    "nullable (base_def c) = nullable c" for c
    by (simp_all add: base_def_def column_def.defs)
  have names: "map col_name defs = map col_name cs"
    unfolding cs(1) [symmetric] by (simp add: sel comp_def)
  have "filter (\<lambda>d. flag (primaryKey d)) defs = map base_def (filter (\<lambda>c. flag (primaryKey c)) cs)"
    unfolding cs(1) [symmetric] by (simp add: filter_map comp_def sel)
  then have "length (filter (\<lambda>c. flag (primaryKey c)) cs) = 1" using cs(4) by simp
  then obtain p where p: "p \<in> set cs" "flag (primaryKey p)"
    "filter (\<lambda>c. flag (primaryKey c)) cs = [p]" "List.find (\<lambda>c. flag (primaryKey c)) cs = Some p"
    by (rule filter_length_1)
  have pk: "first_primary_key cs = col_name p" by (simp add: first_primary_key_def p(4))
  have nn: "\<not> flag (nullable p)"
    using cs(5) p(1,2) unfolding cs(1) [symmetric] by (auto simp: list_all_iff valid_column_def sel)
  have only: "c = p" if "c \<in> set cs" "flag (primaryKey c)" for c
  proof -
    have "c \<in> set (filter (\<lambda>c. flag (primaryKey c)) cs)" using that by simp
    then show ?thesis unfolding p(3) by simp
  qed
  have bn: "byName s = map (\<lambda>c. (col_name c, c)) cs"
    using foldl_update_fresh [of col_name cs "[]"] cs(7) by (simp add: s names)
  have dk: "distinct (map fst (byName s))" using cs(7) by (simp add: bn names comp_def)
  have mem: "map_of (byName s) n = Some c \<longleftrightarrow> c \<in> set cs \<and> col_name c = n" for n c
    using map_of_mem [OF dk] by (auto simp: bn)
  show "schema_accepts name defs" using nm cs by (simp add: schema_accepts_def)
  have ne: "cs \<noteq> []" "length cs \<le> 32" using cs(1) nm(2,3) by auto
  have pkc: "\<exists>c\<in>set cs. col_name c = col_name p \<and> flag (primaryKey c) \<and> \<not> flag (nullable c)"
    using p(1,2) nn by blast
  have s_sel: "columns s = cs" "tableName s = name" "totalSize s = fin" "primaryKeyName s = col_name p"
    by (simp_all add: s pk)
  show "wf_schema s"
    unfolding wf_schema_def s_sel mem using nm(1) ne cs(2,3,7) pkc only
    by (simp add: names)
  show "map base_def (columns s) = defs" "tableName s = name" by (simp_all add: s cs(1))
qed

lemma new_RelationalSchema_complete:
  assumes "schema_accepts name defs"
  shows "is_ok (new_RelationalSchema name defs)"
proof -
  obtain n fin cs where loop: "compile_loop defs [] 0 4 [] = Inr (n, fin, cs)"
    using assms compile_loop_complete [of defs "[]" 0 4 "[]"] by (auto simp: schema_accepts_def is_ok_def)
  then have "n = 1"
    using assms compile_loop_ok [OF loop, of 4] by (simp add: schema_accepts_def)
  then show ?thesis using assms loop by (auto simp: new_RelationalSchema_def schema_accepts_def)
qed

lemma wf_schema_pk_column:
  assumes "wf_schema s"
  obtains c where "c \<in> set (columns s)" "col_name c = primaryKeyName s" "flag (primaryKey c)"
    "\<not> flag (nullable c)"
  using assms that by (auto simp: wf_schema_def)

section \<open>Properties\<close>

text \<open>The schema compiler decides: it accepts exactly the definitions with an identifier name, 1 to 32
  columns with valid, distinct names and known types, and exactly one primary key, not nullable.\<close>

theorem schema_compiler_decides: "is_ok (new_RelationalSchema name defs) \<longleftrightarrow> schema_accepts name defs"
  using new_RelationalSchema_complete new_RelationalSchema_Inr(1) by (auto simp: is_ok_def)

text \<open>C13. Layout of a compiled schema: the columns are the definitions in order; the fields lie between the
  4-byte null bitmap and the end of the record, have the width of their type and do not overlap;
  the primary key is the one key column and \<open>byName\<close> finds exactly the columns.\<close>

theorem schema_layout:
  assumes "new_RelationalSchema name defs = Inr s"
  shows "map base_def (columns s) = defs \<and> tableName s = name
    \<and> (i < j \<and> j < length (columns s) \<longrightarrow>
          offset (columns s ! i) + csize (columns s ! i) \<le> offset (columns s ! j))
    \<and> (c \<in> set (columns s) \<longrightarrow> 4 \<le> offset c \<and> offset c + csize c \<le> totalSize s
          \<and> relationalTypeSize (col_type c) = Inr (csize c)
          \<and> (flag (primaryKey c) \<longleftrightarrow> col_name c = primaryKeyName s))
    \<and> (map_of (byName s) n = Some c \<longleftrightarrow> c \<in> set (columns s) \<and> col_name c = n)"
proof -
  note wf = new_RelationalSchema_Inr(2) [OF assms]
  have lo: "laid_out 4 (columns s)" "totalSize s = 4 + sum_list (map csize (columns s))"
    "distinct (map col_name (columns s))" using wf by (simp_all add: wf_schema_def)
  obtain p where p: "p \<in> set (columns s)" "col_name p = primaryKeyName s" "flag (primaryKey p)"
    using wf by (rule wf_schema_pk_column)
  have size: "laid_out off cs \<Longrightarrow> c \<in> set cs \<Longrightarrow> relationalTypeSize (col_type c) = Inr (csize c)" for off cs
    by (induction cs arbitrary: off) auto
  have pk: "flag (primaryKey c) \<longleftrightarrow> col_name c = primaryKeyName s" if "c \<in> set (columns s)"
    using wf p distinct_map_unique [OF lo(3) that p(1)] that by (auto simp: wf_schema_def)
  have "i < j \<and> j < length (columns s) \<longrightarrow>
      offset (columns s ! i) + csize (columns s ! i) \<le> offset (columns s ! j)"
    using laid_out_disjoint [OF lo(1)] by blast
  moreover have "c \<in> set (columns s) \<longrightarrow> 4 \<le> offset c \<and> offset c + csize c \<le> totalSize s
      \<and> relationalTypeSize (col_type c) = Inr (csize c) \<and> (flag (primaryKey c) \<longleftrightarrow> col_name c = primaryKeyName s)"
    using laid_out_offsets [OF lo(1)] size [OF lo(1)] pk unfolding lo(2) by blast
  moreover have "map_of (byName s) n = Some c \<longleftrightarrow> c \<in> set (columns s) \<and> col_name c = n"
    using wf unfolding wf_schema_def by blast
  ultimately show ?thesis using new_RelationalSchema_Inr(3,4) [OF assms] by (intro conjI)
qed

theorem schema_layout_witness:
  "\<exists>s. new_RelationalSchema (lit ''t'')
        [\<lparr>col_name = lit ''id'', col_type = TInt32, nullable = None, primaryKey = Some True, unique = None,
           defaultValue = Undefined\<rparr>] = Inr s \<and> tableName s = lit ''t''"
proof -
  have "is_ok (new_RelationalSchema (lit ''t'')
        [\<lparr>col_name = lit ''id'', col_type = TInt32, nullable = None, primaryKey = Some True, unique = None,
           defaultValue = Undefined\<rparr>])" by code_simp
  then obtain s where "new_RelationalSchema (lit ''t'')
        [\<lparr>col_name = lit ''id'', col_type = TInt32, nullable = None, primaryKey = Some True, unique = None,
           defaultValue = Undefined\<rparr>] = Inr s" by (auto simp: is_ok_def)
  with schema_layout [OF this] show ?thesis by blast
qed

end
