(* ===== verification/Codec.thy ===== *)
theory Codec
  imports RelSchema
begin

text \<open>
  Row validation (\<open>client/relational/codec.ts\<close>) and the key namespace
  (\<open>client/relational/utils.ts\<close>): which rows a table accepts, and how a primary key value becomes
  the string it is stored under.
\<close>

section \<open>Keys\<close>

definition hex_digit :: "int \<Rightarrow> code_unit" where
  "hex_digit d = (if d < 10 then 48 + word_of_int d else 87 + word_of_int d)"

definition byte_to_hex :: "byte \<Rightarrow> jstr" where
  "byte_to_hex b = [hex_digit (uint b div 16), hex_digit (uint b mod 16)]"

definition bytes_to_hex :: "byte list \<Rightarrow> jstr" where
  \<comment> \<open>\<open>Buffer.from(value).toString('hex')\<close>\<close>
  "bytes_to_hex bs = concat (map byte_to_hex bs)"

fun encodePk :: "jsval \<Rightarrow> jstr res" where
  "encodePk (Str s) = Inr s"
| "encodePk (Num n) = Inr (js_String (Num n))"
| "encodePk (Bool b) = Inr (js_String (Bool b))"
| "encodePk (Bytes i bs) = Inr (bytes_to_hex bs)"
| "encodePk v = Inl (Error (lit ''unsupported PK value type: '' @ typeof v))"

definition pkKey :: "jstr \<Rightarrow> jstr \<Rightarrow> jstr" where
  "pkKey table pk = lit ''tbl:'' @ table @ lit '':'' @ pk"

definition catalogKey :: "jstr \<Rightarrow> jstr" where
  "catalogKey table = lit ''__catalog__:'' @ table"

definition secondaryPrefix :: "jstr \<Rightarrow> jstr \<Rightarrow> jstr" where
  "secondaryPrefix table column = lit ''idx:'' @ table @ lit '':'' @ column @ lit '':''"

definition secondaryKey :: "jstr \<Rightarrow> jstr \<Rightarrow> jstr \<Rightarrow> jstr" where
  "secondaryKey table column value = lit ''idx:'' @ table @ lit '':'' @ column @ lit '':'' @ value"

lemma encodePk_ok: "is_ok (encodePk v) \<longleftrightarrow> (case v of Str _ \<Rightarrow> True | Num _ \<Rightarrow> True | Bool _ \<Rightarrow> True | Bytes _ _ \<Rightarrow> True | _ \<Rightarrow> False)"
  by (cases v) simp_all

lemma uint_hex_digit:
  assumes "0 \<le> d" "d < 16"
  shows "uint (hex_digit d) = (if d < 10 then 48 + d else 87 + d)"
proof -
  have "hex_digit d = word_of_int (if d < 10 then 48 + d else 87 + d)"
    by (simp add: hex_digit_def)
  then show ?thesis using assms by (simp add: uint_word_of_int)
qed

lemma hex_digit_inj:
  assumes "0 \<le> a" "a < 16" "0 \<le> b" "b < 16" "hex_digit a = hex_digit b"
  shows "a = b"
proof -
  have "(if a < 10 then 48 + a else 87 + a) = (if b < 10 then 48 + b else 87 + b)"
    unfolding uint_hex_digit [OF assms(1,2), symmetric] uint_hex_digit [OF assms(3,4), symmetric] assms(5) ..
  then show ?thesis using assms(1-4) by (cases "a < 10"; cases "b < 10") simp_all
qed

lemma byte_to_hex_inj: "byte_to_hex a = byte_to_hex b \<Longrightarrow> a = b"
proof -
  assume h: "byte_to_hex a = byte_to_hex b"
  have bnd: "0 \<le> uint x div 16" "uint x div 16 < 16" "0 \<le> uint x mod 16" "uint x mod 16 < 16" for x :: byte
    using uint_lt2p [of x] uint_ge_0 [of x] by (simp_all add: pos_imp_zdiv_nonneg_iff)
  have "uint a div 16 = uint b div 16" "uint a mod 16 = uint b mod 16"
    using h bnd [of a] bnd [of b] hex_digit_inj by (auto simp: byte_to_hex_def)
  then have "uint a = uint b" by (metis div_mult_mod_eq)
  then show ?thesis by (simp add: word_uint_eq_iff)
qed

lemma bytes_to_hex_inj: "bytes_to_hex xs = bytes_to_hex ys \<Longrightarrow> xs = ys"
proof (induction xs arbitrary: ys)
  case Nil
  then show ?case by (cases ys) (simp_all add: bytes_to_hex_def byte_to_hex_def)
next
  case (Cons x xs)
  then obtain y ys' where ys: "ys = y # ys'"
    by (cases ys) (simp_all add: bytes_to_hex_def byte_to_hex_def)
  have "length (byte_to_hex x) = length (byte_to_hex y)" by (simp add: byte_to_hex_def)
  then have "byte_to_hex x = byte_to_hex y" "bytes_to_hex xs = bytes_to_hex ys'"
    using Cons.prems by (auto simp: bytes_to_hex_def ys append_eq_append_conv)
  then show ?case using Cons.IH byte_to_hex_inj by (auto simp: ys)
qed

section \<open>Validation\<close>

definition nullBit :: "nat \<Rightarrow> 32 word" where
  \<comment> \<open>\<open>1 << (index % 32)\<close>, a 32-bit value\<close>
  "nullBit index = push_bit (index mod 32) 1"

definition is_nullish :: "jsval \<Rightarrow> bool" where
  "is_nullish v \<longleftrightarrow> v = Null \<or> v = Undefined"

definition is_finite_number :: "jsval \<Rightarrow> bool" where
  "is_finite_number v \<longleftrightarrow> (case v of Num n \<Rightarrow> is_finite_num n | _ \<Rightarrow> False)"

definition column_error :: "compiled_column \<Rightarrow> string \<Rightarrow> js_error" where
  "column_error col what = Error (lit ''column '' @ quoted (col_name col) @ lit what)"

definition check_cell_type :: "compiled_column \<Rightarrow> jsval \<Rightarrow> unit res" where
  \<comment> \<open>the \<open>switch (col.type)\<close>\<close>
  "check_cell_type col v =
     (case col_type col of
        TBool \<Rightarrow> throw_if (case v of Bool _ \<Rightarrow> False | _ \<Rightarrow> True) (column_error col '' must be boolean'')
      | TString \<Rightarrow> throw_if (case v of Str _ \<Rightarrow> False | _ \<Rightarrow> True) (column_error col '' must be string'')
      | TBytes \<Rightarrow> throw_if (case v of Bytes _ _ \<Rightarrow> False | _ \<Rightarrow> True) (column_error col '' must be Uint8Array'')
      | _ \<Rightarrow> throw_if (\<not> is_finite_number v) (column_error col '' must be a finite number''))"

definition validate_cell :: "row \<Rightarrow> compiled_column \<Rightarrow> unit res" where
  \<comment> \<open>the body of the loop over the columns\<close>
  "validate_cell row col =
     (let v = row_get row (col_name col) in
      if is_nullish v then
        if \<not> flag (nullable col) \<and> \<not> truthy (defaultValue col) \<and> flag (primaryKey col) then
          Inl (column_error col '' cannot be null'')
        else if \<not> flag (nullable col) \<and> v \<noteq> Undefined then Inl (column_error col '' is NOT NULL'')
        else Inr ()
      else check_cell_type col v)"

definition validateRow :: "schema \<Rightarrow> row \<Rightarrow> unit res" where
  "validateRow schema row =
     res_bind (res_each (validate_cell row) (columns schema)) (\<lambda>_.
       let pk = row_get row (primaryKeyName schema) in
       throw_if (is_nullish pk \<or> pk = Str []) (Error (lit ''primary key value is required'')))"

subsection \<open>The accepted rows\<close>

fun type_matches :: "relational_type \<Rightarrow> jsval \<Rightarrow> bool" where
  "type_matches TBool v = (case v of Bool _ \<Rightarrow> True | _ \<Rightarrow> False)"
| "type_matches TString v = (case v of Str _ \<Rightarrow> True | _ \<Rightarrow> False)"
| "type_matches TBytes v = (case v of Bytes _ _ \<Rightarrow> True | _ \<Rightarrow> False)"
| "type_matches _ v = is_finite_number v"

definition cell_accepts :: "row \<Rightarrow> compiled_column \<Rightarrow> bool" where
  "cell_accepts row col \<longleftrightarrow>
     (case row_get row (col_name col) of
        Undefined \<Rightarrow> flag (nullable col) \<or> truthy (defaultValue col) \<or> \<not> flag (primaryKey col)
      | Null \<Rightarrow> flag (nullable col)
      | v \<Rightarrow> type_matches (col_type col) v)"

lemma check_cell_type_ok: "check_cell_type col v = Inr u \<longleftrightarrow> type_matches (col_type col) v"
  by (cases "col_type col"; cases v) (auto simp: check_cell_type_def)

lemma validate_cell_ok: "validate_cell row col = Inr u \<longleftrightarrow> cell_accepts row col"
  by (cases "row_get row (col_name col)")
     (auto simp: validate_cell_def cell_accepts_def is_nullish_def Let_def check_cell_type_ok)

lemma validateRow_ok:
  "validateRow s r = Inr u \<longleftrightarrow>
     (\<forall>c\<in>set (columns s). cell_accepts r c)
     \<and> \<not> is_nullish (row_get r (primaryKeyName s)) \<and> row_get r (primaryKeyName s) \<noteq> Str []"
  by (auto simp: validateRow_def res_bind_eqs res_each_ok is_ok_def validate_cell_ok Let_def)

text \<open>A validated row of a well-formed schema always has a key that can be rendered.\<close>

lemma validateRow_encodePk:
  assumes "wf_schema s" and "validateRow s r = Inr u"
  shows "\<exists>k. encodePk (row_get r (primaryKeyName s)) = Inr k"
proof -
  obtain c where c: "c \<in> set (columns s)" "col_name c = primaryKeyName s"
    using assms(1) by (rule wf_schema_pk_column)
  let ?v = "row_get r (primaryKeyName s)"
  have "cell_accepts r c" "?v \<noteq> Null" "?v \<noteq> Undefined"
    using assms(2) c by (auto simp: validateRow_ok is_nullish_def)
  then have "type_matches (col_type c) ?v"
    by (cases ?v) (auto simp: cell_accepts_def c(2))
  then show ?thesis by (cases ?v; cases "col_type c") (auto simp: is_finite_number_def)
qed

section \<open>The key namespace\<close>

lemma identifier_no_colon: "is_identifier s \<Longrightarrow> cu CHR '':'' \<notin> set s"
proof (cases s)
  case (Cons c cs)
  have "\<not> is_ident_char (cu CHR '':'')"
    by (simp add: is_ident_char_def is_ident_start_def is_digit_def cu_def)
  then show "is_identifier s \<Longrightarrow> cu CHR '':'' \<notin> set s"
    using Cons by (auto simp: is_ident_char_def list_all_iff)
qed simp

lemma split_at_sep:
  "c \<notin> set a \<Longrightarrow> c \<notin> set b \<Longrightarrow> a @ c # x = b @ c # y \<longleftrightarrow> a = b \<and> x = y"
proof (induction a arbitrary: b)
  case Nil
  then show ?case by (cases b) auto
next
  case (Cons d a)
  then show ?case by (cases b) auto
qed

lemma lit_colon: "lit '':'' = [cu CHR '':'']"
  by (simp add: lit_def)

lemma pkKey_eq:
  assumes "is_identifier t" "is_identifier t'"
  shows "pkKey t k = pkKey t' k' \<longleftrightarrow> t = t' \<and> k = k'"
  using split_at_sep [OF assms [THEN identifier_no_colon]] by (simp add: pkKey_def lit_colon)

lemma secondaryKey_eq:
  assumes "is_identifier t" "is_identifier c" "is_identifier t'" "is_identifier c'"
  shows "secondaryKey t c v = secondaryKey t' c' v' \<longleftrightarrow> t = t' \<and> c = c' \<and> v = v'"
  using split_at_sep [OF assms(1,3) [THEN identifier_no_colon]] split_at_sep [OF assms(2,4) [THEN identifier_no_colon]]
  by (simp add: secondaryKey_def lit_colon)

section \<open>Properties\<close>

text \<open>C24. The key namespace is collision free for identifier names: a row key determines its table and
  key suffix, an index key its table, column and value, the entries under the prefix of one index
  are exactly that index's, and rows, descriptors and index entries never share a key.\<close>

theorem key_namespace_injective:
  assumes "is_identifier t" "is_identifier t'" "is_identifier c" "is_identifier c'"
  shows "(pkKey t k = pkKey t' k' \<longleftrightarrow> t = t' \<and> k = k')
    \<and> (secondaryKey t c v = secondaryKey t' c' v' \<longleftrightarrow> t = t' \<and> c = c' \<and> v = v')
    \<and> ((\<exists>rest. secondaryKey t c v = secondaryPrefix t' c' @ rest) \<longleftrightarrow> t = t' \<and> c = c')
    \<and> (catalogKey t = catalogKey t' \<longleftrightarrow> t = t')
    \<and> pkKey t k \<noteq> catalogKey t' \<and> pkKey t k \<noteq> secondaryKey t' c' v' \<and> catalogKey t \<noteq> secondaryKey t' c' v'"
proof -
  have pre: "secondaryPrefix t' c' @ rest = secondaryKey t' c' rest" for rest
    by (simp add: secondaryPrefix_def secondaryKey_def)
  have "(\<exists>rest. secondaryKey t c v = secondaryPrefix t' c' @ rest) \<longleftrightarrow> t = t' \<and> c = c'"
    unfolding pre secondaryKey_eq [OF assms(1,3,2,4)] by auto
  moreover have "pkKey t k \<noteq> catalogKey t' \<and> pkKey t k \<noteq> secondaryKey t' c' v' \<and> catalogKey t \<noteq> secondaryKey t' c' v'"
    by (simp add: pkKey_def catalogKey_def secondaryKey_def lit_def)
  ultimately show ?thesis
    using pkKey_eq [OF assms(1,2)] secondaryKey_eq [OF assms(1,3,2,4)] by (simp add: catalogKey_def)
qed

theorem key_namespace_injective_witness:
  "pkKey (lit ''a'') (lit '':'') \<noteq> pkKey (lit ''b'') (lit ''b'')"
proof -
  have "is_identifier (lit ''a'')" "is_identifier (lit ''b'')" by code_simp+
  from key_namespace_injective [OF this this] show ?thesis by simp
qed

text \<open>The row validator decides: it passes exactly when every cell is acceptable for its column
  (absent only where the column is nullable, has a default or is not the key; null only where
  nullable; otherwise a value of the column's type, finite if numeric) and the key is present and
  not the empty text.\<close>

theorem validate_row_decides:
  "is_ok (validateRow s r) \<longleftrightarrow>
     list_all (cell_accepts r) (columns s) \<and> row_get r (primaryKeyName s) \<notin> {Undefined, Null, Str []}"
  by (auto simp: is_ok_def validateRow_ok is_nullish_def list_all_iff)

end
