(* ===== verification/WhereClause.thy ===== *)
theory WhereClause
  imports JsValue
begin

text \<open>
  The \<open>where\<close> clauses of \<open>client/relational/filter.ts\<close>: LIKE patterns compiled to a regular
  expression, clauses compiled to a predicate, and the specification the compiled predicate meets.
  The cache of compiled clauses is keyed by object identity and its clauses are never mutated, so
  it returns what compiling again would, and the model compiles on every call.
\<close>

section \<open>LIKE\<close>

text \<open>
  \<open>likeToRegExp\<close> writes the source text of a regular expression. \<open>regexp_meta\<close> is the class of the
  characters it escapes.
\<close>

definition regexp_meta :: "code_unit \<Rightarrow> bool" where
  "regexp_meta c \<longleftrightarrow> c \<in> set (lit ''.*+?^${}()|[]'') \<or> c = 92"

definition like_char :: "code_unit \<Rightarrow> jstr" where
  \<comment> \<open>what one character of the pattern appends to \<open>out\<close>\<close>
  "like_char ch =
     (if ch = cu CHR ''%'' then lit ''.*''
      else if ch = cu CHR ''_'' then lit ''.''
      else if regexp_meta ch then [92, ch] else [ch])"

definition like_source :: "jsval \<Rightarrow> jstr" where
  "like_source like = concat (map like_char (js_String like))"

text \<open>
  The regular expressions that text denotes: the pattern grammar of the language, for the atoms
  \<open>.\<close>, \<open>.*\<close>, an escaped syntax character and a plain character. Any other use of a syntax
  character is another construct of the grammar, on which \<open>parse_regexp\<close> gives \<open>None\<close>.
\<close>

datatype re_atom = AnySeq | AnyChar | Literal code_unit

fun parse_regexp :: "jstr \<Rightarrow> re_atom list option" where
  "parse_regexp [] = Some []"
| "parse_regexp (c # s) =
     (if c = 92 then
        (case s of [] \<Rightarrow> None
         | d # t \<Rightarrow> if regexp_meta d then map_option ((#) (Literal d)) (parse_regexp t) else None)
      else if c = cu CHR ''.'' then
        (case s of [] \<Rightarrow> Some [AnyChar]
         | d # t \<Rightarrow> if d = cu CHR ''*'' then map_option ((#) AnySeq) (parse_regexp t)
                    else map_option ((#) AnyChar) (parse_regexp s))
      else if regexp_meta c then None
      else map_option ((#) (Literal c)) (parse_regexp s))"

text \<open>\<open>new RegExp(`^${out}$`).test(v)\<close> without flags: \<open>.\<close> matches one code unit that is no line terminator.\<close>

fun re_match :: "re_atom list \<Rightarrow> jstr \<Rightarrow> bool" where
  "re_match [] s = (s = [])"
| "re_match (Literal c # r) s = (case s of [] \<Rightarrow> False | d # t \<Rightarrow> d = c \<and> re_match r t)"
| "re_match (AnyChar # r) s = (case s of [] \<Rightarrow> False | d # t \<Rightarrow> \<not> is_line_terminator d \<and> re_match r t)"
| "re_match (AnySeq # r) [] = re_match r []"
| "re_match (AnySeq # r) (d # t) =
     (re_match r (d # t) \<or> \<not> is_line_terminator d \<and> re_match (AnySeq # r) t)"

definition likeToRegExp :: "jsval \<Rightarrow> re_atom list option" where
  "likeToRegExp like = parse_regexp (like_source like)"

definition like_test :: "jsval \<Rightarrow> jstr \<Rightarrow> bool" where
  "like_test like v = (case likeToRegExp like of Some r \<Rightarrow> re_match r v | None \<Rightarrow> False)"

subsection \<open>The escaping is complete\<close>

definition like_atom :: "code_unit \<Rightarrow> re_atom" where
  "like_atom ch = (if ch = cu CHR ''%'' then AnySeq else if ch = cu CHR ''_'' then AnyChar else Literal ch)"

lemma not_meta: "\<not> regexp_meta (cu CHR ''%'')" "\<not> regexp_meta (cu CHR ''_'')"
  by (simp_all add: regexp_meta_def lit_def) (simp_all add: cu_def)

lemma like_char_head: "take 1 (like_char c) \<noteq> lit ''*''"
proof -
  have "cu CHR ''*'' \<noteq> 92" by (simp add: cu_def)
  then show ?thesis by (auto simp: like_char_def lit_def regexp_meta_def)
qed

lemma parse_like_char:
  assumes "take 1 s \<noteq> lit ''*''"
  shows "parse_regexp (like_char c @ s) = map_option ((#) (like_atom c)) (parse_regexp s)"
proof -
  have n92: "cu CHR ''.'' \<noteq> 92" "cu CHR ''*'' \<noteq> 92" by (simp_all add: cu_def)
  consider "c = cu CHR ''%''" | "c = cu CHR ''_''" | "c \<noteq> cu CHR ''%''" "c \<noteq> cu CHR ''_''" "regexp_meta c"
    | "c \<noteq> cu CHR ''%''" "c \<noteq> cu CHR ''_''" "\<not> regexp_meta c" by blast
  then show ?thesis
  proof cases
    case 1
    then show ?thesis using n92 by (simp add: like_char_def like_atom_def lit_def)
  next
    case 2
    then show ?thesis using n92 assms
      by (cases s) (auto simp: like_char_def like_atom_def lit_def)
  next
    case 3
    then show ?thesis by (simp add: like_char_def like_atom_def)
  next
    case 4
    moreover have "c \<noteq> 92" "c \<noteq> cu CHR ''.''" using 4(3) by (auto simp: regexp_meta_def lit_def)
    ultimately show ?thesis by (simp add: like_char_def like_atom_def)
  qed
qed

lemma like_source_head: "take 1 (concat (map like_char s)) \<noteq> lit ''*''"
proof (cases s)
  case (Cons c t)
  have "like_char c \<noteq> []" by (simp add: like_char_def)
  then show ?thesis using like_char_head [of c] Cons by (cases "like_char c") auto
qed (simp add: lit_def)

lemma likeToRegExp_atoms: "likeToRegExp like = Some (map like_atom (js_String like))"
proof -
  have "parse_regexp (concat (map like_char s)) = Some (map like_atom s)" for s
    by (induction s) (simp_all add: parse_like_char [OF like_source_head])
  then show ?thesis by (simp add: likeToRegExp_def like_source_def)
qed

lemma re_match_AnySeq:
  "re_match (AnySeq # r) s \<longleftrightarrow>
     (\<exists>u v. s = u @ v \<and> list_all (\<lambda>c. \<not> is_line_terminator c) u \<and> re_match r v)"
proof (induction s)
  case Nil
  then show ?case by simp
next
  case (Cons d t)
  show ?case
  proof
    assume "re_match (AnySeq # r) (d # t)"
    then consider "re_match r (d # t)" | "\<not> is_line_terminator d" "re_match (AnySeq # r) t" by auto
    then show "\<exists>u v. d # t = u @ v \<and> list_all (\<lambda>c. \<not> is_line_terminator c) u \<and> re_match r v"
    proof cases
      case 1
      then show ?thesis by (intro exI [of _ "[]"] exI [of _ "d # t"]) simp
    next
      case 2
      then obtain u v where "t = u @ v" "list_all (\<lambda>c. \<not> is_line_terminator c) u" "re_match r v"
        using Cons.IH by blast
      then show ?thesis using 2 by (intro exI [of _ "d # u"] exI [of _ v]) simp
    qed
  next
    assume "\<exists>u v. d # t = u @ v \<and> list_all (\<lambda>c. \<not> is_line_terminator c) u \<and> re_match r v"
    then obtain u v where u: "d # t = u @ v" "list_all (\<lambda>c. \<not> is_line_terminator c) u" "re_match r v"
      by blast
    then show "re_match (AnySeq # r) (d # t)" using Cons.IH by (cases u) auto
  qed
qed

section \<open>Clauses\<close>

text \<open>
  A condition object holds one operand per operator, \<open>undefined\<close> when the operator is absent. A
  clause is the list of its entries; a value that is not a condition object is compared as it is.
\<close>

record condition =
  c_eq :: jsval
  c_ne :: jsval
  c_gt :: jsval
  c_gte :: jsval
  c_lt :: jsval
  c_lte :: jsval
  c_in :: "jsval list option"
  c_like :: jsval

definition no_condition :: condition where
  "no_condition = \<lparr>c_eq = Undefined, c_ne = Undefined, c_gt = Undefined, c_gte = Undefined,
     c_lt = Undefined, c_lte = Undefined, c_in = None, c_like = Undefined\<rparr>"

datatype where_value = Bare jsval | Cond condition

type_synonym where_clause = "(jstr \<times> where_value) list"

type_synonym check = "jsval \<Rightarrow> bool"

definition when_given :: "jsval \<Rightarrow> check \<Rightarrow> check list" where
  \<comment> \<open>\<open>if (c.op !== undefined) checks.push(...)\<close>\<close>
  "when_given operand chk = (if operand = Undefined then [] else [chk])"

definition is_number :: "jsval \<Rightarrow> bool" where
  "is_number v \<longleftrightarrow> (case v of Num _ \<Rightarrow> True | _ \<Rightarrow> False)"

fun js_set_add :: "jsval list \<Rightarrow> jsval \<Rightarrow> jsval list" where
  "js_set_add s v = (if \<exists>w\<in>set s. same_value_zero w v then s else s @ [v])"

definition js_new_set :: "jsval list \<Rightarrow> jsval list" where
  \<comment> \<open>\<open>new Set(arr)\<close>\<close>
  "js_new_set arr = foldl js_set_add [] arr"

definition js_includes :: "jsval list \<Rightarrow> jsval \<Rightarrow> bool" where
  \<comment> \<open>\<open>arr.includes(v)\<close>, and \<open>set.has(v)\<close> on the elements of a set\<close>
  "js_includes arr v \<longleftrightarrow> (\<exists>w\<in>set arr. same_value_zero w v)"

definition in_check :: "jsval list \<Rightarrow> check" where
  "in_check arr =
     (if 8 \<le> length arr then let s = js_new_set arr in (\<lambda>v. js_includes s v)
      else (\<lambda>v. js_includes arr v))"

definition condition_checks :: "condition \<Rightarrow> check list" where
  "condition_checks c =
     when_given (c_eq c) (\<lambda>v. strict_eq v (c_eq c))
     @ when_given (c_ne c) (\<lambda>v. \<not> strict_eq v (c_ne c))
     @ when_given (c_gt c) (\<lambda>v. is_number v \<and> js_lt (c_gt c) v)
     @ when_given (c_gte c) (\<lambda>v. is_number v \<and> js_le (c_gte c) v)
     @ when_given (c_lt c) (\<lambda>v. is_number v \<and> js_lt v (c_lt c))
     @ when_given (c_lte c) (\<lambda>v. is_number v \<and> js_le v (c_lte c))
     @ (case c_in c of None \<Rightarrow> [] | Some arr \<Rightarrow> [in_check arr])
     @ when_given (c_like c) (\<lambda>v. case v of Str s \<Rightarrow> like_test (c_like c) s | _ \<Rightarrow> False)"

fun column_checks :: "where_value \<Rightarrow> check list" where
  "column_checks (Bare cond) = [\<lambda>v. strict_eq v cond]"
| "column_checks (Cond c) = condition_checks c"

fun run_checks :: "check list \<Rightarrow> jsval \<Rightarrow> bool" where
  \<comment> \<open>\<open>for (...) if (!checks[i](v)) return false\<close>\<close>
  "run_checks [] v = True"
| "run_checks (chk # cs) v = (if \<not> chk v then False else run_checks cs v)"

fun run_columns :: "(jstr \<times> check list) list \<Rightarrow> row \<Rightarrow> bool" where
  "run_columns [] row = True"
| "run_columns ((col, cs) # rest) row =
     (if \<not> run_checks cs (row_get row col) then False else run_columns rest row)"

definition compilePerColumn :: "where_clause \<Rightarrow> row \<Rightarrow> bool" where
  "compilePerColumn w =
     (let columns = map (\<lambda>(col, cond). (col, column_checks cond)) w in
      case columns of
        [(col, checks)] \<Rightarrow> (\<lambda>row. run_checks checks (row_get row col))
      | _ \<Rightarrow> (\<lambda>row. run_columns columns row))"

definition matchesWhere :: "row \<Rightarrow> where_clause option \<Rightarrow> bool" where
  "matchesWhere row w = (case w of None \<Rightarrow> True | Some w \<Rightarrow> compilePerColumn w row)"

subsection \<open>Specification\<close>

text \<open>What each operator demands of a cell, read off the operator's meaning.\<close>

definition operand_spec :: "jsval \<Rightarrow> bool \<Rightarrow> bool" where
  "operand_spec operand b \<longleftrightarrow> operand = Undefined \<or> b"

definition condition_spec :: "condition \<Rightarrow> jsval \<Rightarrow> bool" where
  "condition_spec c v \<longleftrightarrow>
     operand_spec (c_eq c) (strict_eq v (c_eq c))
     \<and> operand_spec (c_ne c) (\<not> strict_eq v (c_ne c))
     \<and> operand_spec (c_gt c) (is_number v \<and> js_lt (c_gt c) v)
     \<and> operand_spec (c_gte c) (is_number v \<and> js_le (c_gte c) v)
     \<and> operand_spec (c_lt c) (is_number v \<and> js_lt v (c_lt c))
     \<and> operand_spec (c_lte c) (is_number v \<and> js_le v (c_lte c))
     \<and> (\<forall>arr. c_in c = Some arr \<longrightarrow> (\<exists>w\<in>set arr. same_value_zero w v))
     \<and> operand_spec (c_like c) (\<exists>s. v = Str s \<and> re_match (map like_atom (js_String (c_like c))) s)"

fun where_spec :: "where_value \<Rightarrow> jsval \<Rightarrow> bool" where
  "where_spec (Bare cond) v = strict_eq v cond"
| "where_spec (Cond c) v = condition_spec c v"

lemma run_checks_all: "run_checks cs v \<longleftrightarrow> (\<forall>chk\<in>set cs. chk v)"
  by (induction cs) auto

lemma run_columns_all: "run_columns cols row \<longleftrightarrow> (\<forall>(col, cs)\<in>set cols. run_checks cs (row_get row col))"
  by (induction cols) (auto split: if_splits)

lemma js_new_set_includes: "js_includes (js_new_set arr) v = js_includes arr v"
proof -
  have "js_includes (foldl js_set_add s arr) v \<longleftrightarrow> js_includes s v \<or> js_includes arr v" for s
  proof (induction arr arbitrary: s)
    case (Cons a arr)
    have "js_includes (js_set_add s a) v \<longleftrightarrow> js_includes s v \<or> same_value_zero a v"
      using same_value_zero_trans by (auto simp: js_includes_def)
    then show ?case using Cons by (auto simp: js_includes_def)
  qed (simp add: js_includes_def)
  from this [of "[]"] show ?thesis by (simp add: js_new_set_def js_includes_def)
qed

lemma in_check_includes: "in_check arr v = js_includes arr v"
  by (simp add: in_check_def Let_def js_new_set_includes)

lemma run_checks_append: "run_checks (xs @ ys) v \<longleftrightarrow> run_checks xs v \<and> run_checks ys v"
  by (auto simp: run_checks_all)

lemma run_when_given: "run_checks (when_given x chk) v \<longleftrightarrow> operand_spec x (chk v)"
  by (simp add: when_given_def operand_spec_def)

lemma condition_checks_spec: "run_checks (condition_checks c) v = condition_spec c v"
proof -
  have "run_checks (case c_in c of None \<Rightarrow> [] | Some arr \<Rightarrow> [in_check arr]) v
      \<longleftrightarrow> (\<forall>arr. c_in c = Some arr \<longrightarrow> (\<exists>w\<in>set arr. same_value_zero w v))"
    by (simp add: in_check_includes js_includes_def split: option.splits)
  moreover have "(case v of Str s \<Rightarrow> like_test (c_like c) s | _ \<Rightarrow> False)
      \<longleftrightarrow> (\<exists>s. v = Str s \<and> re_match (map like_atom (js_String (c_like c))) s)"
    by (cases v) (simp_all add: like_test_def likeToRegExp_atoms)
  ultimately show ?thesis
    by (simp add: condition_checks_def condition_spec_def run_checks_append run_when_given)
qed

lemma column_checks_spec: "run_checks (column_checks w) v = where_spec w v"
  by (cases w) (simp_all add: condition_checks_spec)

lemma compilePerColumn_spec:
  "compilePerColumn w row \<longleftrightarrow> (\<forall>(col, cond)\<in>set w. where_spec cond (row_get row col))"
proof -
  have cols: "compilePerColumn w row = run_columns (map (\<lambda>(col, cond). (col, column_checks cond)) w) row"
    by (simp add: compilePerColumn_def Let_def split: list.split prod.splits)
  show ?thesis unfolding cols run_columns_all by (auto simp: column_checks_spec)
qed

lemma matchesWhere_None [simp]: "matchesWhere row None"
  by (simp add: matchesWhere_def)

end
