(* ===== verification/Table.thy ===== *)
theory Table
  imports Codec WhereClause
begin

text \<open>
  One in-memory table (\<open>client/relational/table.ts\<close>): the rows by primary key in insertion order
  and, for every column declared unique or primary key, a map from the rendered cell to the set of
  keys holding it. Methods take the table and return the result, or the exception, with the table
  they leave.
\<close>

type_synonym pk_set = "jstr list"
type_synonym secondary_map = "(jstr, pk_set) jsmap"

record table =
  schema_of :: schema
  rows :: "(jstr, row) jsmap"
  secondary :: "(jstr, secondary_map) jsmap"

definition set_add :: "pk_set \<Rightarrow> jstr \<Rightarrow> pk_set" where
  "set_add s k = (if k \<in> set s then s else s @ [k])"

definition set_remove :: "pk_set \<Rightarrow> jstr \<Rightarrow> pk_set" where
  "set_remove s k = filter (\<lambda>x. x \<noteq> k) s"

definition new_RelationalTable :: "jstr \<Rightarrow> column_def list \<Rightarrow> table res" where
  "new_RelationalTable name defs =
     res_bind (new_RelationalSchema name defs) (\<lambda>s.
       Inr \<lparr>schema_of = s, rows = [],
            secondary = foldl (\<lambda>m c. if flag (unique c) \<or> flag (primaryKey c)
                                       then AList.update (col_name c) [] m else m) [] (columns s)\<rparr>)"

definition index_cell :: "jstr \<Rightarrow> row \<Rightarrow> jstr \<Rightarrow> secondary_map \<Rightarrow> secondary_map" where
  "index_cell pk row col m =
     (let v = js_String (row_get row col) in
      case map_of m v of
        None \<Rightarrow> AList.update v (set_add [] pk) (AList.update v [] m)
      | Some s \<Rightarrow> AList.update v (set_add s pk) m)"

definition deindex_cell :: "jstr \<Rightarrow> row \<Rightarrow> jstr \<Rightarrow> secondary_map \<Rightarrow> secondary_map" where
  "deindex_cell pk row col m =
     (let v = js_String (row_get row col) in
      case map_of m v of
        None \<Rightarrow> m
      | Some s \<Rightarrow> let s' = set_remove s pk in
                  if s' = [] then AList.delete v m else AList.update v s' m)"

definition indexRow :: "jstr \<Rightarrow> row \<Rightarrow> table \<Rightarrow> table" where
  "indexRow pk row t = t\<lparr>secondary := map (\<lambda>(col, m). (col, index_cell pk row col m)) (secondary t)\<rparr>"

definition deindexRow :: "jstr \<Rightarrow> row \<Rightarrow> table \<Rightarrow> table" where
  "deindexRow pk row t = t\<lparr>secondary := map (\<lambda>(col, m). (col, deindex_cell pk row col m)) (secondary t)\<rparr>"

definition tbl_insert :: "row \<Rightarrow> (table, row) action" where
  "tbl_insert row t =
     (case validateRow (schema_of t) row of Inl e \<Rightarrow> (Inl e, t)
      | Inr _ \<Rightarrow>
        (case encodePk (row_get row (primaryKeyName (schema_of t))) of Inl e \<Rightarrow> (Inl e, t)
         | Inr pk \<Rightarrow>
           if jm_has (rows t) pk then
             (Inl (ConstraintError (lit ''duplicate primary key '' @ quoted pk)), t)
           else (Inr row, indexRow pk row (t\<lparr>rows := AList.update pk row (rows t)\<rparr>))))"

definition tbl_findByPk :: "table \<Rightarrow> jsval \<Rightarrow> row option res" where
  "tbl_findByPk t pkValue = res_bind (encodePk pkValue) (\<lambda>pk. Inr (map_of (rows t) pk))"

definition tbl_scan :: "table \<Rightarrow> where_clause option \<Rightarrow> row list" where
  "tbl_scan t w = filter (\<lambda>r. matchesWhere r w) (jm_values (rows t))"

definition tbl_update :: "jsval \<Rightarrow> row \<Rightarrow> (table, row option) action" where
  "tbl_update pkValue patch t =
     (let pkc = primaryKeyName (schema_of t) in
      case encodePk pkValue of Inl e \<Rightarrow> (Inl e, t)
      | Inr pk \<Rightarrow>
        (case map_of (rows t) pk of None \<Rightarrow> (Inr None, t)
         | Some cur \<Rightarrow>
           (case (if row_get patch pkc = Undefined then Inr pk else encodePk (row_get patch pkc)) of
              Inl e \<Rightarrow> (Inl e, t)
            | Inr pk' \<Rightarrow>
              if pk' \<noteq> pk then (Inl (ConstraintError (lit ''primary key is immutable'')), t)
              else let next = cur ++ patch in
                (case validateRow (schema_of t) next of Inl e \<Rightarrow> (Inl e, t)
                 | Inr _ \<Rightarrow>
                   let t1 = deindexRow pk cur t;
                       t2 = t1\<lparr>rows := AList.update pk next (rows t1)\<rparr>
                   in (Inr (Some next), indexRow pk next t2)))))"

definition tbl_delete :: "jsval \<Rightarrow> (table, bool) action" where
  "tbl_delete pkValue t =
     (case encodePk pkValue of Inl e \<Rightarrow> (Inl e, t)
      | Inr pk \<Rightarrow>
        (case map_of (rows t) pk of None \<Rightarrow> (Inr False, t)
         | Some cur \<Rightarrow>
           let t1 = deindexRow pk cur t
           in (Inr (jm_has (rows t1) pk), t1\<lparr>rows := AList.delete pk (rows t1)\<rparr>)))"

definition tbl_count :: "table \<Rightarrow> nat" where
  "tbl_count t = length (rows t)"

section \<open>The invariant\<close>

text \<open>
  Every stored row validates and is stored under its own rendered key; every secondary map is the
  exact inverse of its column, with no empty sets.
\<close>

definition row_ok :: "schema \<Rightarrow> jstr \<Rightarrow> row \<Rightarrow> bool" where
  "row_ok s k r \<longleftrightarrow> is_ok (validateRow s r) \<and> encodePk (row_get r (primaryKeyName s)) = Inr k"

definition keys_with :: "(jstr, row) jsmap \<Rightarrow> jstr \<Rightarrow> jstr \<Rightarrow> jstr set" where
  \<comment> \<open>the keys of the rows whose cell in column \<open>col\<close> renders as \<open>v\<close>\<close>
  "keys_with rs col v = {k. \<exists>r. map_of rs k = Some r \<and> js_String (row_get r col) = v}"

definition index_ok :: "(jstr, row) jsmap \<Rightarrow> jstr \<Rightarrow> secondary_map \<Rightarrow> bool" where
  "index_ok rs col m \<longleftrightarrow> jm_ok m \<and>
     (\<forall>v. (case map_of m v of None \<Rightarrow> keys_with rs col v = {}
           | Some s \<Rightarrow> s \<noteq> [] \<and> distinct s \<and> set s = keys_with rs col v))"

definition wf_table :: "table \<Rightarrow> bool" where
  "wf_table t \<longleftrightarrow> wf_schema (schema_of t) \<and> jm_ok (rows t)
     \<and> (\<forall>k r. map_of (rows t) k = Some r \<longrightarrow> row_ok (schema_of t) k r)
     \<and> (\<forall>(col, m)\<in>set (secondary t). index_ok (rows t) col m)"

definition indexed_columns :: "table \<Rightarrow> jstr list" where
  "indexed_columns t = jm_keys (secondary t)"

lemma index_ok_Nil: "index_ok [] col []"
  by (simp add: index_ok_def keys_with_def)

lemma keys_with_update:
  "map_of rs k = None \<Longrightarrow>
   keys_with (AList.update k r rs) col v
     = (if js_String (row_get r col) = v then insert k (keys_with rs col v) else keys_with rs col v)"
  by (auto simp: keys_with_def)

lemma keys_with_delete:
  "keys_with (AList.delete k rs) col v = keys_with rs col v - {k}"
  by (auto simp: keys_with_def)

lemma index_cell_ok:
  assumes "index_ok rs col m" "map_of rs k = None"
  shows "index_ok (AList.update k r rs) col (index_cell k r col m)"
proof -
  let ?v = "js_String (row_get r col)"
  have upd2: "map_of (index_cell k r col m) v
     = (if v = ?v then Some (set_add (case map_of m ?v of None \<Rightarrow> [] | Some s \<Rightarrow> s) k) else map_of m v)" for v
    by (simp add: index_cell_def Let_def split: option.splits)
  have ok: "jm_ok (index_cell k r col m)"
    using assms(1) by (simp add: index_ok_def index_cell_def Let_def split: option.splits)
  have fresh: "k \<notin> keys_with rs col v" for v
    using assms(2) by (auto simp: keys_with_def)
  show ?thesis
    unfolding index_ok_def
  proof (intro conjI allI)
    fix v
    have old: "case map_of m v of None \<Rightarrow> keys_with rs col v = {}
        | Some s \<Rightarrow> s \<noteq> [] \<and> distinct s \<and> set s = keys_with rs col v"
      using assms(1) by (simp add: index_ok_def)
    show "case map_of (index_cell k r col m) v of None \<Rightarrow> keys_with (AList.update k r rs) col v = {}
        | Some s \<Rightarrow> s \<noteq> [] \<and> distinct s \<and> set s = keys_with (AList.update k r rs) col v"
      using old fresh unfolding upd2 keys_with_update [OF assms(2)]
      by (auto simp: set_add_def split: option.splits)
  qed (rule ok)
qed

lemma deindex_cell_ok:
  assumes "index_ok rs col m" "map_of rs k = Some r"
  shows "index_ok (AList.delete k rs) col (deindex_cell k r col m)"
proof -
  let ?v = "js_String (row_get r col)"
  have mem: "k \<in> keys_with rs col ?v" and only: "k \<notin> keys_with rs col v" if "v \<noteq> ?v" for v
    using assms(2) that by (auto simp: keys_with_def)
  have mem': "k \<in> keys_with rs col ?v" using assms(2) by (auto simp: keys_with_def)
  obtain s where s: "map_of m ?v = Some s" "s \<noteq> []" "distinct s" "set s = keys_with rs col ?v"
    using assms(1) mem' by (fastforce simp: index_ok_def split: option.splits dest: spec [of _ ?v])
  have res: "map_of (deindex_cell k r col m) v
     = (if v = ?v then (if set_remove s k = [] then None else Some (set_remove s k)) else map_of m v)" for v
    by (simp add: deindex_cell_def Let_def s(1))
  have ok: "jm_ok (deindex_cell k r col m)"
    using assms(1) by (simp add: index_ok_def deindex_cell_def Let_def split: option.splits)
  have sr: "set (set_remove s k) = keys_with rs col ?v - {k}" "distinct (set_remove s k)"
    using s by (auto simp: set_remove_def)
  then have srn: "set_remove s k = [] \<longleftrightarrow> keys_with rs col ?v - {k} = {}"
    by (metis empty_set set_empty2)
  show ?thesis
    unfolding index_ok_def
  proof (intro conjI allI)
    fix v
    have old: "case map_of m v of None \<Rightarrow> keys_with rs col v = {}
        | Some s \<Rightarrow> s \<noteq> [] \<and> distinct s \<and> set s = keys_with rs col v"
      using assms(1) by (simp add: index_ok_def)
    show "case map_of (deindex_cell k r col m) v of None \<Rightarrow> keys_with (AList.delete k rs) col v = {}
        | Some s \<Rightarrow> s \<noteq> [] \<and> distinct s \<and> set s = keys_with (AList.delete k rs) col v"
    proof (cases "v = ?v")
      case True
      then show ?thesis unfolding res keys_with_delete using sr srn by simp
    next
      case False
      then have "keys_with rs col v - {k} = keys_with rs col v" using only by blast
      then show ?thesis using False old by (simp only: res keys_with_delete if_False)
    qed
  qed (rule ok)
qed

lemma index_ok_cong: "map_of rs = map_of rs' \<Longrightarrow> index_ok rs col m = index_ok rs' col m"
proof -
  assume "map_of rs = map_of rs'"
  then have eq: "keys_with rs = keys_with rs'" by (simp add: keys_with_def fun_eq_iff)
  show ?thesis unfolding index_ok_def eq ..
qed

lemma reindex_cell_ok:
  assumes "index_ok rs col m" "map_of rs k = Some cur"
  shows "index_ok (AList.update k r rs) col (index_cell k r col (deindex_cell k cur col m))"
proof -
  have "index_ok (AList.update k r (AList.delete k rs)) col (index_cell k r col (deindex_cell k cur col m))"
    using deindex_cell_ok [OF assms] by (rule index_cell_ok) simp
  moreover have "map_of (AList.update k r (AList.delete k rs)) = map_of (AList.update k r rs)"
    by (simp add: fun_eq_iff)
  ultimately show ?thesis using index_ok_cong by blast
qed

lemma table_sel [simp]:
  "schema_of (indexRow pk r t) = schema_of t" "rows (indexRow pk r t) = rows t"
  "schema_of (deindexRow pk r t) = schema_of t" "rows (deindexRow pk r t) = rows t"
  "secondary (indexRow pk r t) = map (\<lambda>(col, m). (col, index_cell pk r col m)) (secondary t)"
  "secondary (deindexRow pk r t) = map (\<lambda>(col, m). (col, deindex_cell pk r col m)) (secondary t)"
  by (simp_all add: indexRow_def deindexRow_def)

section \<open>The operations, branch by branch\<close>

text \<open>Each method, as a case split over everything it can do.\<close>

lemma tbl_insert_cases:
  obtains e where "tbl_insert r t = (Inl e, t)"
    "\<not> is_ok (validateRow (schema_of t) r) \<or> (\<exists>k. encodePk (row_get r (primaryKeyName (schema_of t))) = Inr k
        \<and> jm_has (rows t) k \<and> e = ConstraintError (lit ''duplicate primary key '' @ quoted k))
      \<or> \<not> is_ok (encodePk (row_get r (primaryKeyName (schema_of t))))"
  | k where "row_ok (schema_of t) k r" "map_of (rows t) k = None"
    "tbl_insert r t = (Inr r, indexRow k r (t\<lparr>rows := rows t @ [(k, r)]\<rparr>))"
  by (cases "validateRow (schema_of t) r";
      cases "encodePk (row_get r (primaryKeyName (schema_of t)))")
     (auto simp: tbl_insert_def row_ok_def jm_has_def update_fresh is_ok_def split: if_splits)

lemma tbl_update_cases:
  obtains e where "tbl_update v p t = (Inl e, t)"
  | k where "encodePk v = Inr k" "map_of (rows t) k = None" "tbl_update v p t = (Inr None, t)"
  | k cur where "encodePk v = Inr k" "map_of (rows t) k = Some cur"
    "is_ok (validateRow (schema_of t) (cur ++ p))"
    "row_get p (primaryKeyName (schema_of t)) = Undefined
      \<or> encodePk (row_get p (primaryKeyName (schema_of t))) = Inr k"
    "tbl_update v p t = (Inr (Some (cur ++ p)),
       indexRow k (cur ++ p) ((deindexRow k cur t)\<lparr>rows := AList.update k (cur ++ p) (rows t)\<rparr>))"
proof (cases "encodePk v")
  case (Inl e)
  then show ?thesis using that(1) by (simp add: tbl_update_def)
next
  case k: (Inr k)
  show ?thesis
  proof (cases "map_of (rows t) k")
    case None
    then show ?thesis using that(2) k by (simp add: tbl_update_def)
  next
    case cur: (Some cur)
    let ?pv = "row_get p (primaryKeyName (schema_of t))"
    show ?thesis
    proof (cases "if ?pv = Undefined then Inr k else encodePk ?pv")
      case (Inl e)
      then show ?thesis using that(1) k cur by (simp add: tbl_update_def Let_def)
    next
      case pk: (Inr k')
      show ?thesis
        using that(1) that(3) [OF k cur] k cur pk
        by (cases "validateRow (schema_of t) (cur ++ p)"; cases "k' = k")
           (auto simp: tbl_update_def Let_def split: if_splits)
    qed
  qed
qed

lemma tbl_delete_cases:
  obtains e where "encodePk v = Inl e" "tbl_delete v t = (Inl e, t)"
  | k where "encodePk v = Inr k" "map_of (rows t) k = None" "tbl_delete v t = (Inr False, t)"
  | k cur where "encodePk v = Inr k" "map_of (rows t) k = Some cur"
    "tbl_delete v t = (Inr True, (deindexRow k cur t)\<lparr>rows := AList.delete k (rows t)\<rparr>)"
  by (cases "encodePk v"; cases "map_of (rows t) (case encodePk v of Inr k \<Rightarrow> k | Inl _ \<Rightarrow> [])")
     (auto simp: tbl_delete_def Let_def jm_has_def)

lemma wf_schema_pk_cell:
  assumes "wf_schema s" "row_ok s k cur" "is_ok (validateRow s (cur ++ p))"
    "row_get p (primaryKeyName s) = Undefined \<or> encodePk (row_get p (primaryKeyName s)) = Inr k"
  shows "row_ok s k (cur ++ p)"
proof -
  have "row_get (cur ++ p) (primaryKeyName s) \<noteq> Undefined"
    using assms(3) by (auto simp: is_ok_def validateRow_ok is_nullish_def)
  then have "encodePk (row_get (cur ++ p) (primaryKeyName s)) = Inr k"
    using assms(2,4) by (auto simp: row_get_merge row_ok_def row_get_def split: option.splits)
  then show ?thesis using assms(3) by (simp add: row_ok_def)
qed

lemma wf_table_insert: "wf_table t \<Longrightarrow> wf_table (snd (tbl_insert r t))"
proof -
  assume wf: "wf_table t"
  show ?thesis
  proof (cases rule: tbl_insert_cases [of r t])
    case (1 e)
    then show ?thesis using wf by simp
  next
    case (2 k)
    have up: "AList.update k r (rows t) = rows t @ [(k, r)]" using 2(2) by (rule update_fresh)
    have "jm_ok (rows t @ [(k, r)])" using wf by (simp add: wf_table_def flip: up)
    moreover have "index_ok (rows t @ [(k, r)]) col (index_cell k r col m)"
      if "(col, m) \<in> set (secondary t)" for col m
      using wf that 2(2) index_cell_ok unfolding up [symmetric] by (auto simp: wf_table_def)
    moreover have "map_of (rows t @ [(k, r)]) = (map_of (rows t))(k \<mapsto> r)"
      using map_of_update [of k r "rows t"] by (simp add: up)
    ultimately show ?thesis using wf 2(1,3) by (auto simp: wf_table_def)
  qed
qed

lemma wf_table_update: "wf_table t \<Longrightarrow> wf_table (snd (tbl_update v p t))"
proof -
  assume wf: "wf_table t"
  show ?thesis
  proof (cases rule: tbl_update_cases [of v p t])
    case (3 k cur)
    have "row_ok (schema_of t) k (cur ++ p)"
      using wf 3 by (intro wf_schema_pk_cell) (auto simp: wf_table_def)
    moreover have "index_ok (AList.update k (cur ++ p) (rows t)) col
        (index_cell k (cur ++ p) col (deindex_cell k cur col m))" if "(col, m) \<in> set (secondary t)" for col m
      using wf that 3(2) reindex_cell_ok by (auto simp: wf_table_def)
    ultimately show ?thesis using wf 3(5) by (auto simp: wf_table_def)
  qed (use wf in simp_all)
qed

lemma wf_table_delete: "wf_table t \<Longrightarrow> wf_table (snd (tbl_delete v t))"
proof -
  assume wf: "wf_table t"
  show ?thesis
  proof (cases rule: tbl_delete_cases [of v t])
    case (3 k cur)
    have "index_ok (AList.delete k (rows t)) col (deindex_cell k cur col m)"
      if "(col, m) \<in> set (secondary t)" for col m
      using wf that 3(2) deindex_cell_ok by (auto simp: wf_table_def)
    then show ?thesis using wf 3(3) by (auto simp: wf_table_def split: if_splits)
  qed (use wf in simp_all)
qed

lemma wf_new_table:
  assumes "new_RelationalTable name defs = Inr t"
  shows "wf_table t" and "rows t = []" and "new_RelationalSchema name defs = Inr (schema_of t)"
proof -
  obtain s where s: "new_RelationalSchema name defs = Inr s"
    and t: "t = \<lparr>schema_of = s, rows = [],
            secondary = foldl (\<lambda>m c. if flag (unique c) \<or> flag (primaryKey c)
                                       then AList.update (col_name c) [] m else m) [] (columns s)\<rparr>"
    using assms by (auto simp: new_RelationalTable_def res_bind_eqs)
  have "\<forall>(col, m)\<in>set (foldl (\<lambda>m c. if P c then AList.update (f c) [] m else m) m0 cs). m = []"
    if "\<forall>(col, m)\<in>set m0. m = []" for P and f :: "compiled_column \<Rightarrow> jstr"
      and m0 :: "(jstr, secondary_map) jsmap" and cs
    using that
  proof (induction cs arbitrary: m0)
    case (Cons c cs)
    have "\<forall>(col, m)\<in>set (AList.update (f c) [] m0). m = []"
      using Cons.prems by (induction m0) (auto split: if_splits)
    then show ?case using Cons by simp
  qed simp
  from this [of "[]" "\<lambda>c. flag (unique c) \<or> flag (primaryKey c)" col_name "columns s"]
  have "\<forall>(col, m)\<in>set (secondary t). m = []" by (simp add: t)
  then show "wf_table t"
    using new_RelationalSchema_Inr(2) [OF s] index_ok_Nil by (auto simp: wf_table_def t)
  show "rows t = []" "new_RelationalSchema name defs = Inr (schema_of t)" by (simp_all add: t s)
qed

lemma schema_of_methods [simp]:
  "schema_of (snd (tbl_insert r t)) = schema_of t"
  "schema_of (snd (tbl_update v p t)) = schema_of t"
  "schema_of (snd (tbl_delete v t)) = schema_of t"
proof -
  show "schema_of (snd (tbl_insert r t)) = schema_of t" by (cases rule: tbl_insert_cases [of r t]) simp_all
  show "schema_of (snd (tbl_update v p t)) = schema_of t" by (cases rule: tbl_update_cases [of v p t]) simp_all
  show "schema_of (snd (tbl_delete v t)) = schema_of t" by (cases rule: tbl_delete_cases [of v t]) simp_all
qed

section \<open>The contract of a keyed table\<close>

text \<open>
  What a client of a table relies on: a partial map from rendered keys to rows, the effect of
  every method on it, and that a method which throws changes nothing.
\<close>

locale keyed_table =
  fixes good :: "'t \<Rightarrow> bool"
    and view :: "'t \<Rightarrow> jstr \<Rightarrow> row option"
    and ins :: "row \<Rightarrow> ('t, row) action"
    and upd :: "jsval \<Rightarrow> row \<Rightarrow> ('t, row option) action"
    and del :: "jsval \<Rightarrow> ('t, bool) action"
    and find :: "'t \<Rightarrow> jsval \<Rightarrow> row option res"
    and key_of :: "'t \<Rightarrow> row \<Rightarrow> jstr res"
  assumes good_ins: "good t \<Longrightarrow> good (snd (ins r t))"
    and good_upd: "good t \<Longrightarrow> good (snd (upd v p t))"
    and good_del: "good t \<Longrightarrow> good (snd (del v t))"
    and ins_ok: "ins r t = (Inr r', t') \<Longrightarrow>
      r' = r \<and> (\<exists>k. key_of t r = Inr k \<and> view t k = None \<and> view t' = (view t)(k \<mapsto> r))"
    and ins_err: "ins r t = (Inl e, t') \<Longrightarrow> t' = t"
    and upd_ok: "upd v p t = (Inr res, t') \<Longrightarrow> \<exists>k. encodePk v = Inr k \<and>
      (case view t k of None \<Rightarrow> res = None \<and> t' = t
       | Some cur \<Rightarrow> res = Some (cur ++ p) \<and> view t' = (view t)(k \<mapsto> cur ++ p))"
    and upd_err: "upd v p t = (Inl e, t') \<Longrightarrow> t' = t"
    and del_ok: "del v t = (Inr b, t') \<Longrightarrow> \<exists>k. encodePk v = Inr k \<and>
      (case view t k of None \<Rightarrow> \<not> b \<and> t' = t | Some cur \<Rightarrow> b \<and> view t' = (view t)(k := None))"
    and del_err: "del v t = (Inl e, t') \<Longrightarrow> t' = t \<and> encodePk v = Inl e"
    and find_view: "find t v = res_bind (encodePk v) (\<lambda>k. Inr (view t k))"
    and key_ins: "key_of (snd (ins r t)) = key_of t"
begin

lemma find_after_insert:
  assumes "ins r t = (Inr r', t')" "encodePk v = key_of t r"
  shows "find t' v = Inr (Some r)"
  using ins_ok [OF assms(1)] assms(2) by (auto simp: find_view)

lemma insert_frame:
  assumes "ins r t = (Inr r', t')" "encodePk v \<noteq> key_of t r"
  shows "find t' v = find t v"
  using ins_ok [OF assms(1)] assms(2) by (cases "encodePk v") (auto simp: find_view)

lemma insert_twice_fails:
  assumes "ins r t = (Inr r', t')" "key_of t s = key_of t r"
  shows "\<exists>e. ins s t' = (Inl e, t')"
proof (cases "ins s t'")
  case (Pair res t'')
  have same: "key_of t' = key_of t" using key_ins [of r t] assms(1) by simp
  show ?thesis
  proof (cases res)
    case (Inl e)
    then show ?thesis using ins_err Pair by blast
  next
    case (Inr s')
    then show ?thesis
      using ins_ok [of s t' s' t''] ins_ok [OF assms(1)] Pair same assms(2) by auto
  qed
qed

lemma find_after_update:
  assumes "upd v p t = (Inr (Some r), t')" "find t v = Inr (Some cur)"
  shows "r = cur ++ p" "find t' v = Inr (Some r)"
  using upd_ok [OF assms(1)] assms(2) by (auto simp: find_view split: option.splits)

lemma update_frame:
  assumes "upd v p t = (Inr res, t')" "encodePk w \<noteq> encodePk v"
  shows "find t' w = find t w"
  using upd_ok [OF assms(1)] assms(2)
  by (cases "encodePk w") (auto simp: find_view split: option.splits)

lemma find_after_delete:
  assumes "del v t = (Inr b, t')"
  shows "find t' v = Inr None"
  using del_ok [OF assms] by (auto simp: find_view split: option.splits)

lemma delete_result:
  assumes "del v t = (Inr b, t')" "find t v = Inr cur"
  shows "b \<longleftrightarrow> cur \<noteq> None"
  using del_ok [OF assms(1)] assms(2) by (auto simp: find_view split: option.splits)

lemma delete_frame:
  assumes "del v t = (Inr b, t')" "encodePk w \<noteq> encodePk v"
  shows "find t' w = find t w"
  using del_ok [OF assms(1)] assms(2)
  by (cases "encodePk w") (auto simp: find_view split: option.splits)

lemma reinsert_after_delete:
  assumes "del v t = (Inr b, t')" "ins r t' = (Inl e, t'')"
  shows "t'' = t'"
  using ins_err assms(2) by blast

end

definition tbl_key_of :: "table \<Rightarrow> row \<Rightarrow> jstr res" where
  "tbl_key_of t r = encodePk (row_get r (primaryKeyName (schema_of t)))"

interpretation rel_table: keyed_table wf_table "\<lambda>t. map_of (rows t)" tbl_insert tbl_update tbl_delete
  tbl_findByPk tbl_key_of
proof unfold_locales
  fix t t' :: table and r r' p :: row and v :: jsval and e b res
  show "wf_table t \<Longrightarrow> wf_table (snd (tbl_insert r t))" by (rule wf_table_insert)
  show "wf_table t \<Longrightarrow> wf_table (snd (tbl_update v p t))" by (rule wf_table_update)
  show "wf_table t \<Longrightarrow> wf_table (snd (tbl_delete v t))" by (rule wf_table_delete)
  show "tbl_insert r t = (Inr r', t') \<Longrightarrow> r' = r \<and> (\<exists>k. tbl_key_of t r = Inr k \<and> map_of (rows t) k = None
      \<and> map_of (rows t') = (map_of (rows t))(k \<mapsto> r))"
    by (cases rule: tbl_insert_cases [of r t])
       (auto simp: tbl_key_of_def row_ok_def map_add_def fun_eq_iff split: option.splits)
  show "tbl_insert r t = (Inl e, t') \<Longrightarrow> t' = t"
    by (cases rule: tbl_insert_cases [of r t]) auto
  show "tbl_update v p t = (Inr res, t') \<Longrightarrow> \<exists>k. encodePk v = Inr k \<and>
      (case map_of (rows t) k of None \<Rightarrow> res = None \<and> t' = t
       | Some cur \<Rightarrow> res = Some (cur ++ p) \<and> map_of (rows t') = (map_of (rows t))(k \<mapsto> cur ++ p))"
    by (cases rule: tbl_update_cases [of v p t]) auto
  show "tbl_update v p t = (Inl e, t') \<Longrightarrow> t' = t"
    by (cases rule: tbl_update_cases [of v p t]) auto
  show "tbl_delete v t = (Inr b, t') \<Longrightarrow> \<exists>k. encodePk v = Inr k \<and>
      (case map_of (rows t) k of None \<Rightarrow> \<not> b \<and> t' = t
       | Some cur \<Rightarrow> b \<and> map_of (rows t') = (map_of (rows t))(k := None))"
    by (cases rule: tbl_delete_cases [of v t]) auto
  show "tbl_delete v t = (Inl e, t') \<Longrightarrow> t' = t \<and> encodePk v = Inl e"
    by (cases rule: tbl_delete_cases [of v t]) auto
  show "tbl_findByPk t v = res_bind (encodePk v) (\<lambda>k. Inr (map_of (rows t) k))"
    by (simp add: tbl_findByPk_def)
  show "tbl_key_of (snd (tbl_insert r t)) = tbl_key_of t"
    by (cases rule: tbl_insert_cases [of r t]) (auto simp: tbl_key_of_def fun_eq_iff)
qed

end
