(* ===== verification/Database.thy ===== *)
theory Database
  imports Table
begin

text \<open>
  The catalog of tables (\<open>client/relational/database.ts\<close>), the idempotent boot helper
  (\<open>persist.ts\<close>) and the cross-table reference check (\<open>validator.ts\<close>). The catalog owns its
  tables: a method called on the table a lookup returned is \<open>db_on\<close>, which runs it and stores the
  table it leaves.
\<close>

record database =
  tables :: "(jstr, table) jsmap"

definition new_RelationalDatabase :: database where
  "new_RelationalDatabase = \<lparr>tables = []\<rparr>"

definition db_createTable :: "jstr \<Rightarrow> column_def list \<Rightarrow> (database, table) action" where
  "db_createTable name cols db =
     (if jm_has (tables db) name then (Inl (TableExistsError name), db)
      else case new_RelationalTable name cols of
        Inl e \<Rightarrow> (Inl e, db)
      | Inr t \<Rightarrow> (Inr t, db\<lparr>tables := AList.update name t (tables db)\<rparr>))"

definition db_dropTable :: "jstr \<Rightarrow> (database, unit) action" where
  "db_dropTable name db =
     (if \<not> jm_has (tables db) name then (Inl (TableNotFoundError name), db)
      else (Inr (), db\<lparr>tables := AList.delete name (tables db)\<rparr>))"

definition db_table :: "database \<Rightarrow> jstr \<Rightarrow> table res" where
  "db_table db name =
     (case map_of (tables db) name of None \<Rightarrow> Inl (TableNotFoundError name) | Some t \<Rightarrow> Inr t)"

definition db_listTables :: "database \<Rightarrow> jstr list" where
  "db_listTables db = jm_keys (tables db)"

definition db_on :: "jstr \<Rightarrow> (table, 'a) action \<Rightarrow> (database, 'a) action" where
  \<comment> \<open>\<open>db.table(name).m(...)\<close>\<close>
  "db_on name m db =
     (case db_table db name of Inl e \<Rightarrow> (Inl e, db)
      | Inr t \<Rightarrow> (case m t of (r, t') \<Rightarrow> (r, db\<lparr>tables := AList.update name t' (tables db)\<rparr>)))"

definition boot_table :: "jstr \<times> column_def list \<Rightarrow> (database, unit) action" where
  "boot_table d db =
     (if fst d \<in> set (db_listTables db) then (Inr (), db)
      else case db_createTable (fst d) (snd d) db of
        (Inl e, db') \<Rightarrow> (Inl e, db') | (Inr _, db') \<Rightarrow> (Inr (), db'))"

definition bootCatalog :: "(jstr \<times> column_def list) list \<Rightarrow> (database, unit) action" where
  "bootCatalog defs = run_each boot_table defs"

definition assertForeignKey :: "database \<Rightarrow> jstr \<Rightarrow> jsval \<Rightarrow> unit res" where
  "assertForeignKey db parentTable value =
     res_bind (db_table db parentTable) (\<lambda>parent.
     res_bind (tbl_findByPk parent value) (\<lambda>r.
       throw_if (r = None) (Error (lit ''FOREIGN KEY violation: '' @ quoted (js_String value)
         @ lit '' missing in '' @ quoted parentTable))))"

section \<open>The invariant\<close>

definition wf_db :: "database \<Rightarrow> bool" where
  "wf_db db \<longleftrightarrow> jm_ok (tables db)
     \<and> (\<forall>n t. map_of (tables db) n = Some t \<longrightarrow> wf_table t \<and> tableName (schema_of t) = n)"

lemma wf_new_db: "wf_db new_RelationalDatabase"
  by (simp add: wf_db_def new_RelationalDatabase_def)

lemma wf_db_store:
  "wf_db db \<Longrightarrow> wf_table t \<Longrightarrow> tableName (schema_of t) = n \<Longrightarrow> wf_db (db\<lparr>tables := AList.update n t (tables db)\<rparr>)"
  by (auto simp: wf_db_def)

lemma db_table_eq_Inr [simp]: "db_table db n = Inr t \<longleftrightarrow> map_of (tables db) n = Some t"
  by (simp add: db_table_def split: option.splits)

lemma db_createTable_cases:
  obtains e where "db_createTable n cols db = (Inl e, db)"
  | t where "map_of (tables db) n = None" "new_RelationalTable n cols = Inr t"
    "db_createTable n cols db = (Inr t, db\<lparr>tables := tables db @ [(n, t)]\<rparr>)"
proof (cases "map_of (tables db) n = None")
  case True
  then show ?thesis using that
    by (cases "new_RelationalTable n cols") (simp_all add: db_createTable_def jm_has_def update_fresh)
next
  case False
  then show ?thesis using that(1) by (simp add: db_createTable_def jm_has_def)
qed

lemma schema_table_name: "new_RelationalSchema n cols = Inr s \<Longrightarrow> tableName s = n"
  by (auto simp: new_RelationalSchema_def res_bind_eqs Let_def split: if_splits option.splits)

lemma wf_db_createTable: "wf_db db \<Longrightarrow> wf_db (snd (db_createTable n cols db))"
proof -
  assume wf: "wf_db db"
  show ?thesis
  proof (cases rule: db_createTable_cases [of n cols db])
    case (1 e)
    then show ?thesis using wf by simp
  next
    case (2 t)
    have "wf_table t" "tableName (schema_of t) = n"
      using wf_new_table [OF 2(2)] schema_table_name by auto
    then have "wf_db (db\<lparr>tables := AList.update n t (tables db)\<rparr>)" using wf wf_db_store by blast
    then show ?thesis using 2 by (simp add: update_fresh)
  qed
qed

lemma wf_db_dropTable: "wf_db db \<Longrightarrow> wf_db (snd (db_dropTable n db))"
  by (auto simp: db_dropTable_def wf_db_def set_delete split: if_splits)

lemma db_on_cases:
  obtains "map_of (tables db) n = None" "db_on n m db = (Inl (TableNotFoundError n), db)"
  | t r t' where "map_of (tables db) n = Some t" "m t = (r, t')"
    "db_on n m db = (r, db\<lparr>tables := AList.update n t' (tables db)\<rparr>)"
  by (cases "map_of (tables db) n"; cases "m (the (map_of (tables db) n))")
     (auto simp: db_on_def db_table_def)

lemma wf_db_on:
  assumes "wf_db db" "\<And>t. wf_table t \<Longrightarrow> wf_table (snd (m t)) \<and> schema_of (snd (m t)) = schema_of t"
  shows "wf_db (snd (db_on n m db))"
proof (cases rule: db_on_cases [of db n m])
  case (2 t r t')
  then have "wf_table t" "tableName (schema_of t) = n" using assms(1) by (auto simp: wf_db_def)
  then have "wf_table t'" "tableName (schema_of t') = n" using assms(2) [of t] 2(2) by auto
  then show ?thesis using 2(3) wf_db_store assms(1) by simp
qed (use assms in simp)

lemma wf_db_boot: "wf_db db \<Longrightarrow> wf_db (snd (bootCatalog defs db))"
  unfolding bootCatalog_def
proof (rule run_each_invariant)
  show "wf_db (snd (boot_table d db'))" if "wf_db db'" for d db'
    using that wf_db_createTable [of db' "fst d" "snd d"]
    by (auto simp: boot_table_def split: prod.splits sum.splits)
qed

section \<open>Booting\<close>

lemma boot_table_ok:
  assumes "boot_table d db = (Inr u, db')"
  shows "jm_has (tables db') (fst d)" "\<exists>new. tables db' = tables db @ new"
proof -
  have a: "jm_has (tables db') (fst d) \<and> (\<exists>new. tables db' = tables db @ new)"
  proof (cases "fst d \<in> set (db_listTables db)")
    case True
    then show ?thesis using assms by (auto simp: boot_table_def db_listTables_def jm_has_iff)
  next
    case False
    then show ?thesis using assms
      by (cases rule: db_createTable_cases [of "fst d" "snd d" db])
         (auto simp: boot_table_def jm_has_iff)
  qed
  then show "jm_has (tables db') (fst d)" "\<exists>new. tables db' = tables db @ new" by auto
qed

lemma boot_ok:
  assumes "bootCatalog defs db = (Inr u, db')"
  shows "(\<forall>d\<in>set defs. jm_has (tables db') (fst d)) \<and> (\<exists>new. tables db' = tables db @ new)"
  using assms unfolding bootCatalog_def
proof (induction defs arbitrary: db)
  case (Cons d defs)
  then obtain u1 db1 where d1: "boot_table d db = (Inr u1, db1)"
    and rest: "run_each boot_table defs db1 = (Inr u, db')"
    by (auto split: prod.splits sum.splits)
  have "jm_has (tables db1) (fst d)" "\<exists>new. tables db1 = tables db @ new"
    using boot_table_ok [OF d1] by auto
  then show ?case using Cons.IH [OF rest] by (auto simp: jm_has_iff)
qed simp

lemma boot_present:
  "\<forall>d\<in>set defs. jm_has (tables db) (fst d) \<Longrightarrow> bootCatalog defs db = (Inr (), db)"
  unfolding bootCatalog_def
  by (induction defs) (simp_all add: boot_table_def db_listTables_def jm_has_iff)

end
