(* ===== verification/Transaction.thy ===== *)
theory Transaction
  imports Database
begin

text \<open>
  Batched writes (\<open>client/relational/transaction.ts\<close>). A transaction is its buffer of operations; a
  commit runs against the pair of the buffer and the catalog, since an exception in the apply loop
  leaves both as they are at that point.
\<close>

datatype tx_op =
    TxInsert jstr row
  | TxUpdate jstr jsval row
  | TxDelete jstr jsval

fun op_table :: "tx_op \<Rightarrow> jstr" where
  "op_table (TxInsert t _) = t"
| "op_table (TxUpdate t _ _) = t"
| "op_table (TxDelete t _) = t"

type_synonym tx_buffer = "tx_op list"

definition tx_insert :: "jstr \<Rightarrow> row \<Rightarrow> tx_buffer \<Rightarrow> tx_buffer" where
  "tx_insert t r ops = ops @ [TxInsert t r]"

definition tx_update :: "jstr \<Rightarrow> jsval \<Rightarrow> row \<Rightarrow> tx_buffer \<Rightarrow> tx_buffer" where
  "tx_update t pk patch ops = ops @ [TxUpdate t pk patch]"

definition tx_delete :: "jstr \<Rightarrow> jsval \<Rightarrow> tx_buffer \<Rightarrow> tx_buffer" where
  "tx_delete t pk ops = ops @ [TxDelete t pk]"

definition tx_rollback :: "tx_buffer \<Rightarrow> tx_buffer" where
  "tx_rollback ops = []"

type_synonym seen_keys = "(jstr, jstr list) jsmap"

definition precheck_insert :: "jstr \<Rightarrow> row \<Rightarrow> table \<Rightarrow> seen_keys \<Rightarrow> seen_keys res" where
  "precheck_insert name row t seen =
     (let pk = js_String (row_get row (primaryKeyName (schema_of t)));
          (s, seen1) = (case map_of seen name of
                          None \<Rightarrow> ([], AList.update name [] seen) | Some s \<Rightarrow> (s, seen))
      in if pk \<in> set s then Inl (Error (lit ''duplicate primary key '' @ quoted pk @ lit '' in transaction''))
         else res_bind (tbl_findByPk t (Str pk)) (\<lambda>found.
           if found \<noteq> None then Inl (Error (lit ''duplicate primary key '' @ quoted pk @ lit '' in transaction''))
           else Inr (AList.update name (set_add s pk) seen1)))"

fun precheck :: "database \<Rightarrow> tx_op list \<Rightarrow> seen_keys \<Rightarrow> unit res" where
  \<comment> \<open>the first loop of \<open>commit\<close>\<close>
  "precheck db [] seen = Inr ()"
| "precheck db (op # ops) seen =
     res_bind (db_table db (op_table op)) (\<lambda>t.
       case op of
         TxInsert name row \<Rightarrow> res_bind (precheck_insert name row t seen) (precheck db ops)
       | _ \<Rightarrow> precheck db ops seen)"

definition ignore_result :: "('s, 'a) action \<Rightarrow> ('s, unit) action" where
  "ignore_result m s = (case m s of (Inl e, s') \<Rightarrow> (Inl e, s') | (Inr _, s') \<Rightarrow> (Inr (), s'))"

fun apply_op :: "tx_op \<Rightarrow> (database, unit) action" where
  "apply_op (TxInsert t r) = ignore_result (db_on t (tbl_insert r))"
| "apply_op (TxUpdate t pk p) = ignore_result (db_on t (tbl_update pk p))"
| "apply_op (TxDelete t pk) = ignore_result (db_on t (tbl_delete pk))"

definition tx_commit :: "(tx_buffer \<times> database, unit) action" where
  "tx_commit s =
     (let (ops, db) = s in
      case precheck db ops [] of
        Inl e \<Rightarrow> (Inl e, s)
      | Inr _ \<Rightarrow>
          (case run_each apply_op ops db of
             (Inl e, db') \<Rightarrow> (Inl e, (ops, db'))
           | (Inr _, db') \<Rightarrow> (Inr (), ([], db'))))"

section \<open>Invariant\<close>

lemma snd_ignore_result [simp]: "snd (ignore_result m s) = snd (m s)"
  by (auto simp: ignore_result_def split: prod.splits sum.splits)

lemma wf_apply_op: "wf_db db \<Longrightarrow> wf_db (snd (apply_op op db))"
proof -
  assume wf: "wf_db db"
  show ?thesis using wf
    by (cases op) (simp_all add: wf_db_on wf_table_insert wf_table_update wf_table_delete)
qed

lemma wf_tx_commit_db: "wf_db db \<Longrightarrow> wf_db (snd (snd (tx_commit (ops, db))))"
  using run_each_invariant [of ops wf_db apply_op db] wf_apply_op
  by (auto simp: tx_commit_def split: prod.splits sum.splits)

section \<open>Insert batches\<close>

text \<open>
  A row whose key is text, a number or a boolean renders the same way in the pre-check
  (\<open>String\<close>) and in the table (\<open>encodePk\<close>); for a byte key the two differ.
\<close>

definition scalar_key :: "jsval \<Rightarrow> bool" where
  "scalar_key v \<longleftrightarrow> (case v of Str _ \<Rightarrow> True | Num _ \<Rightarrow> True | Bool _ \<Rightarrow> True | _ \<Rightarrow> False)"

lemma scalar_key_encode: "scalar_key v \<Longrightarrow> encodePk v = Inr (js_String v)"
  by (cases v) (simp_all add: scalar_key_def)

definition loadable :: "database \<Rightarrow> tx_op \<Rightarrow> bool" where
  \<comment> \<open>an insert of a valid row with a scalar key\<close>
  "loadable db op \<longleftrightarrow> (\<exists>n r t. op = TxInsert n r \<and> map_of (tables db) n = Some t
     \<and> is_ok (validateRow (schema_of t) r) \<and> scalar_key (row_get r (primaryKeyName (schema_of t))))"

definition seen_in :: "seen_keys \<Rightarrow> jstr \<Rightarrow> jstr list" where
  "seen_in seen n = (case map_of seen n of None \<Rightarrow> [] | Some s \<Rightarrow> s)"

definition same_catalog :: "database \<Rightarrow> database \<Rightarrow> seen_keys \<Rightarrow> bool" where
  \<comment> \<open>\<open>db'\<close> is \<open>db\<close> with at most the seen keys added\<close>
  "same_catalog db db' seen \<longleftrightarrow> (\<forall>n t. map_of (tables db) n = Some t \<longrightarrow>
     (\<exists>t'. map_of (tables db') n = Some t' \<and> schema_of t' = schema_of t \<and>
       (\<forall>k. map_of (rows t) k = None \<longrightarrow> k \<notin> set (seen_in seen n) \<longrightarrow> map_of (rows t') k = None)))"

lemma precheck_insert_Inr:
  assumes "precheck_insert n r t seen = Inr seen'"
  shows "js_String (row_get r (primaryKeyName (schema_of t))) \<notin> set (seen_in seen n)"
    and "map_of (rows t) (js_String (row_get r (primaryKeyName (schema_of t)))) = None"
    and "set (seen_in seen' n)
       = insert (js_String (row_get r (primaryKeyName (schema_of t)))) (set (seen_in seen n))"
    and "\<And>m. m \<noteq> n \<Longrightarrow> seen_in seen' m = seen_in seen m"
  using assms
  by (auto simp: precheck_insert_def seen_in_def Let_def tbl_findByPk_def set_add_def
      split: option.splits prod.splits if_splits)

lemma tbl_insert_fresh:
  assumes "is_ok (validateRow (schema_of t) r)" "encodePk (row_get r (primaryKeyName (schema_of t))) = Inr k"
    "map_of (rows t) k = None"
  shows "tbl_insert r t = (Inr r, indexRow k r (t\<lparr>rows := rows t @ [(k, r)]\<rparr>))"
  using assms by (auto simp: tbl_insert_def jm_has_def update_fresh is_ok_def)

text \<open>Past the pre-check, the apply loop of such a batch cannot fail.\<close>

lemma loadable_batch:
  assumes "precheck db ops seen = Inr u" "\<forall>op\<in>set ops. loadable db op" "same_catalog db db' seen"
  shows "\<exists>db''. run_each apply_op ops db' = (Inr (), db'')"
  using assms
proof (induction ops arbitrary: seen db')
  case (Cons op ops)
  obtain n r t where op: "op = TxInsert n r" and t: "map_of (tables db) n = Some t"
    and ok: "is_ok (validateRow (schema_of t) r)" "scalar_key (row_get r (primaryKeyName (schema_of t)))"
    using Cons.prems(2) by (auto simp: loadable_def)
  let ?pk = "js_String (row_get r (primaryKeyName (schema_of t)))"
  obtain seen' where pi: "precheck_insert n r t seen = Inr seen'" and rest: "precheck db ops seen' = Inr u"
    using Cons.prems(1) t by (auto simp: op res_bind_eqs db_table_def)
  obtain t' where t': "map_of (tables db') n = Some t'" "schema_of t' = schema_of t"
    and keys: "\<And>k. map_of (rows t) k = None \<Longrightarrow> k \<notin> set (seen_in seen n) \<Longrightarrow> map_of (rows t') k = None"
    using Cons.prems(3) t unfolding same_catalog_def by blast
  have fresh: "map_of (rows t') ?pk = None"
    using keys precheck_insert_Inr(1,2) [OF pi] by blast
  let ?t'' = "indexRow ?pk r (t'\<lparr>rows := rows t' @ [(?pk, r)]\<rparr>)"
  have ins: "tbl_insert r t' = (Inr r, ?t'')"
    by (rule tbl_insert_fresh) (simp_all add: t'(2) ok scalar_key_encode fresh)
  let ?db'' = "db'\<lparr>tables := AList.update n ?t'' (tables db')\<rparr>"
  have step: "apply_op op db' = (Inr (), ?db'')"
    by (simp add: op ignore_result_def db_on_def db_table_def t'(1) ins)
  have rows': "map_of (rows t' @ [(?pk, r)]) = (map_of (rows t'))(?pk \<mapsto> r)"
    using map_of_update [of ?pk r "rows t'"] update_fresh [OF fresh] by simp
  have "same_catalog db ?db'' seen'"
    unfolding same_catalog_def
  proof (intro allI impI)
    fix m tm
    assume tm: "map_of (tables db) m = Some tm"
    show "\<exists>t'. map_of (tables ?db'') m = Some t' \<and> schema_of t' = schema_of tm \<and>
       (\<forall>k. map_of (rows tm) k = None \<longrightarrow> k \<notin> set (seen_in seen' m) \<longrightarrow> map_of (rows t') k = None)"
    proof (cases "m = n")
      case True
      then show ?thesis using tm t t'(2) keys rows' precheck_insert_Inr(3) [OF pi] by simp
    next
      case False
      then show ?thesis using Cons.prems(3) tm precheck_insert_Inr(4) [OF pi False]
        unfolding same_catalog_def by simp
    qed
  qed
  then have "\<exists>db''. run_each apply_op ops ?db'' = (Inr (), db'')"
    using Cons.IH [OF rest] Cons.prems(2) by simp
  then show ?case by (simp add: step)
qed simp

lemma same_catalog_refl: "same_catalog db db seen"
  by (simp add: same_catalog_def)

end
