(* ===== verification/Query.thy ===== *)
theory Query
  imports Table "HOL-Library.Multiset"
begin

text \<open>
  Reading a table: the chainable query (\<open>client/relational/query.ts\<close>), the single-pass aggregation
  (\<open>aggregation.ts\<close>), the hash join (\<open>join.ts\<close>), the scan lookup (\<open>secondary_index.ts\<close>) and the
  uniqueness check (\<open>constraints.ts\<close>).
\<close>

section \<open>Sorting and slicing\<close>

text \<open>
  \<open>Array.prototype.sort\<close> with a comparator is a stable sort. The language fixes the result when the
  comparator is consistent and leaves it to the engine otherwise; the model is a stable insertion
  sort, which is the required result in the first case (\<open>js_sort_unique\<close>).
\<close>

type_synonym 'a comparator = "'a \<Rightarrow> 'a \<Rightarrow> int"

fun sort_insert :: "'a comparator \<Rightarrow> 'a \<Rightarrow> 'a list \<Rightarrow> 'a list" where
  "sort_insert cmp x [] = [x]"
| "sort_insert cmp x (y # ys) = (if cmp x y \<le> 0 then x # y # ys else y # sort_insert cmp x ys)"

definition js_sort :: "'a comparator \<Rightarrow> 'a list \<Rightarrow> 'a list" where
  "js_sort cmp xs = foldr (sort_insert cmp) xs []"

definition consistent_on :: "'a set \<Rightarrow> 'a comparator \<Rightarrow> bool" where
  \<comment> \<open>a total preorder, with the comparator's sign antisymmetric\<close>
  "consistent_on A cmp \<longleftrightarrow> (\<forall>a\<in>A. \<forall>b\<in>A. (cmp a b < 0 \<longleftrightarrow> 0 < cmp b a) \<and> (cmp a b = 0 \<longleftrightarrow> cmp b a = 0))
     \<and> (\<forall>a\<in>A. \<forall>b\<in>A. \<forall>c\<in>A. cmp a b \<le> 0 \<longrightarrow> cmp b c \<le> 0 \<longrightarrow> cmp a c \<le> 0)"

lemma mset_sort_insert [simp]: "mset (sort_insert cmp x ys) = add_mset x (mset ys)"
  by (induction ys) auto

lemma set_sort_insert [simp]: "set (sort_insert cmp x ys) = insert x (set ys)"
  by (induction ys) auto

lemma mset_js_sort [simp]: "mset (js_sort cmp xs) = mset xs"
  by (induction xs) (simp_all add: js_sort_def)

lemma set_js_sort [simp]: "set (js_sort cmp xs) = set xs"
  using mset_js_sort by (metis set_mset_mset)

lemma length_js_sort [simp]: "length (js_sort cmp xs) = length xs"
  using mset_js_sort by (metis size_mset)

lemma js_sort_Cons: "js_sort cmp (x # xs) = sort_insert cmp x (js_sort cmp xs)"
  by (simp add: js_sort_def)

lemma consistent_onD:
  assumes "consistent_on A cmp" "a \<in> A" "b \<in> A"
  shows "cmp a b < 0 \<longleftrightarrow> 0 < cmp b a" "cmp a b = 0 \<longleftrightarrow> cmp b a = 0" "\<not> cmp a b \<le> 0 \<Longrightarrow> cmp b a \<le> 0"
    and "c \<in> A \<Longrightarrow> cmp a b \<le> 0 \<Longrightarrow> cmp b c \<le> 0 \<Longrightarrow> cmp a c \<le> 0"
proof -
  show *: "cmp a b < 0 \<longleftrightarrow> 0 < cmp b a" "cmp a b = 0 \<longleftrightarrow> cmp b a = 0"
    using assms unfolding consistent_on_def by blast+
  have "cmp b a < 0 \<longleftrightarrow> 0 < cmp a b" using assms unfolding consistent_on_def by blast
  then show "\<not> cmp a b \<le> 0 \<Longrightarrow> cmp b a \<le> 0" by linarith
  show "c \<in> A \<Longrightarrow> cmp a b \<le> 0 \<Longrightarrow> cmp b c \<le> 0 \<Longrightarrow> cmp a c \<le> 0"
    using assms unfolding consistent_on_def by blast
qed

lemma consistent_on_refl: "consistent_on A cmp \<Longrightarrow> a \<in> A \<Longrightarrow> cmp a a = 0"
  using consistent_onD(1) [of A cmp a a] by linarith

lemma sorted_sort_insert:
  assumes "consistent_on A cmp" "insert x (set ys) \<subseteq> A" "sorted_wrt (\<lambda>a b. cmp a b \<le> 0) ys"
  shows "sorted_wrt (\<lambda>a b. cmp a b \<le> 0) (sort_insert cmp x ys)"
  using assms(2,3)
proof (induction ys)
  case (Cons y ys)
  have A: "x \<in> A" "y \<in> A" "set ys \<subseteq> A" using Cons.prems(1) by auto
  have srt: "\<forall>z\<in>set ys. cmp y z \<le> 0" "sorted_wrt (\<lambda>a b. cmp a b \<le> 0) ys" using Cons.prems(2) by simp_all
  show ?case
  proof (cases "cmp x y \<le> 0")
    case True
    have "cmp x z \<le> 0" if "z \<in> set ys" for z
      by (rule consistent_onD(4) [OF assms(1) A(1,2) _ True]) (use that A(3) srt(1) in auto)
    then show ?thesis using True srt by simp
  next
    case False
    have "cmp y x \<le> 0" by (rule consistent_onD(3) [OF assms(1) A(1,2) False])
    moreover have "sorted_wrt (\<lambda>a b. cmp a b \<le> 0) (sort_insert cmp x ys)"
      by (rule Cons.IH) (use A srt in simp_all)
    ultimately show ?thesis using False srt(1) by simp
  qed
qed simp

lemma sorted_js_sort:
  assumes "consistent_on A cmp" "set xs \<subseteq> A"
  shows "sorted_wrt (\<lambda>a b. cmp a b \<le> 0) (js_sort cmp xs)"
  using assms(2)
proof (induction xs)
  case (Cons x xs)
  then show ?case using sorted_sort_insert [OF assms(1), of x "js_sort cmp xs"]
    by (simp add: js_sort_Cons)
qed (simp add: js_sort_def)

lemma filter_sort_insert:
  assumes "consistent_on A cmp" "insert z (insert x (set ys)) \<subseteq> A"
    and "sorted_wrt (\<lambda>a b. cmp a b \<le> 0) ys"
  shows "filter (\<lambda>a. cmp z a = 0) (sort_insert cmp x ys)
     = (if cmp z x = 0 then x # filter (\<lambda>a. cmp z a = 0) ys else filter (\<lambda>a. cmp z a = 0) ys)"
  using assms(2,3)
proof (induction ys)
  case (Cons y ys)
  have eq: "cmp a b \<le> 0" if "cmp z a = 0" "cmp z b = 0" "a \<in> A" "b \<in> A" "z \<in> A" for a b
    using assms(1) that unfolding consistent_on_def by (metis order_refl)
  show ?case using Cons eq [of x y] by auto
qed simp

lemma stable_js_sort:
  assumes "consistent_on A cmp" "insert z (set xs) \<subseteq> A"
  shows "filter (\<lambda>a. cmp z a = 0) (js_sort cmp xs) = filter (\<lambda>a. cmp z a = 0) xs"
  using assms(2)
proof (induction xs)
  case (Cons x xs)
  have "sorted_wrt (\<lambda>a b. cmp a b \<le> 0) (js_sort cmp xs)"
    using sorted_js_sort [OF assms(1)] Cons.prems by simp
  then show ?case using Cons filter_sort_insert [OF assms(1), of z x "js_sort cmp xs"]
    by (simp add: js_sort_Cons)
qed (simp add: js_sort_def)

text \<open>The sorted stable permutation is unique, so every conforming engine returns this one.\<close>

lemma sorted_stable_unique:
  assumes "consistent_on A cmp" "set xs \<subseteq> A" "mset ys = mset xs"
    and "sorted_wrt (\<lambda>a b. cmp a b \<le> 0) xs" "sorted_wrt (\<lambda>a b. cmp a b \<le> 0) ys"
    and "\<And>z. z \<in> A \<Longrightarrow> filter (\<lambda>a. cmp z a = 0) ys = filter (\<lambda>a. cmp z a = 0) xs"
  shows "ys = xs"
  using assms(2-)
proof (induction xs arbitrary: ys)
  case Nil
  then show ?case by simp
next
  case (Cons x xs)
  then obtain y ys' where ys: "ys = y # ys'" by (cases ys) auto
  have sets: "set ys = set (x # xs)" using Cons.prems(2) by (metis set_mset_mset)
  have xA: "x \<in> A" "y \<in> A" using Cons.prems(1) sets ys by auto
  have refl: "cmp x x = 0" "cmp y y = 0" using consistent_on_refl [OF assms(1)] xA by simp_all
  have le: "y = x \<or> cmp x y \<le> 0" "y = x \<or> cmp y x \<le> 0"
    using Cons.prems(3,4) sets ys by auto
  have eq: "cmp x y = 0"
    using le refl consistent_onD(1,2) [OF assms(1) xA(2,1)] by (cases "y = x") auto
  have hd_eq: "y = x" using Cons.prems(5) [OF xA(1)] eq refl by (simp add: ys)
  have "ys' = xs"
  proof (rule Cons.IH)
    show "set xs \<subseteq> A" "mset ys' = mset xs" using Cons.prems(1,2) by (simp_all add: ys hd_eq)
    show "sorted_wrt (\<lambda>a b. cmp a b \<le> 0) xs" "sorted_wrt (\<lambda>a b. cmp a b \<le> 0) ys'"
      using Cons.prems(3,4) by (simp_all add: ys)
    show "filter (\<lambda>a. cmp z a = 0) ys' = filter (\<lambda>a. cmp z a = 0) xs" if "z \<in> A" for z
      using Cons.prems(5) [OF that] by (simp add: ys hd_eq split: if_splits)
  qed
  then show ?case by (simp add: ys hd_eq)
qed

lemma js_sort_unique:
  assumes "consistent_on A cmp" "set xs \<subseteq> A" "mset ys = mset xs"
    and "sorted_wrt (\<lambda>a b. cmp a b \<le> 0) ys"
    and "\<And>z. z \<in> A \<Longrightarrow> filter (\<lambda>a. cmp z a = 0) ys = filter (\<lambda>a. cmp z a = 0) xs"
  shows "ys = js_sort cmp xs"
proof (rule sorted_stable_unique [OF assms(1)])
  show "set (js_sort cmp xs) \<subseteq> A" "mset ys = mset (js_sort cmp xs)" using assms(2,3) by simp_all
  show "sorted_wrt (\<lambda>a b. cmp a b \<le> 0) (js_sort cmp xs)" by (rule sorted_js_sort [OF assms(1,2)])
  show "sorted_wrt (\<lambda>a b. cmp a b \<le> 0) ys" by (rule assms(4))
  show "filter (\<lambda>a. cmp z a = 0) ys = filter (\<lambda>a. cmp z a = 0) (js_sort cmp xs)" if "z \<in> A" for z
    using assms(5) [OF that] stable_js_sort [OF assms(1)] that assms(2) by simp
qed

text \<open>\<open>xs.slice(n)\<close> and \<open>xs.slice(0, n)\<close>: \<open>n\<close> is truncated, a negative one counts from the end.\<close>

fun slice_pos :: "nat \<Rightarrow> jsnum \<Rightarrow> nat" where
  "slice_pos len PosInf = len"
| "slice_pos len (Fin r) =
     (let i = (if 0 \<le> r then \<lfloor>r\<rfloor> else \<lceil>r\<rceil>) in
      if i < 0 then nat (int len + i) else min (nat i) len)"
| "slice_pos len _ = 0"

definition slice_from :: "'a list \<Rightarrow> jsnum \<Rightarrow> 'a list" where
  "slice_from xs n = drop (slice_pos (length xs) n) xs"

definition slice_to :: "'a list \<Rightarrow> jsnum \<Rightarrow> 'a list" where
  "slice_to xs n = take (slice_pos (length xs) n) xs"

lemma slice_nat:
  "slice_from xs (int_num (int n)) = drop n xs" "slice_to xs (int_num (int n)) = take n xs"
  by (simp_all add: slice_from_def slice_to_def min_def)

section \<open>The query builder\<close>

datatype order_dir = Asc | Desc

record query =
  whereClause :: "where_clause option"
  selectCols :: "jstr list option"
  orderCol :: "jstr option"
  orderDir :: order_dir
  limitN :: "jsnum option"
  offsetN :: jsnum

definition new_QueryBuilder :: query where
  "new_QueryBuilder = \<lparr>whereClause = None, selectCols = None, orderCol = None, orderDir = Asc,
     limitN = None, offsetN = Fin 0\<rparr>"

definition q_where :: "where_clause \<Rightarrow> query \<Rightarrow> query" where
  "q_where w q = q\<lparr>whereClause := Some w\<rparr>"

definition q_select :: "jstr list \<Rightarrow> query \<Rightarrow> query" where
  "q_select cols q = q\<lparr>selectCols := Some cols\<rparr>"

definition q_orderBy :: "jstr \<Rightarrow> order_dir \<Rightarrow> query \<Rightarrow> query" where
  "q_orderBy col dir q = q\<lparr>orderCol := Some col, orderDir := dir\<rparr>"

definition q_limit :: "jsnum \<Rightarrow> query \<Rightarrow> query" where
  "q_limit n q = q\<lparr>limitN := Some n\<rparr>"

definition q_offset :: "jsnum \<Rightarrow> query \<Rightarrow> query" where
  "q_offset n q = q\<lparr>offsetN := n\<rparr>"

definition order_cmp :: "jstr \<Rightarrow> order_dir \<Rightarrow> row comparator" where
  "order_cmp col dir a b =
     (let av = row_get a col; bv = row_get b col in
      if js_lt av bv then (if dir = Asc then - 1 else 1)
      else if js_lt bv av then (if dir = Asc then 1 else - 1) else 0)"

definition project :: "jstr list \<Rightarrow> row \<Rightarrow> row" where
  "project cols r = foldl (\<lambda>o' c. o'(c \<mapsto> row_get r c)) Map.empty cols"

definition q_sorted :: "query \<Rightarrow> row list \<Rightarrow> row list" where
  \<comment> \<open>\<open>if (this.orderCol)\<close>: an empty name is falsy\<close>
  "q_sorted q rs =
     (case orderCol q of None \<Rightarrow> rs
      | Some col \<Rightarrow> if col = [] then rs else js_sort (order_cmp col (orderDir q)) rs)"

definition q_all :: "query \<Rightarrow> table \<Rightarrow> row list" where
  "q_all q t =
     (let rs0 = tbl_scan t (whereClause q);
          rs1 = q_sorted q rs0;
          rs2 = (if truthy (Num (offsetN q)) then slice_from rs1 (offsetN q) else rs1);
          rs3 = (case limitN q of None \<Rightarrow> rs2 | Some n \<Rightarrow> slice_to rs2 n)
      in case selectCols q of None \<Rightarrow> rs3 | Some cols \<Rightarrow> map (project cols) rs3)"

definition q_count :: "query \<Rightarrow> table \<Rightarrow> nat" where
  "q_count q t = length (tbl_scan t (whereClause q))"

definition q_matches :: "query \<Rightarrow> row \<Rightarrow> bool" where
  "q_matches q r = matchesWhere r (whereClause q)"

definition sortable :: "jstr \<Rightarrow> row set \<Rightarrow> bool" where
  \<comment> \<open>the cells of the column are all numbers other than \<open>NaN\<close>, or all strings\<close>
  "sortable col A \<longleftrightarrow> (\<forall>r\<in>A. \<exists>n. row_get r col = Num n \<and> n \<noteq> NaN) \<or> (\<forall>r\<in>A. \<exists>s. row_get r col = Str s)"

lemma order_cmp_sign:
  "order_cmp col Asc a b \<le> 0 \<longleftrightarrow> \<not> js_lt (row_get b col) (row_get a col)"
  "order_cmp col Desc a b \<le> 0 \<longleftrightarrow> \<not> js_lt (row_get a col) (row_get b col)"
  using js_lt_not_both by (auto simp: order_cmp_def Let_def)

lemma sortable_consistent: "sortable col A \<Longrightarrow> consistent_on A (order_cmp col dir)"
proof -
  assume s: "sortable col A"
  have tr: "\<not> js_lt (row_get b col) (row_get a col) \<Longrightarrow> \<not> js_lt (row_get c col) (row_get b col)
      \<Longrightarrow> \<not> js_lt (row_get c col) (row_get a col)" if abc: "a \<in> A" "b \<in> A" "c \<in> A" for a b c
  proof -
    assume n: "\<not> js_lt (row_get b col) (row_get a col)" "\<not> js_lt (row_get c col) (row_get b col)"
    from s show ?thesis unfolding sortable_def
    proof
      assume "\<forall>r\<in>A. \<exists>n. row_get r col = Num n \<and> n \<noteq> NaN"
      then obtain x y z where "row_get a col = Num x" "row_get b col = Num y" "row_get c col = Num z"
        "x \<noteq> NaN" "y \<noteq> NaN" "z \<noteq> NaN" using abc by metis
      then show ?thesis using n num_le_trans [of x y z] by (simp add: num_le_def)
    next
      assume "\<forall>r\<in>A. \<exists>s. row_get r col = Str s"
      then obtain x y z where "row_get a col = Str x" "row_get b col = Str y" "row_get c col = Str z"
        using abc by metis
      then show ?thesis using n by auto
    qed
  qed
  have anti: "(order_cmp col dir a b < 0 \<longleftrightarrow> 0 < order_cmp col dir b a)
      \<and> (order_cmp col dir a b = 0 \<longleftrightarrow> order_cmp col dir b a = 0)" for a b
    using js_lt_not_both by (auto simp: order_cmp_def Let_def)
  have "order_cmp col dir a c \<le> 0"
    if "a \<in> A" "b \<in> A" "c \<in> A" "order_cmp col dir a b \<le> 0" "order_cmp col dir b c \<le> 0" for a b c
    using that tr [of a b c] tr [of c b a] by (cases dir) (simp_all add: order_cmp_sign)
  then show ?thesis unfolding consistent_on_def using anti by blast
qed

end
