(* ===== verification/Aggregate.thy ===== *)
theory Aggregate
  imports Query
begin

text \<open>
  The readers built on a table scan: the single-pass aggregation
  (\<open>client/relational/aggregation.ts\<close>) and the builder's \<open>agg\<close> over it, the hash join
  (\<open>join.ts\<close>), the scan lookup (\<open>secondary_index.ts\<close>) and the uniqueness check
  (\<open>constraints.ts\<close>).
\<close>

section \<open>Aggregation\<close>

datatype agg_fn = AggCount | AggSum | AggAvg | AggMin | AggMax

fun agg_name :: "agg_fn \<Rightarrow> jstr" where
  "agg_name AggCount = lit ''count''"
| "agg_name AggSum = lit ''sum''"
| "agg_name AggAvg = lit ''avg''"
| "agg_name AggMin = lit ''min''"
| "agg_name AggMax = lit ''max''"

record agg_state =
  a_sum :: jsnum
  a_count :: nat
  a_min :: jsnum
  a_max :: jsnum
  a_seen :: bool

definition agg_start :: agg_state where
  "agg_start = \<lparr>a_sum = Fin 0, a_count = 0, a_min = Fin 0, a_max = Fin 0, a_seen = False\<rparr>"

definition agg_number :: "jsnum \<Rightarrow> agg_state \<Rightarrow> agg_state" where
  "agg_number v s =
     (let s1 = (if \<not> a_seen s then s\<lparr>a_min := v, a_max := v, a_seen := True\<rparr>
                else s\<lparr>a_min := (if num_lt v (a_min s) then v else a_min s),
                       a_max := (if num_lt (a_max s) v then v else a_max s)\<rparr>)
      in s1\<lparr>a_sum := num_add (a_sum s1) v, a_count := a_count s1 + 1\<rparr>)"

fun agg_loop :: "jstr \<Rightarrow> row list \<Rightarrow> agg_state \<Rightarrow> agg_state" where
  "agg_loop column [] s = s"
| "agg_loop column (row # rs) s =
     (case row_get row column of
        Num v \<Rightarrow> agg_loop column rs (agg_number v s)
      | _ \<Rightarrow> agg_loop column rs s)"

definition aggregate :: "row list \<Rightarrow> agg_fn \<Rightarrow> jstr option \<Rightarrow> jsnum res" where
  "aggregate rs f column =
     (if f = AggCount then Inr (int_num (int (length rs)))
      else case column of
        None \<Rightarrow> Inl (Error (agg_name f @ lit '' requires a column''))
      | Some col \<Rightarrow>
          if col = [] then Inl (Error (agg_name f @ lit '' requires a column''))
          else let s = agg_loop col rs agg_start in
            if a_count s = 0 then Inr (Fin 0)
            else case f of
              AggSum \<Rightarrow> Inr (a_sum s)
            | AggAvg \<Rightarrow> Inr (num_div (a_sum s) (int_num (int (a_count s))))
            | AggMin \<Rightarrow> Inr (a_min s)
            | AggMax \<Rightarrow> Inr (a_max s)
            | AggCount \<Rightarrow> Inr (Fin 0))"

definition q_agg :: "agg_fn \<Rightarrow> jstr option \<Rightarrow> query \<Rightarrow> table \<Rightarrow> jsnum res" where
  "q_agg f column q t = aggregate (tbl_scan t (whereClause q)) f column"

subsection \<open>What it computes\<close>

fun numbers_in :: "jstr \<Rightarrow> row list \<Rightarrow> jsnum list" where
  \<comment> \<open>the numeric cells of a column, in row order\<close>
  "numbers_in col [] = []"
| "numbers_in col (r # rs) =
     (case row_get r col of Num v \<Rightarrow> v # numbers_in col rs | _ \<Rightarrow> numbers_in col rs)"

lemma agg_loop_numbers: "agg_loop col rs s = foldl (\<lambda>s v. agg_number v s) s (numbers_in col rs)"
  by (induction rs arbitrary: s) (auto split: jsval.splits)

lemma agg_fold_count:
  "a_count (foldl (\<lambda>s v. agg_number v s) s ns) = a_count s + length ns"
  by (induction ns arbitrary: s) (auto simp: agg_number_def Let_def)

lemma agg_fold_sum:
  "a_sum (foldl (\<lambda>s v. agg_number v s) s ns) = foldl num_add (a_sum s) ns"
  by (induction ns arbitrary: s) (auto simp: agg_number_def Let_def)

definition min_step :: "jsnum \<Rightarrow> jsnum \<Rightarrow> jsnum" where
  "min_step m v = (if num_lt v m then v else m)"

definition max_step :: "jsnum \<Rightarrow> jsnum \<Rightarrow> jsnum" where
  "max_step m v = (if num_lt m v then v else m)"

lemma agg_fold_extrema:
  "a_seen s \<Longrightarrow> a_min (foldl (\<lambda>s v. agg_number v s) s ns) = foldl min_step (a_min s) ns"
  "a_seen s \<Longrightarrow> a_max (foldl (\<lambda>s v. agg_number v s) s ns) = foldl max_step (a_max s) ns"
  by (induction ns arbitrary: s) (auto simp: agg_number_def Let_def min_step_def max_step_def)

lemma agg_state_of:
  assumes "numbers_in col rs = n # ns"
  shows "a_count (agg_loop col rs agg_start) = Suc (length ns)"
    and "a_sum (agg_loop col rs agg_start) = foldl num_add (num_add (Fin 0) n) ns"
    and "a_min (agg_loop col rs agg_start) = foldl min_step n ns"
    and "a_max (agg_loop col rs agg_start) = foldl max_step n ns"
proof -
  have s: "agg_loop col rs agg_start = foldl (\<lambda>s v. agg_number v s) (agg_number n agg_start) ns"
    by (simp add: agg_loop_numbers assms)
  have st: "a_seen (agg_number n agg_start)" "a_min (agg_number n agg_start) = n"
    "a_max (agg_number n agg_start) = n" "a_count (agg_number n agg_start) = 1"
    "a_sum (agg_number n agg_start) = num_add (Fin 0) n"
    by (simp_all add: agg_number_def agg_start_def Let_def)
  show "a_count (agg_loop col rs agg_start) = Suc (length ns)"
    "a_sum (agg_loop col rs agg_start) = foldl num_add (num_add (Fin 0) n) ns"
    "a_min (agg_loop col rs agg_start) = foldl min_step n ns"
    "a_max (agg_loop col rs agg_start) = foldl max_step n ns"
    unfolding s by (simp_all add: agg_fold_count agg_fold_sum agg_fold_extrema st)
qed

lemma agg_none: "numbers_in col rs = [] \<Longrightarrow> a_count (agg_loop col rs agg_start) = 0"
  by (simp add: agg_loop_numbers agg_start_def)

lemma fold_min_step:
  assumes "NaN \<notin> set (n # ns)"
  shows "foldl min_step n ns \<in> set (n # ns) \<and> (\<forall>v\<in>set (n # ns). num_le (foldl min_step n ns) v)"
  using assms
proof (induction ns arbitrary: n)
  case (Cons m ns)
  have st: "min_step n m = n \<or> min_step n m = m" "num_le (min_step n m) n" "num_le (min_step n m) m"
    using Cons.prems num_lt_imp_le by (auto simp: min_step_def num_le_def dest: num_lt_asym)
  have "NaN \<notin> set (min_step n m # ns)" using st(1) Cons.prems by auto
  note ih = Cons.IH [OF this]
  have "foldl min_step (min_step n m) ns \<in> set (n # m # ns)" using ih st(1) by auto
  moreover have "\<forall>v\<in>set (n # m # ns). num_le (foldl min_step (min_step n m) ns) v"
    using ih num_le_trans [OF _ st(2)] num_le_trans [OF _ st(3)] by simp
  ultimately show ?case by simp
qed simp

lemma fold_max_step:
  assumes "NaN \<notin> set (n # ns)"
  shows "foldl max_step n ns \<in> set (n # ns) \<and> (\<forall>v\<in>set (n # ns). num_le v (foldl max_step n ns))"
  using assms
proof (induction ns arbitrary: n)
  case (Cons m ns)
  have st: "max_step n m = n \<or> max_step n m = m" "num_le n (max_step n m)" "num_le m (max_step n m)"
    using Cons.prems num_lt_imp_le by (auto simp: max_step_def num_le_def dest: num_lt_asym)
  have "NaN \<notin> set (max_step n m # ns)" using st(1) Cons.prems by auto
  note ih = Cons.IH [OF this]
  have "foldl max_step (max_step n m) ns \<in> set (n # m # ns)" using ih st(1) by auto
  moreover have "\<forall>v\<in>set (n # m # ns). num_le v (foldl max_step (max_step n m) ns)"
    using ih num_le_trans [OF st(2)] num_le_trans [OF st(3)] by simp
  ultimately show ?case by simp
qed simp

text \<open>While every partial sum stays within \<open>2 ^ 53\<close>, the sum of integers is exact.\<close>

lemma fold_num_add_int:
  assumes "\<bar>a\<bar> \<le> 2 ^ 53" "\<And>k. k \<le> length is \<Longrightarrow> \<bar>a + sum_list (take k is)\<bar> \<le> 2 ^ 53"
  shows "foldl num_add (int_num a) (map int_num is) = int_num (a + sum_list is)"
  using assms
proof (induction "is" arbitrary: a)
  case (Cons i "is")
  have b: "\<bar>a + i\<bar> \<le> 2 ^ 53" using Cons.prems(2) [of 1] by simp
  have "foldl num_add (int_num (a + i)) (map int_num is) = int_num (a + i + sum_list is)"
  proof (rule Cons.IH [OF b])
    show "\<bar>a + i + sum_list (take k is)\<bar> \<le> 2 ^ 53" if "k \<le> length is" for k
      using Cons.prems(2) [of "Suc k"] that by (simp add: add.assoc)
  qed
  then show ?case using num_add_int [OF b] by (simp add: add.assoc)
qed simp

section \<open>Hash join\<close>

record join_row =
  left :: row
  right :: row

definition build_row :: "jstr \<Rightarrow> (jstr, row list) jsmap \<Rightarrow> row \<Rightarrow> (jstr, row list) jsmap" where
  \<comment> \<open>the first loop's body\<close>
  "build_row leftKey build r =
     (let k = js_String (row_get r leftKey);
          arr = (case map_of build k of None \<Rightarrow> [] | Some a \<Rightarrow> a)
      in AList.update k (arr @ [r]) build)"

definition probe_row :: "jstr \<Rightarrow> (jstr, row list) jsmap \<Rightarrow> row \<Rightarrow> join_row list" where
  \<comment> \<open>the pairs the second loop's body pushes\<close>
  "probe_row rightKey build rr =
     (case map_of build (js_String (row_get rr rightKey)) of
        None \<Rightarrow> []
      | Some matches \<Rightarrow> map (\<lambda>ll. \<lparr>left = ll, right = rr\<rparr>) matches)"

definition hashJoin :: "table \<Rightarrow> table \<Rightarrow> jstr \<Rightarrow> jstr \<Rightarrow> join_row list" where
  "hashJoin l r leftKey rightKey =
     (let build = foldl (build_row leftKey) [] (tbl_scan l None)
      in foldl (\<lambda>out rr. out @ probe_row rightKey build rr) [] (tbl_scan r None))"

lemma build_rows:
  "map_of (foldl (build_row key) m ls) k =
     (case (map_of m k, filter (\<lambda>l. js_String (row_get l key) = k) ls) of
        (None, []) \<Rightarrow> None | (None, g) \<Rightarrow> Some g | (Some a, g) \<Rightarrow> Some (a @ g))"
  by (induction ls arbitrary: m) (auto simp: build_row_def Let_def split: option.splits list.splits)

lemma foldl_append_concat: "foldl (\<lambda>out x. out @ f x) acc xs = acc @ concat (map f xs)"
  by (induction xs arbitrary: acc) simp_all

lemma tbl_scan_None: "tbl_scan t None = jm_values (rows t)"
  by (simp add: tbl_scan_def)

lemma hashJoin_eq:
  "hashJoin l r lk rk =
     concat (map (\<lambda>rr. map (\<lambda>ll. \<lparr>left = ll, right = rr\<rparr>)
       (filter (\<lambda>ll. js_String (row_get ll lk) = js_String (row_get rr rk)) (jm_values (rows l))))
       (jm_values (rows r)))"
proof -
  have "probe_row rk (foldl (build_row lk) [] ls)
     = (\<lambda>rr. map (\<lambda>ll. \<lparr>left = ll, right = rr\<rparr>)
         (filter (\<lambda>ll. js_String (row_get ll lk) = js_String (row_get rr rk)) ls))" for ls
    by (rule ext) (simp add: probe_row_def build_rows split: list.splits)
  then show ?thesis by (simp only: hashJoin_def Let_def foldl_append_concat tbl_scan_None append_Nil)
qed

section \<open>Scan lookup and uniqueness\<close>

definition lookupByColumn :: "table \<Rightarrow> jstr \<Rightarrow> jsval \<Rightarrow> jstr list" where
  "lookupByColumn t column value =
     map (\<lambda>r. js_String (row_get r (primaryKeyName (schema_of t))))
       (tbl_scan t (Some [(column, Cond (no_condition\<lparr>c_eq := value\<rparr>))]))"

fun unique_loop :: "table \<Rightarrow> jstr \<Rightarrow> jsval \<Rightarrow> jsval \<Rightarrow> row list \<Rightarrow> unit res" where
  "unique_loop t column value excludePk [] = Inr ()"
| "unique_loop t column value excludePk (r # rs) =
     (if excludePk \<noteq> Undefined
         \<and> js_String (row_get r (primaryKeyName (schema_of t))) = js_String excludePk
      then unique_loop t column value excludePk rs
      else if strict_eq (row_get r column) value
        then Inl (Error (lit ''UNIQUE violation on '' @ quoted column))
        else unique_loop t column value excludePk rs)"

definition assertUnique :: "table \<Rightarrow> jstr \<Rightarrow> jsval \<Rightarrow> jsval \<Rightarrow> unit res" where
  "assertUnique t column value excludePk = unique_loop t column value excludePk (tbl_scan t None)"

lemma unique_loop_ok:
  "unique_loop t col v ex rs = Inr u \<longleftrightarrow>
     (\<forall>r\<in>set rs. strict_eq (row_get r col) v
        \<longrightarrow> ex \<noteq> Undefined \<and> js_String (row_get r (primaryKeyName (schema_of t))) = js_String ex)"
  by (induction rs) auto

lemma unique_loop_err:
  "unique_loop t col v ex rs = Inl e \<Longrightarrow> e = Error (lit ''UNIQUE violation on '' @ quoted col)"
  by (induction rs) (auto split: if_splits)

end
