(* ===== verification/TableSpec.thy ===== *)
theory TableSpec
  imports Aggregate
begin

text \<open>
  What a table promises, stated without its maps: a list of keyed rows in insertion order on which
  every method has a one-line meaning. The section proves that the table of
  \<open>client/relational/table.ts\<close> implements it, for every sequence of method calls, and collects the
  properties of a single table and its readers.
\<close>

section \<open>Histories of method calls\<close>

datatype table_op = OpInsert row | OpUpdate jsval row | OpDelete jsval

datatype op_result = RowResult row | MaybeRow "row option" | Removed bool

definition map_result :: "('a \<Rightarrow> 'b) \<Rightarrow> 'a res \<times> 's \<Rightarrow> 'b res \<times> 's" where
  "map_result f p = (case p of (r, s) \<Rightarrow> (map_sum (\<lambda>e. e) f r, s))"

fun table_step :: "table_op \<Rightarrow> (table, op_result) action" where
  "table_step (OpInsert r) t = map_result RowResult (tbl_insert r t)"
| "table_step (OpUpdate v p) t = map_result MaybeRow (tbl_update v p t)"
| "table_step (OpDelete v) t = map_result Removed (tbl_delete v t)"

fun table_run :: "table_op list \<Rightarrow> table \<Rightarrow> op_result res list \<times> table" where
  "table_run [] t = ([], t)"
| "table_run (op # ops) t =
     (case table_step op t of (r, t1) \<Rightarrow>
      case table_run ops t1 of (rs, t2) \<Rightarrow> (r # rs, t2))"

inductive reachable_table :: "jstr \<Rightarrow> column_def list \<Rightarrow> table \<Rightarrow> bool" for name defs where
  created: "new_RelationalTable name defs = Inr t \<Longrightarrow> reachable_table name defs t"
| called: "reachable_table name defs t \<Longrightarrow> reachable_table name defs (snd (table_step op t))"

inductive_cases reachable_tableE: "reachable_table name defs t"

lemma snd_map_result [simp]: "snd (map_result f p) = snd p"
  by (cases p) (simp add: map_result_def)

lemma wf_table_step: "wf_table t \<Longrightarrow> wf_table (snd (table_step op t))"
  by (cases op) (simp_all add: wf_table_insert wf_table_update wf_table_delete)

lemma schema_of_step [simp]: "schema_of (snd (table_step op t)) = schema_of t"
  by (cases op) simp_all

lemma reachable_wf:
  assumes "reachable_table name defs t"
  shows "wf_table t" "new_RelationalSchema name defs = Inr (schema_of t)"
  using assms by (induction rule: reachable_table.induct) (simp_all add: wf_new_table wf_table_step)

section \<open>The abstract keyed list\<close>

type_synonym keyed_rows = "(jstr \<times> row) list"

definition row_accepted :: "schema \<Rightarrow> row \<Rightarrow> bool" where
  "row_accepted s r \<longleftrightarrow> (\<forall>c\<in>set (columns s). cell_accepts r c)
     \<and> row_get r (primaryKeyName s) \<notin> {Null, Undefined, Str []}"

definition rendered :: "jsval \<Rightarrow> jstr option" where
  "rendered v = (case encodePk v of Inr k \<Rightarrow> Some k | Inl _ \<Rightarrow> None)"

definition key_in :: "jstr \<Rightarrow> keyed_rows \<Rightarrow> bool" where
  "key_in k l \<longleftrightarrow> k \<in> fst ` set l"

fun spec_step :: "schema \<Rightarrow> table_op \<Rightarrow> keyed_rows \<Rightarrow> op_result option \<times> keyed_rows" where
  \<comment> \<open>\<open>None\<close> is an exception\<close>
  "spec_step s (OpInsert r) l =
     (case rendered (row_get r (primaryKeyName s)) of
        Some k \<Rightarrow> if row_accepted s r \<and> \<not> key_in k l then (Some (RowResult r), l @ [(k, r)]) else (None, l)
      | None \<Rightarrow> (None, l))"
| "spec_step s (OpUpdate v p) l =
     (case rendered v of
        None \<Rightarrow> (None, l)
      | Some k \<Rightarrow>
          (case map_of l k of
             None \<Rightarrow> (Some (MaybeRow None), l)
           | Some cur \<Rightarrow>
               if row_accepted s (cur ++ p)
                  \<and> (row_get p (primaryKeyName s) = Undefined \<or> rendered (row_get p (primaryKeyName s)) = Some k)
               then (Some (MaybeRow (Some (cur ++ p))), map (\<lambda>(j, r). (j, if j = k then cur ++ p else r)) l)
               else (None, l)))"
| "spec_step s (OpDelete v) l =
     (case rendered v of
        None \<Rightarrow> (None, l)
      | Some k \<Rightarrow> (Some (Removed (key_in k l)), filter (\<lambda>(j, r). j \<noteq> k) l))"

fun spec_run :: "schema \<Rightarrow> table_op list \<Rightarrow> keyed_rows \<Rightarrow> op_result option list \<times> keyed_rows" where
  "spec_run s [] l = ([], l)"
| "spec_run s (op # ops) l =
     (case spec_step s op l of (r, l1) \<Rightarrow> case spec_run s ops l1 of (rs, l2) \<Rightarrow> (r # rs, l2))"

definition outcome :: "'a res \<Rightarrow> 'a option" where
  "outcome r = (case r of Inr a \<Rightarrow> Some a | Inl _ \<Rightarrow> None)"

lemma outcome_simps [simp]: "outcome (Inr a) = Some a" "outcome (Inl e) = None"
  by (simp_all add: outcome_def)

lemma row_accepted_ok: "row_accepted s r \<longleftrightarrow> is_ok (validateRow s r)"
  by (auto simp: row_accepted_def is_ok_def validateRow_ok is_nullish_def)

lemma rendered_eq_Some [simp]: "rendered v = Some k \<longleftrightarrow> encodePk v = Inr k"
  by (simp add: rendered_def split: sum.splits)

lemma rendered_simps [simp]:
  "encodePk v = Inr k \<Longrightarrow> rendered v = Some k" "encodePk v = Inl e \<Longrightarrow> rendered v = None"
  by (simp_all add: rendered_def)

lemma key_in_iff: "key_in k l \<longleftrightarrow> map_of l k \<noteq> None"
  by (simp add: key_in_def map_of_eq_None_iff)

lemma delete_filter: "AList.delete k l = filter (\<lambda>(j, r). j \<noteq> k) l"
  by (auto simp: AList.delete_eq intro!: filter_cong)

lemma delete_absent: "map_of l k = None \<Longrightarrow> filter (\<lambda>(j, r). j \<noteq> k) l = l"
  by (induction l) auto

lemma insert_spec:
  "(outcome (fst (table_step (OpInsert r) t)), rows (snd (table_step (OpInsert r) t)))
     = spec_step (schema_of t) (OpInsert r) (rows t)"
proof (cases rule: tbl_insert_cases [of r t])
  case (1 e)
  then show ?thesis
    by (cases "encodePk (row_get r (primaryKeyName (schema_of t)))")
       (auto simp: map_result_def row_accepted_ok key_in_iff jm_has_def)
next
  case (2 k)
  then show ?thesis by (simp add: map_result_def row_accepted_ok key_in_iff row_ok_def)
qed

lemma update_spec:
  assumes "jm_ok (rows t)"
  shows "(outcome (fst (table_step (OpUpdate v p) t)), rows (snd (table_step (OpUpdate v p) t)))
     = spec_step (schema_of t) (OpUpdate v p) (rows t)"
proof (cases "encodePk v")
  case (Inl e)
  then show ?thesis by (simp add: tbl_update_def map_result_def)
next
  case k: (Inr k)
  show ?thesis
  proof (cases "map_of (rows t) k")
    case None
    then show ?thesis using k by (simp add: tbl_update_def map_result_def)
  next
    case cur: (Some cur)
    have up: "AList.update k r (rows t) = map (\<lambda>(j, w). (j, if j = k then r else w)) (rows t)" for r
      using update_present [OF assms] cur by simp
    let ?pv = "row_get p (primaryKeyName (schema_of t))"
    have "?pv = Undefined \<or> encodePk ?pv = Inr k \<or> (\<exists>k'. ?pv \<noteq> Undefined \<and> encodePk ?pv = Inr k' \<and> k' \<noteq> k)
        \<or> (\<exists>e. ?pv \<noteq> Undefined \<and> encodePk ?pv = Inl e)"
      by (cases "encodePk ?pv") auto
    then show ?thesis using k cur up
      by (cases "validateRow (schema_of t) (cur ++ p)"; elim disjE exE conjE)
         (simp_all add: tbl_update_def map_result_def row_accepted_ok is_ok_def Let_def)
  qed
qed

lemma delete_spec:
  "(outcome (fst (table_step (OpDelete v) t)), rows (snd (table_step (OpDelete v) t)))
     = spec_step (schema_of t) (OpDelete v) (rows t)"
  by (cases rule: tbl_delete_cases [of v t])
     (simp_all add: map_result_def key_in_iff delete_filter delete_absent)

lemma step_spec:
  "wf_table t \<Longrightarrow> (outcome (fst (table_step op t)), rows (snd (table_step op t)))
     = spec_step (schema_of t) op (rows t)"
  using insert_spec update_spec delete_spec by (cases op) (auto simp: wf_table_def)

lemma run_spec:
  assumes "wf_table t"
  shows "spec_run (schema_of t) ops (rows t) = (map outcome (fst (table_run ops t)), rows (snd (table_run ops t)))"
  using assms
proof (induction ops arbitrary: t)
  case (Cons op ops)
  obtain r t1 where s: "table_step op t = (r, t1)" by (cases "table_step op t")
  have "spec_step (schema_of t) op (rows t) = (outcome r, rows t1)"
    using step_spec [OF Cons.prems, of op] s by simp
  moreover have "wf_table t1" "schema_of t1 = schema_of t"
    using wf_table_step [OF Cons.prems, of op] schema_of_step [of op t] s by simp_all
  ultimately show ?case using Cons.IH [of t1] s by (simp split: prod.splits)
qed simp

section \<open>Facts the properties use\<close>

lemma snd_table_run: "snd (table_run (op # ops) t) = snd (table_run ops (snd (table_step op t)))"
  by (simp split: prod.splits)

lemma reachable_run: "reachable_table name defs t \<Longrightarrow> reachable_table name defs (snd (table_run ops t))"
proof (induction ops arbitrary: t)
  case (Cons op ops)
  then show ?case unfolding snd_table_run using reachable_table.called by blast
qed simp

lemma index_keys_step: "jm_keys (secondary (snd (table_step op t))) = jm_keys (secondary t)"
proof (cases op)
  case (OpInsert r)
  then show ?thesis by (cases rule: tbl_insert_cases [of r t]) (simp_all add: comp_def case_prod_unfold)
next
  case (OpUpdate v p)
  then show ?thesis by (cases rule: tbl_update_cases [of v p t]) (simp_all add: comp_def case_prod_unfold)
next
  case (OpDelete v)
  then show ?thesis by (cases rule: tbl_delete_cases [of v t]) (simp_all add: comp_def case_prod_unfold)
qed

lemma new_table_index_keys:
  assumes "new_RelationalTable name defs = Inr t"
  shows "jm_keys (secondary t)
     = map col_name (filter (\<lambda>c. flag (unique c) \<or> flag (primaryKey c)) (columns (schema_of t)))"
proof -
  have fold: "jm_keys (foldl (\<lambda>m c. if P c then AList.update (col_name c) [] m else m) m cs)
      = jm_keys m @ map col_name (filter P cs)"
    if "distinct (jm_keys m @ map col_name cs)"
    for P and m :: "(jstr, secondary_map) jsmap" and cs :: "compiled_column list"
    using that
  proof (induction cs arbitrary: m)
    case (Cons c cs)
    have fresh: "map_of m (col_name c) = None" using Cons.prems by (auto simp: map_of_eq_None_iff)
    show ?case using Cons.IH [of m] Cons.IH [of "m @ [(col_name c, [])]"] Cons.prems
      by (auto simp: update_fresh [OF fresh])
  qed simp
  have "distinct (map col_name (columns (schema_of t)))"
    using wf_new_table(1) [OF assms] by (simp add: wf_table_def wf_schema_def)
  then show ?thesis using assms fold [of "[]"]
    by (auto simp: new_RelationalTable_def res_bind_eqs)
qed

lemma reachable_index_keys:
  "reachable_table name defs t \<Longrightarrow> jm_keys (secondary t)
     = map col_name (filter (\<lambda>c. flag (unique c) \<or> flag (primaryKey c)) (columns (schema_of t)))"
  by (induction rule: reachable_table.induct) (simp_all add: new_table_index_keys index_keys_step)

section \<open>A concrete table\<close>

definition ex_columns :: "column_def list" where
  "ex_columns =
     [\<lparr>col_name = lit ''id'', col_type = TInt32, nullable = None, primaryKey = Some True, unique = None,
        defaultValue = Undefined\<rparr>,
      \<lparr>col_name = lit ''name'', col_type = TString, nullable = Some True, primaryKey = None,
        unique = Some True, defaultValue = Undefined\<rparr>]"

definition ex_row :: "int \<Rightarrow> string \<Rightarrow> row" where
  "ex_row i s = [lit ''id'' \<mapsto> Num (int_num i), lit ''name'' \<mapsto> Str (lit s)]"

definition ex_table :: table where
  "ex_table = (case new_RelationalTable (lit ''t'') ex_columns of Inr t \<Rightarrow> t)"

lemma ex_table_new: "new_RelationalTable (lit ''t'') ex_columns = Inr ex_table"
proof -
  have "is_ok (new_RelationalTable (lit ''t'') ex_columns)" by code_simp
  then show ?thesis by (auto simp: is_ok_def ex_table_def)
qed

lemma ex_table_reachable: "reachable_table (lit ''t'') ex_columns ex_table"
  using ex_table_new by (rule reachable_table.created)

definition ex_table2 :: table where
  \<comment> \<open>two rows inserted\<close>
  "ex_table2 = snd (table_run [OpInsert (ex_row 7 ''a''), OpInsert (ex_row 3 ''b'')] ex_table)"

lemma ex_table2_reachable: "reachable_table (lit ''t'') ex_columns ex_table2"
  unfolding ex_table2_def using ex_table_reachable by (rule reachable_run)

section \<open>Properties\<close>



text \<open>Invariant of the secondary maps: in every reachable table the maintained columns are exactly the
  unique and primary-key columns, and looking a rendered value up in a column's map gives exactly
  the keys of the stored rows whose cell renders to it, each once; no empty set is kept.\<close>

theorem secondary_maps_exact:
  assumes "reachable_table name defs t" and "(col, m) \<in> set (secondary t)"
  shows "col \<in> col_name ` {c \<in> set (columns (schema_of t)). flag (unique c) \<or> flag (primaryKey c)}
    \<and> distinct (jm_keys (secondary t))
    \<and> map_of m v \<noteq> Some []
    \<and> distinct (case map_of m v of None \<Rightarrow> [] | Some s \<Rightarrow> s)
    \<and> (k \<in> set (case map_of m v of None \<Rightarrow> [] | Some s \<Rightarrow> s)
        \<longleftrightarrow> (\<exists>r. map_of (rows t) k = Some r \<and> js_String (row_get r col) = v))"
proof -
  note wf = reachable_wf [OF assms(1)] and keys = reachable_index_keys [OF assms(1)]
  have "col \<in> set (jm_keys (secondary t))" using assms(2) by force
  then have "col \<in> col_name ` {c \<in> set (columns (schema_of t)). flag (unique c) \<or> flag (primaryKey c)}"
    unfolding keys by auto
  moreover have "distinct (jm_keys (secondary t))"
    using wf(1) unfolding keys by (simp add: wf_table_def wf_schema_def distinct_map_filter)
  moreover have "index_ok (rows t) col m" using wf(1) assms(2) by (auto simp: wf_table_def)
  then have "case map_of m v of None \<Rightarrow> keys_with (rows t) col v = {}
      | Some s \<Rightarrow> s \<noteq> [] \<and> distinct s \<and> set s = keys_with (rows t) col v"
    by (simp add: index_ok_def)
  ultimately show ?thesis by (auto simp: keys_with_def split: option.splits)
qed

lemma ex_table2_name: "map_of (secondary ex_table2) (lit ''name'') \<noteq> None"
  by code_simp

theorem secondary_maps_exact_witness:
  "lit ''3'' \<in> set (case map_of (the (map_of (secondary ex_table2) (lit ''name''))) (lit ''b'') of
      None \<Rightarrow> [] | Some s \<Rightarrow> s)
    \<longleftrightarrow> (\<exists>r. map_of (rows ex_table2) (lit ''3'') = Some r \<and> js_String (row_get r (lit ''name'')) = lit ''b'')"
proof -
  obtain m where m: "map_of (secondary ex_table2) (lit ''name'') = Some m" using ex_table2_name by blast
  then have "(lit ''name'', m) \<in> set (secondary ex_table2)" by (rule map_of_SomeD)
  from secondary_maps_exact [OF ex_table2_reachable this]
  show ?thesis unfolding m option.sel by blast
qed

text \<open>A method that throws changes nothing: neither the rows nor any secondary map.\<close>

theorem table_errors_change_nothing:
  "fst (table_step op t) = Inl e \<Longrightarrow> snd (table_step op t) = t"
proof (cases op)
  case (OpInsert r)
  then show "fst (table_step op t) = Inl e \<Longrightarrow> snd (table_step op t) = t"
    by (cases rule: tbl_insert_cases [of r t]) (simp_all add: map_result_def)
next
  case (OpUpdate v p)
  then show "fst (table_step op t) = Inl e \<Longrightarrow> snd (table_step op t) = t"
    by (cases rule: tbl_update_cases [of v p t]) (simp_all add: map_result_def)
next
  case (OpDelete v)
  then show "fst (table_step op t) = Inl e \<Longrightarrow> snd (table_step op t) = t"
    by (cases rule: tbl_delete_cases [of v t]) (simp_all add: map_result_def)
qed

lemma ex_dup: "\<not> is_ok (fst (table_step (OpInsert (ex_row 7 ''z'')) ex_table2))"
  by code_simp

theorem table_errors_change_nothing_witness:
  "\<exists>e. fst (table_step (OpInsert (ex_row 7 ''z'')) ex_table2) = Inl e
     \<and> snd (table_step (OpInsert (ex_row 7 ''z'')) ex_table2) = ex_table2"
proof -
  obtain e where "fst (table_step (OpInsert (ex_row 7 ''z'')) ex_table2) = Inl e"
    using ex_dup by (cases "fst (table_step (OpInsert (ex_row 7 ''z'')) ex_table2)") auto
  then show ?thesis using table_errors_change_nothing by blast
qed

text \<open>After a successful insert the row is found under every value that renders to its key, every
  other lookup is unchanged, a second insert under the same key throws, and deleting by the key
  then makes the lookup empty again.\<close>

theorem insert_lookup_delete:
  assumes "tbl_insert r t = (Inr r', t1)"
    and "tbl_delete (row_get r (primaryKeyName (schema_of t))) t1 = (Inr b, t2)"
  shows "tbl_findByPk t1 v = (if encodePk v = encodePk (row_get r (primaryKeyName (schema_of t)))
      then Inr (Some r) else tbl_findByPk t v)
    \<and> (\<exists>e. fst (tbl_insert r t1) = Inl e)
    \<and> tbl_findByPk t2 (row_get r (primaryKeyName (schema_of t))) = Inr None"
proof -
  have key: "tbl_key_of t r = encodePk (row_get r (primaryKeyName (schema_of t)))"
    by (simp add: tbl_key_of_def)
  have "\<exists>e. fst (tbl_insert r t1) = Inl e"
    using rel_table.insert_twice_fails [OF assms(1) refl] by auto
  then show ?thesis
    using rel_table.find_after_insert [OF assms(1), of v] rel_table.insert_frame [OF assms(1), of v]
      rel_table.find_after_delete [OF assms(2)] by (simp add: key)
qed

lemma ex_insert_delete:
  "is_ok (fst (tbl_insert (ex_row 1 ''a'') ex_table))"
  "is_ok (fst (tbl_delete (Num (Fin 1)) (snd (tbl_insert (ex_row 1 ''a'') ex_table))))"
  "row_get (ex_row 1 ''a'') (primaryKeyName (schema_of ex_table)) = Num (Fin 1)"
  by code_simp+

theorem insert_lookup_delete_witness:
  "tbl_findByPk (snd (tbl_insert (ex_row 1 ''a'') ex_table)) (Num (Fin 1)) = Inr (Some (ex_row 1 ''a''))"
proof -
  obtain r' t1 where a: "tbl_insert (ex_row 1 ''a'') ex_table = (Inr r', t1)"
    using ex_insert_delete(1) by (cases "tbl_insert (ex_row 1 ''a'') ex_table") (auto simp: is_ok_def)
  obtain b t2 where d: "tbl_delete (Num (Fin 1)) t1 = (Inr b, t2)"
    using ex_insert_delete(2) unfolding a by (cases "tbl_delete (Num (Fin 1)) t1") (auto simp: is_ok_def)
  show ?thesis
    using insert_lookup_delete [OF a, unfolded ex_insert_delete(3), OF d, of "Num (Fin 1)"]
    unfolding a snd_conv by (simp only: if_True refl)
qed

end
