(* ===== verification/Regex.thy ===== *)
theory Regex
  imports JsValue
begin

text \<open>
  Regular expressions of the language as the statement grammar uses them: backtracking with
  priorities, greedy and lazy repetition of a character class, capture groups, word boundaries and the
  end anchor. \<open>results\<close> lists every way a pattern can match at a place, best first, so \<open>match\<close> is the
  head of the list and a pattern matches when the list is not empty.
\<close>

section \<open>Patterns\<close>

datatype char_class =
    WordChar            \<comment> \<open>\<open>\w\<close>\<close>
  | SpaceChar           \<comment> \<open>\<open>\s\<close>\<close>
  | DigitChar           \<comment> \<open>\<open>\d\<close>\<close>
  | Dot                 \<comment> \<open>\<open>.\<close>\<close>
  | Except code_unit    \<comment> \<open>\<open>[^c]\<close>\<close>
  | Exactly code_unit   \<comment> \<open>a character without the \<open>i\<close> flag\<close>
  | Folded code_unit    \<comment> \<open>a character with the \<open>i\<close> flag\<close>

definition ascii_upper :: "code_unit \<Rightarrow> code_unit" where
  "ascii_upper c = (if 97 \<le> c \<and> c \<le> 122 then c - 32 else c)"

definition ascii_lower :: "code_unit \<Rightarrow> code_unit" where
  "ascii_lower c = (if 65 \<le> c \<and> c \<le> 90 then c + 32 else c)"

fun in_class :: "char_class \<Rightarrow> code_unit \<Rightarrow> bool" where
  "in_class WordChar x = is_ident_char x"
| "in_class SpaceChar x = is_white_space x"
| "in_class DigitChar x = is_digit x"
| "in_class Dot x = (\<not> is_line_terminator x)"
| "in_class (Except c) x = (x \<noteq> c)"
| "in_class (Exactly c) x = (x = c)"
| "in_class (Folded c) x = (ascii_upper x = ascii_upper c)"

datatype re =
    One char_class
  | Plus char_class      \<comment> \<open>\<open>+\<close>\<close>
  | Star char_class      \<comment> \<open>\<open>*\<close>\<close>
  | LazyPlus char_class  \<comment> \<open>\<open>+?\<close>\<close>
  | Opt re               \<comment> \<open>\<open>(?: )?\<close>\<close>
  | Cap nat re           \<comment> \<open>the capture group with this number\<close>
  | Alt re re
  | Seq re re
  | Eps
  | Boundary             \<comment> \<open>\<open>\b\<close>\<close>
  | End                  \<comment> \<open>\<open>$\<close>\<close>

fun seqs :: "re list \<Rightarrow> re" where
  "seqs [] = Eps"
| "seqs [r] = r"
| "seqs (r # rs) = Seq r (seqs rs)"

fun alts :: "re list \<Rightarrow> re" where
  "alts [] = Eps"
| "alts [r] = r"
| "alts (r # rs) = Alt r (alts rs)"

definition word :: "string \<Rightarrow> re" where
  \<comment> \<open>a keyword under the \<open>i\<close> flag\<close>
  "word s = seqs (map (\<lambda>c. One (Folded (cu c))) s)"

definition exact :: "string \<Rightarrow> re" where
  "exact s = seqs (map (\<lambda>c. One (Exactly (cu c))) s)"

section \<open>Matching\<close>

type_synonym captures = "(nat \<times> jstr) list"

type_synonym place = "code_unit option \<times> jstr"
  \<comment> \<open>the code unit before the place, and the text after it\<close>

fun runs :: "char_class \<Rightarrow> place \<Rightarrow> place list" where
  \<comment> \<open>the places after any number of characters of the class, the longest run first\<close>
  "runs c (p, []) = [(p, [])]"
| "runs c (p, x # s) = (if in_class c x then runs c (Some x, s) @ [(p, x # s)] else [(p, x # s)])"

fun runs1 :: "char_class \<Rightarrow> place \<Rightarrow> place list" where
  "runs1 c (p, []) = []"
| "runs1 c (p, x # s) = (if in_class c x then runs c (Some x, s) else [])"

fun at_boundary :: "place \<Rightarrow> bool" where
  "at_boundary (p, s) =
     ((case p of None \<Rightarrow> False | Some x \<Rightarrow> is_ident_char x) \<noteq> (case s of [] \<Rightarrow> False | x # _ \<Rightarrow> is_ident_char x))"

fun one :: "char_class \<Rightarrow> place \<Rightarrow> place list" where
  "one c (p, []) = []"
| "one c (p, x # s) = (if in_class c x then [(Some x, s)] else [])"

definition consumed :: "place \<Rightarrow> place \<Rightarrow> jstr" where
  "consumed a b = take (length (snd a) - length (snd b)) (snd a)"

fun results :: "re \<Rightarrow> place \<times> captures \<Rightarrow> (place \<times> captures) list" where
  "results (One c) (a, m) = map (\<lambda>b. (b, m)) (one c a)"
| "results (Plus c) (a, m) = map (\<lambda>b. (b, m)) (runs1 c a)"
| "results (Star c) (a, m) = map (\<lambda>b. (b, m)) (runs c a)"
| "results (LazyPlus c) (a, m) = map (\<lambda>b. (b, m)) (rev (runs1 c a))"
| "results (Opt r) (a, m) = results r (a, m) @ [(a, m)]"
| "results (Cap n r) (a, m) = map (\<lambda>(b, m'). (b, (n, consumed a b) # m')) (results r (a, m))"
| "results (Alt r s) (a, m) = results r (a, m) @ results s (a, m)"
| "results (Seq r s) (a, m) = concat (map (results s) (results r (a, m)))"
| "results Eps (a, m) = [(a, m)]"
| "results Boundary (a, m) = (if at_boundary a then [(a, m)] else [])"
| "results End (a, m) = (if snd a = [] then [(a, m)] else [])"

definition re_exec :: "re \<Rightarrow> jstr \<Rightarrow> (nat \<rightharpoonup> jstr) option" where
  \<comment> \<open>\<open>s.match(/^r/)\<close>: the numbered groups of the best match at the start\<close>
  "re_exec r s = (case results r ((None, s), []) of [] \<Rightarrow> None | (_, m) # _ \<Rightarrow> Some (map_of m))"

fun re_search :: "re \<Rightarrow> code_unit option \<Rightarrow> jstr \<Rightarrow> bool" where
  \<comment> \<open>\<open>/r/.test(s)\<close>, from every place\<close>
  "re_search r p s = (results r ((p, s), []) \<noteq> [] \<or> (case s of [] \<Rightarrow> False | x # t \<Rightarrow> re_search r (Some x) t))"

declare re_search.simps [simp del]

section \<open>What a match consumes and captures\<close>

definition last_of :: "code_unit option \<Rightarrow> jstr \<Rightarrow> code_unit option" where
  "last_of p t = (if t = [] then p else Some (last t))"

definition advance :: "place \<Rightarrow> jstr \<Rightarrow> place \<Rightarrow> bool" where
  \<comment> \<open>the second place is the first one moved over the text\<close>
  "advance a t b \<longleftrightarrow> snd a = t @ snd b \<and> fst b = last_of (fst a) t"

lemma advance_refl [simp]: "advance a [] a"
  by (simp add: advance_def last_of_def)

lemma advance_trans: "advance a t b \<Longrightarrow> advance b u c \<Longrightarrow> advance a (t @ u) c"
  by (auto simp: advance_def last_of_def)

lemma consumed_advance [simp]: "advance a t b \<Longrightarrow> consumed a b = t"
  by (simp add: advance_def consumed_def)

lemma advance_one: "advance (p, x # s) [x] (Some x, s)"
  by (simp add: advance_def last_of_def)

lemma runs_advance: "b \<in> set (runs c a) \<Longrightarrow> \<exists>t. advance a t b \<and> list_all (in_class c) t"
proof (induction c a rule: runs.induct)
  case (2 c p x s)
  show ?case
  proof (cases "in_class c x \<and> b \<in> set (runs c (Some x, s))")
    case True
    then obtain t where "advance (Some x, s) t b" "list_all (in_class c) t" using 2 by blast
    then show ?thesis using True advance_trans [OF advance_one [of p x s]]
      by (intro exI [of _ "x # t"]) fastforce
  next
    case False
    then have "b = (p, x # s)" using "2.prems" by (auto split: if_splits)
    then show ?thesis by (intro exI [of _ "[]"]) simp
  qed
qed (auto intro: exI [of _ "[]"])

lemma runs1_advance: "b \<in> set (runs1 c a) \<Longrightarrow> \<exists>t. advance a t b \<and> t \<noteq> [] \<and> list_all (in_class c) t"
proof (induction c a rule: runs1.induct)
  case (2 c p x s)
  then have x: "in_class c x" "b \<in> set (runs c (Some x, s))" by (auto split: if_splits)
  obtain t where "advance (Some x, s) t b" "list_all (in_class c) t" using runs_advance [OF x(2)] by blast
  then show ?case using x advance_trans [OF advance_one [of p x s]]
    by (intro exI [of _ "x # t"]) fastforce
qed simp

fun lang :: "re \<Rightarrow> jstr \<Rightarrow> bool" where
  \<comment> \<open>the texts a pattern can consume, its assertions left aside\<close>
  "lang (One c) t \<longleftrightarrow> (\<exists>x. t = [x] \<and> in_class c x)"
| "lang (Plus c) t \<longleftrightarrow> t \<noteq> [] \<and> list_all (in_class c) t"
| "lang (Star c) t \<longleftrightarrow> list_all (in_class c) t"
| "lang (LazyPlus c) t \<longleftrightarrow> t \<noteq> [] \<and> list_all (in_class c) t"
| "lang (Opt r) t \<longleftrightarrow> t = [] \<or> lang r t"
| "lang (Cap n r) t \<longleftrightarrow> lang r t"
| "lang (Alt r s) t \<longleftrightarrow> lang r t \<or> lang s t"
| "lang (Seq r s) t \<longleftrightarrow> (\<exists>u v. t = u @ v \<and> lang r u \<and> lang s v)"
| "lang Eps t \<longleftrightarrow> t = []"
| "lang Boundary t \<longleftrightarrow> t = []"
| "lang End t \<longleftrightarrow> t = []"

fun groups :: "re \<Rightarrow> (nat \<times> re) list" where
  "groups (Cap n r) = (n, r) # groups r"
| "groups (Opt r) = groups r"
| "groups (Alt r s) = groups r @ groups s"
| "groups (Seq r s) = groups r @ groups s"
| "groups _ = []"

definition matched :: "re \<Rightarrow> place \<times> captures \<Rightarrow> place \<times> captures \<Rightarrow> bool" where
  \<comment> \<open>the second state follows from the first by consuming a text of the pattern and recording texts of its groups\<close>
  "matched r st st' \<longleftrightarrow> (\<exists>t cs. advance (fst st) t (fst st') \<and> lang r t \<and> snd st' = cs @ snd st
     \<and> (\<forall>(n, u)\<in>set cs. \<exists>q. (n, q) \<in> set (groups r) \<and> lang q u))"

lemma matched_plain: "advance a t b \<Longrightarrow> lang r t \<Longrightarrow> matched r (a, m) (b, m)"
  unfolding matched_def by (intro exI [of _ t] exI [of _ "[]"]) simp

lemma matched_mono:
  assumes "matched r st st'" and "\<And>t. lang r t \<Longrightarrow> lang s t" and "set (groups r) \<subseteq> set (groups s)"
  shows "matched s st st'"
proof -
  obtain t cs where t: "advance (fst st) t (fst st')" "lang r t" "snd st' = cs @ snd st"
      "\<forall>(n, u)\<in>set cs. \<exists>q. (n, q) \<in> set (groups r) \<and> lang q u" using assms(1) unfolding matched_def by blast
  have "\<forall>(n, u)\<in>set cs. \<exists>q. (n, q) \<in> set (groups s) \<and> lang q u" using t(4) assms(3) by blast
  then show ?thesis unfolding matched_def using t assms(2) by blast
qed

lemma matched_Seq:
  assumes "matched r st st1" and "matched s st1 st2"
  shows "matched (Seq r s) st st2"
proof -
  obtain t cs where t: "advance (fst st) t (fst st1)" "lang r t" "snd st1 = cs @ snd st"
      "\<forall>(n, u)\<in>set cs. \<exists>q. (n, q) \<in> set (groups r) \<and> lang q u" using assms(1) unfolding matched_def by blast
  obtain v ds where v: "advance (fst st1) v (fst st2)" "lang s v" "snd st2 = ds @ snd st1"
      "\<forall>(n, u)\<in>set ds. \<exists>q. (n, q) \<in> set (groups s) \<and> lang q u" using assms(2) unfolding matched_def by blast
  have "\<exists>q. (n, q) \<in> set (groups (Seq r s)) \<and> lang q u" if "(n, u) \<in> set (ds @ cs)" for n u
    using that t(4) v(4) by (auto dest!: bspec)
  then have "\<forall>(n, u)\<in>set (ds @ cs). \<exists>q. (n, q) \<in> set (groups (Seq r s)) \<and> lang q u" by blast
  moreover have "lang (Seq r s) (t @ v)" using t(2) v(2) by auto
  moreover have "snd st2 = (ds @ cs) @ snd st" using t(3) v(3) by simp
  ultimately show ?thesis unfolding matched_def using advance_trans [OF t(1) v(1)] by blast
qed

lemma matched_Cap:
  assumes "matched r (a, m) (b, m')"
  shows "matched (Cap n r) (a, m) (b, (n, consumed a b) # m')"
proof -
  obtain t cs where t: "advance a t b" "lang r t" "m' = cs @ m"
      "\<forall>(n, u)\<in>set cs. \<exists>q. (n, q) \<in> set (groups r) \<and> lang q u" using assms unfolding matched_def by auto
  have "\<forall>(k, u)\<in>set ((n, t) # cs). \<exists>q. (k, q) \<in> set (groups (Cap n r)) \<and> lang q u" using t(2,4) by auto
  then show ?thesis unfolding matched_def using t
    by (intro exI [of _ t] exI [of _ "(n, t) # cs"]) simp
qed

lemma results_sound: "st' \<in> set (results r st) \<Longrightarrow> matched r st st'"
proof (induction r st arbitrary: st' rule: results.induct)
  case (1 c a m)
  then show ?case by (cases a; cases "snd a") (auto intro!: matched_plain advance_one split: if_splits)
next
  case (2 c a m)
  then show ?case using runs1_advance [of "fst st'" c a] by (fastforce intro: matched_plain)
next
  case (3 c a m)
  then show ?case using runs_advance [of "fst st'" c a] by (fastforce intro: matched_plain)
next
  case (4 c a m)
  then show ?case using runs1_advance [of "fst st'" c a] by (fastforce intro: matched_plain)
next
  case (5 r a m)
  then consider "st' \<in> set (results r (a, m))" | "st' = (a, m)" by auto
  then show ?case
  proof cases
    case 1
    show ?thesis by (rule matched_mono [OF "5.IH" [OF 1]]) simp_all
  qed (simp add: matched_plain [OF advance_refl])
next
  case (6 n r a m)
  then obtain b m1 where "(b, m1) \<in> set (results r (a, m))" "st' = (b, (n, consumed a b) # m1)" by auto
  then show ?case using "6.IH" matched_Cap by blast
next
  case (7 r s a m)
  then consider "st' \<in> set (results r (a, m))" | "st' \<in> set (results s (a, m))" by auto
  then show ?case
  proof cases
    case 1
    show ?thesis by (rule matched_mono [OF "7.IH"(1) [OF 1]]) simp_all
  next
    case 2
    show ?thesis by (rule matched_mono [OF "7.IH"(2) [OF 2]]) simp_all
  qed
next
  case (8 r s a m)
  then obtain st1 where "st1 \<in> set (results r (a, m))" "st' \<in> set (results s st1)" by auto
  then show ?case using "8.IH" matched_Seq by blast
qed (auto intro: matched_plain [OF advance_refl] split: if_splits)

section \<open>Which groups are set\<close>

fun always :: "re \<Rightarrow> nat set" where
  \<comment> \<open>the groups every match records\<close>
  "always (Cap n r) = insert n (always r)"
| "always (Alt r s) = always r \<inter> always s"
| "always (Seq r s) = always r \<union> always s"
| "always _ = {}"

fun together :: "nat \<Rightarrow> nat \<Rightarrow> re \<Rightarrow> bool" where
  \<comment> \<open>a match records both groups or neither\<close>
  "together i j (Opt r) = together i j r"
| "together i j (Alt r s) = (together i j r \<and> together i j s)"
| "together i j (Seq r s) = (together i j r \<and> together i j s \<or> {i, j} \<subseteq> always (Seq r s))"
| "together i j (Cap n r) = (n \<notin> {i, j} \<and> together i j r \<or> {i, j} \<subseteq> always (Cap n r))"
| "together i j _ = True"

definition recorded :: "place \<times> captures \<Rightarrow> nat set" where
  "recorded st = fst ` set (snd st)"

lemma results_extend: "st' \<in> set (results r st) \<Longrightarrow> recorded st \<subseteq> recorded st'"
  using results_sound [of st' r st] unfolding matched_def recorded_def by auto

lemma results_Cap: "st' \<in> set (results (Cap n r) st) \<longleftrightarrow> (\<exists>b m. (b, m) \<in> set (results r st) \<and> st' = (b, (n, consumed (fst st) b) # m))"
  by (cases st) force

lemma results_Seq: "st' \<in> set (results (Seq r s) st) \<longleftrightarrow> (\<exists>st1\<in>set (results r st). st' \<in> set (results s st1))"
  by (cases st) auto

lemma results_Alt: "st' \<in> set (results (Alt r s) st) \<longleftrightarrow> st' \<in> set (results r st) \<or> st' \<in> set (results s st)"
  by (cases st) auto

lemma results_Opt: "st' \<in> set (results (Opt r) st) \<longleftrightarrow> st' \<in> set (results r st) \<or> st' = st"
  by (cases st) auto

lemma recorded_Cons: "recorded (b, (n, t) # m) = insert n (recorded (b, m))"
  by (simp add: recorded_def)

lemma results_always: "st' \<in> set (results r st) \<Longrightarrow> always r \<subseteq> recorded st'"
proof (induction r arbitrary: st st')
  case (Cap n r)
  then obtain b m where b: "(b, m) \<in> set (results r st)" "st' = (b, (n, consumed (fst st) b) # m)"
    unfolding results_Cap by blast
  show ?case using Cap.IH [OF b(1)] by (auto simp: b(2) recorded_Cons)
next
  case (Alt r s)
  have "always r \<subseteq> recorded st' \<or> always s \<subseteq> recorded st'" using Alt unfolding results_Alt by blast
  then show ?case by auto
next
  case (Seq r s)
  then obtain st1 where st: "st1 \<in> set (results r st)" "st' \<in> set (results s st1)" unfolding results_Seq by blast
  have "always r \<subseteq> recorded st1" "always s \<subseteq> recorded st'" "recorded st1 \<subseteq> recorded st'"
    using Seq.IH(1) [OF st(1)] Seq.IH(2) [OF st(2)] results_extend [OF st(2)] .
  then show ?case by auto
qed simp_all

lemma results_same: "groups r = [] \<Longrightarrow> st' \<in> set (results r st) \<Longrightarrow> recorded st' = recorded st"
  using results_sound [of st' r st] unfolding matched_def recorded_def by (auto simp: split_beta)

lemma results_together:
  "together i j r \<Longrightarrow> st' \<in> set (results r st) \<Longrightarrow>
     (i \<in> recorded st \<longleftrightarrow> j \<in> recorded st) \<Longrightarrow> (i \<in> recorded st' \<longleftrightarrow> j \<in> recorded st')"
proof (induction r arbitrary: st st')
  case (Cap n r)
  show ?case
  proof (cases "{i, j} \<subseteq> always (Cap n r)")
    case True
    then show ?thesis using results_always [OF Cap.prems(2)] by auto
  next
    case False
    then have t: "n \<noteq> i" "n \<noteq> j" "together i j r" using Cap.prems(1) by auto
    obtain b m where b: "(b, m) \<in> set (results r st)" "st' = (b, (n, consumed (fst st) b) # m)"
      using Cap.prems(2) unfolding results_Cap by blast
    show ?thesis using Cap.IH [OF t(3) b(1) Cap.prems(3)] t(1,2) by (simp add: b(2) recorded_Cons)
  qed
next
  case (Opt r)
  then have "together i j r" by simp
  then show ?case using Opt.IH Opt.prems(2,3) unfolding results_Opt by blast
next
  case (Alt r s)
  then have "together i j r" "together i j s" by simp_all
  then show ?case using Alt.IH Alt.prems(2,3) unfolding results_Alt by blast
next
  case (Seq r s)
  obtain st1 where st: "st1 \<in> set (results r st)" "st' \<in> set (results s st1)"
    using Seq.prems(2) unfolding results_Seq by blast
  show ?case
  proof (cases "{i, j} \<subseteq> always (Seq r s)")
    case True
    then show ?thesis using results_always [OF Seq.prems(2)] by auto
  next
    case False
    then have t: "together i j r" "together i j s" using Seq.prems(1) by auto
    show ?thesis by (rule Seq.IH(2) [OF t(2) st(2) Seq.IH(1) [OF t(1) st(1) Seq.prems(3)]])
  qed
qed (drule results_same [rotated], simp, simp)+

lemma re_execD:
  assumes "re_exec r s = Some m"
  shows "m n = Some u \<Longrightarrow> \<exists>q. (n, q) \<in> set (groups r) \<and> lang q u"
    and "n \<in> always r \<Longrightarrow> m n \<noteq> None"
    and "together i j r \<Longrightarrow> m i = None \<longleftrightarrow> m j = None"
proof -
  obtain st' sts where st: "results r ((None, s), []) = st' # sts" and m: "m = map_of (snd st')"
    using assms by (auto simp: re_exec_def split: list.splits)
  have i: "st' \<in> set (results r ((None, s), []))" by (simp add: st)
  show "m n = Some u \<Longrightarrow> \<exists>q. (n, q) \<in> set (groups r) \<and> lang q u"
    using results_sound [OF i] unfolding matched_def m by (auto dest!: map_of_SomeD)
  show "n \<in> always r \<Longrightarrow> m n \<noteq> None"
    using results_always [OF i] by (auto simp: m map_of_eq_None_iff recorded_def)
  show "together i j r \<Longrightarrow> m i = None \<longleftrightarrow> m j = None"
    using results_together [OF _ i, of i j] by (simp add: m map_of_eq_None_iff recorded_def)
qed

section \<open>The best match, step by step\<close>

definition picks :: "re \<Rightarrow> place \<times> captures \<Rightarrow> place \<times> captures \<Rightarrow> bool" where
  "picks r st st' \<longleftrightarrow> (\<exists>sts. results r st = st' # sts)"

lemma picks_Seq: "picks r st st1 \<Longrightarrow> picks s st1 st2 \<Longrightarrow> picks (Seq r s) st st2"
  by (cases st) (auto simp: picks_def)

lemma picks_seqs: "picks r st st1 \<Longrightarrow> picks (seqs (q # rs)) st1 st2 \<Longrightarrow> picks (seqs (r # q # rs)) st st2"
  by (simp add: picks_Seq)

lemma picks_exec: "picks r ((None, s), []) (a, m) \<Longrightarrow> re_exec r s = Some (map_of m)"
  by (auto simp: picks_def re_exec_def)

definition stops :: "char_class \<Rightarrow> jstr \<Rightarrow> bool" where
  "stops c s \<longleftrightarrow> (case s of [] \<Rightarrow> True | x # _ \<Rightarrow> \<not> in_class c x)"

lemma runs_pick: "list_all (in_class c) t \<Longrightarrow> stops c s \<Longrightarrow> \<exists>bs. runs c (p, t @ s) = (last_of p t, s) # bs"
proof (induction t arbitrary: p)
  case Nil
  then show ?case by (cases s) (simp_all add: stops_def last_of_def)
next
  case (Cons x t)
  then obtain bs where "runs c (Some x, t @ s) = (last_of (Some x) t, s) # bs" by auto
  then show ?case using Cons.prems by (simp add: last_of_def)
qed

lemma runs1_pick: "list_all (in_class c) t \<Longrightarrow> t \<noteq> [] \<Longrightarrow> stops c s \<Longrightarrow> \<exists>bs. runs1 c (p, t @ s) = (last_of p t, s) # bs"
  using runs_pick [of c "tl t" s "Some (hd t)"] by (cases t) (auto simp: last_of_def)

lemma picks_Plus: "list_all (in_class c) t \<Longrightarrow> t \<noteq> [] \<Longrightarrow> stops c s \<Longrightarrow> picks (Plus c) ((p, t @ s), m) ((last_of p t, s), m)"
  using runs1_pick [of c t s p] by (auto simp: picks_def)

lemma picks_Star: "list_all (in_class c) t \<Longrightarrow> stops c s \<Longrightarrow> picks (Star c) ((p, t @ s), m) ((last_of p t, s), m)"
  using runs_pick [of c t s p] by (auto simp: picks_def)

lemma picks_One: "in_class c x \<Longrightarrow> picks (One c) ((p, x # s), m) ((Some x, s), m)"
  by (simp add: picks_def)

lemma picks_Cap: "picks r ((p, t @ s), m) ((q, s), m') \<Longrightarrow> picks (Cap n r) ((p, t @ s), m) ((q, s), (n, t) # m')"
  by (auto simp: picks_def consumed_def)

lemma picks_Opt: "picks r st st' \<Longrightarrow> picks (Opt r) st st'"
  by (cases st) (auto simp: picks_def)

lemma picks_skip: "results r st = [] \<Longrightarrow> picks (Opt r) st st"
  by (cases st) (simp add: picks_def)

lemma picks_Alt1: "picks r st st' \<Longrightarrow> picks (Alt r s) st st'"
  by (cases st) (auto simp: picks_def)

lemma picks_Alt2: "results r st = [] \<Longrightarrow> picks s st st' \<Longrightarrow> picks (Alt r s) st st'"
  by (cases st) (auto simp: picks_def)

lemma picks_End: "picks End ((p, []), m) ((p, []), m)"
  by (simp add: picks_def)

lemma runs_last: "\<exists>bs. runs c (p, s) = bs @ [(p, s)]"
  by (cases s) auto

lemma picks_lazy1: "in_class c x \<Longrightarrow> picks (LazyPlus c) ((p, x # s), m) ((Some x, s), m)"
  using runs_last [of c "Some x" s] by (auto simp: picks_def)

text \<open>A pattern without boundaries reads the same text whatever stands before it.\<close>

definition eats :: "re \<Rightarrow> jstr \<Rightarrow> jstr \<Rightarrow> captures \<Rightarrow> captures \<Rightarrow> bool" where
  \<comment> \<open>in front of \<open>s\<close>, the best match of the pattern takes exactly \<open>t\<close> and extends the captures from \<open>m\<close> to \<open>m'\<close>\<close>
  "eats r t s m m' \<longleftrightarrow> (\<forall>p. \<exists>q. picks r ((p, t @ s), m) ((q, s), m'))"

definition refuses :: "re \<Rightarrow> jstr \<Rightarrow> bool" where
  "refuses r s \<longleftrightarrow> (\<forall>p m. results r ((p, s), m) = [])"

lemma eats_Seq: "eats r t (u @ s) m m1 \<Longrightarrow> eats q u s m1 m2 \<Longrightarrow> eats (Seq r q) (t @ u) s m m2"
  unfolding eats_def append_assoc using picks_Seq by blast

lemma eats_step: "eats r t (u @ s) m m1 \<Longrightarrow> eats (seqs (q # rs)) u s m1 m2 \<Longrightarrow> eats (seqs (r # q # rs)) (t @ u) s m m2"
  by (simp add: eats_Seq)

lemma eats_Plus: "list_all (in_class c) t \<Longrightarrow> t \<noteq> [] \<Longrightarrow> stops c s \<Longrightarrow> eats (Plus c) t s m m"
  unfolding eats_def using picks_Plus by blast

lemma eats_Star: "list_all (in_class c) t \<Longrightarrow> stops c s \<Longrightarrow> eats (Star c) t s m m"
  unfolding eats_def using picks_Star by blast

lemma eats_One: "in_class c x \<Longrightarrow> eats (One c) [x] s m m"
  unfolding eats_def using picks_One by fastforce

lemma eats_Cap: "eats r t s m m' \<Longrightarrow> eats (Cap n r) t s m ((n, t) # m')"
  unfolding eats_def using picks_Cap by blast

lemma eats_Opt: "eats r t s m m' \<Longrightarrow> eats (Opt r) t s m m'"
  unfolding eats_def using picks_Opt by blast

lemma eats_skip: "refuses r s \<Longrightarrow> eats (Opt r) [] s m m"
  unfolding eats_def refuses_def using picks_skip by fastforce

lemma eats_Alt1: "eats r t s m m' \<Longrightarrow> eats (Alt r q) t s m m'"
  unfolding eats_def using picks_Alt1 by blast

lemma eats_Alt2: "refuses r (t @ s) \<Longrightarrow> eats q t s m m' \<Longrightarrow> eats (Alt r q) t s m m'"
  unfolding eats_def refuses_def using picks_Alt2 by blast

lemma eats_End: "eats End [] [] m m"
  unfolding eats_def using picks_End by fastforce

lemma eats_lazy1: "in_class c x \<Longrightarrow> eats (LazyPlus c) [x] s m m"
  unfolding eats_def using picks_lazy1 by fastforce

lemma eats_exec: "eats r t [] [] m \<Longrightarrow> re_exec r t = Some (map_of m)"
  unfolding eats_def using picks_exec by (metis append_Nil2)

lemma eats_word: "eats (word (c # w)) (lit (c # w)) s m m"
proof (induction w arbitrary: c)
  case Nil
  then show ?case using eats_One [of "Folded (cu c)" "cu c" s m] by (simp add: word_def lit_def)
next
  case (Cons d w)
  have "eats (seqs (One (Folded (cu c)) # One (Folded (cu d)) # map (\<lambda>c. One (Folded (cu c))) w)) ([cu c] @ lit (d # w)) s m m"
    by (rule eats_step [OF eats_One]) (use Cons [of d] in \<open>simp_all add: word_def\<close>)
  then show ?case by (simp add: word_def lit_def)
qed

lemma refuses_Seq: "refuses r s \<Longrightarrow> refuses (Seq r q) s"
  by (simp add: refuses_def)

lemma refuses_seqs: "refuses r s \<Longrightarrow> refuses (seqs (r # q # rs)) s"
  by (simp add: refuses_Seq)

lemma refuses_Plus: "stops c s \<Longrightarrow> refuses (Plus c) s"
  by (cases s) (simp_all add: refuses_def stops_def)

lemma refuses_One: "stops c s \<Longrightarrow> refuses (One c) s"
  by (cases s) (simp_all add: refuses_def stops_def)

lemma stops_simps [simp]: "stops c []" "stops c (x # s) \<longleftrightarrow> \<not> in_class c x"
  by (simp_all add: stops_def)

lemma refuses_keyword:
  \<comment> \<open>after one space, a word with another first letter\<close>
  assumes "\<not> is_white_space x" and "ascii_upper x \<noteq> ascii_upper (cu k)"
  shows "refuses (seqs (Plus SpaceChar # word (k # w) # q # rs)) (32 # x # s)"
proof -
  have "word (k # w) = One (Folded (cu k)) \<or> (\<exists>r. word (k # w) = Seq (One (Folded (cu k))) r)"
    by (cases w) (simp_all add: word_def)
  moreover have "is_white_space 32" by (simp add: is_white_space_def)
  ultimately show ?thesis using assms by (auto simp: refuses_def)
qed

fun ends :: "re \<Rightarrow> bool" where
  "ends End = True"
| "ends (Seq r s) = ends s"
| "ends _ = False"

lemma results_at_end: "ends r \<Longrightarrow> st' \<in> set (results r st) \<Longrightarrow> snd (fst st') = []"
proof (induction r arbitrary: st)
  case (Seq r s)
  then show ?case unfolding results_Seq by auto
next
  case End
  then show ?case by (cases st) (auto split: if_splits)
qed simp_all

end
