(* ===== verification/Sql.thy ===== *)
theory Sql
  imports Regex RelSchema Query
begin

text \<open>
  The statement parser \<open>client/relational/sql.ts\<close>: one regular expression per statement, the quote-aware
  list splitter, and the literals. Group numbers are those of the source. A text that does not match
  throws a \<open>QueryError\<close>, a value of the error sum.
\<close>

section \<open>String operations\<close>

definition upper_unit :: "code_unit \<Rightarrow> jstr" where
  \<comment> \<open>upper case of a code unit. Units whose upper case holds no ASCII are kept: the results are only ever
      compared with ASCII texts\<close>
  "upper_unit c =
     (if 97 \<le> c \<and> c \<le> 122 then [c - 32]
      else case map_of [(0xDF, [83, 83]), (0x131, [73]), (0x17F, [83]), (0x149, [0x2BC, 78]), (0x1F0, [74, 0x30C]),
          (0x1E96, [72, 0x331]), (0x1E97, [84, 0x308]), (0x1E98, [87, 0x30A]), (0x1E99, [89, 0x30A]), (0x1E9A, [65, 0x2BE]),
          (0xFB00, [70, 70]), (0xFB01, [70, 73]), (0xFB02, [70, 76]), (0xFB03, [70, 70, 73]), (0xFB04, [70, 70, 76]),
          (0xFB05, [83, 84]), (0xFB06, [83, 84])] c of Some u \<Rightarrow> u | None \<Rightarrow> [c])"

definition js_toUpperCase :: "jstr \<Rightarrow> jstr" where
  "js_toUpperCase s = concat (map upper_unit s)"

definition word_toLowerCase :: "jstr \<Rightarrow> jstr" where
  \<comment> \<open>\<open>toLowerCase\<close> of an ASCII text\<close>
  "word_toLowerCase s = map ascii_lower s"

function split_ws :: "jstr \<Rightarrow> jstr list" where
  \<comment> \<open>\<open>s.split(/\s+/)\<close>\<close>
  "split_ws s =
     (let r = dropWhile (\<lambda>c. \<not> is_white_space c) s
      in takeWhile (\<lambda>c. \<not> is_white_space c) s # (if r = [] then [] else split_ws (dropWhile is_white_space r)))"
  by pat_completeness auto
termination
proof (relation "measure length")
  fix s r :: jstr
  assume r: "r = dropWhile (\<lambda>c. \<not> is_white_space c) s" "r \<noteq> []"
  have "is_white_space (hd r)" using hd_dropWhile [of "\<lambda>c. \<not> is_white_space c" s] r by blast
  then have d: "dropWhile is_white_space r = dropWhile is_white_space (tl r)" using r(2) by (cases r) simp_all
  have "length (dropWhile is_white_space (tl r)) \<le> length (tl r)" by (rule length_dropWhile_le)
  moreover have "length (tl r) < length r" using r(2) by (cases r) simp_all
  moreover have "length r \<le> length s" unfolding r(1) by (rule length_dropWhile_le)
  ultimately show "(dropWhile is_white_space r, s) \<in> measure length" unfolding in_measure d by linarith
qed simp

declare split_ws.simps [simp del]

definition grp :: "(nat \<rightharpoonup> jstr) \<Rightarrow> nat \<Rightarrow> jstr" where
  \<comment> \<open>a group that every match records\<close>
  "grp m n = (case m n of Some s \<Rightarrow> s | None \<Rightarrow> [])"

definition nonempty :: "jstr option \<Rightarrow> jstr option" where
  \<comment> \<open>\<open>s ? s : undefined\<close>\<close>
  "nonempty s = (if s = Some [] then None else s)"

section \<open>Classification\<close>

datatype statement_kind = SelectStmt | InsertStmt | UpdateStmt | DeleteStmt | CreateStmt

definition classifyStatement :: "jstr \<Rightarrow> statement_kind res" where
  "classifyStatement sql =
     (let head = js_toUpperCase (takeWhile (\<lambda>c. \<not> is_white_space c) (js_trim sql)) in
      if head = lit ''SELECT'' then Inr SelectStmt
      else if head = lit ''INSERT'' then Inr InsertStmt
      else if head = lit ''UPDATE'' then Inr UpdateStmt
      else if head = lit ''DELETE'' then Inr DeleteStmt
      else if head = lit ''CREATE'' then Inr CreateStmt
      else Inl (QueryError (lit ''unsupported statement: '' @ take 32 sql)))"

section \<open>SELECT\<close>

definition ws :: re where
  "ws = Plus SpaceChar"

definition ows :: re where
  "ows = Star SpaceChar"

definition ident :: re where
  \<comment> \<open>\<open>\w+\<close>\<close>
  "ident = Plus WordChar"

definition op_re :: re where
  \<comment> \<open>\<open>=|!=|>=|<=|>|<\<close>\<close>
  "op_re = alts [exact ''='', exact ''!='', exact ''>='', exact ''<='', exact ''>'', exact ''<'']"

definition val_re :: re where
  \<comment> \<open>\<open>'[^']*'|\d+(?:\.\d+)?\<close>\<close>
  "val_re = Alt (seqs [One (Exactly 39), Star (Except 39), One (Exactly 39)])
     (Seq (Plus DigitChar) (Opt (Seq (One (Exactly 46)) (Plus DigitChar))))"

definition where_re :: "nat \<Rightarrow> re list" where
  \<comment> \<open>\<open>\s+WHERE\s+(\w+)\s*(...)\s*(...)\<close>, with its three groups numbered from \<open>n\<close>\<close>
  "where_re n = [ws, word ''WHERE'', ws, Cap n ident, ows, Cap (n + 1) op_re, ows, Cap (n + 2) val_re]"

definition tail_re :: "re list" where
  \<comment> \<open>\<open>\s*;?$\<close>\<close>
  "tail_re = [ows, Opt (One (Exactly 59)), End]"

definition limit_re :: "nat \<Rightarrow> re" where
  "limit_re n = Opt (seqs [ws, word ''LIMIT'', ws, Cap n (Plus DigitChar)])"

definition select_re :: re where
  "select_re = seqs ([word ''SELECT'', ws, Cap 1 (LazyPlus Dot), ws, word ''FROM'', ws, Cap 2 ident, Opt (seqs (where_re 3)),
     Opt (seqs [ws, word ''ORDER'', ws, word ''BY'', ws, Cap 6 ident, Opt (seqs [ws, Cap 7 (Alt (word ''ASC'') (word ''DESC''))])]),
     limit_re 8] @ tail_re)"

datatype projection = AllColumns | Columns "jstr list"

record parsed_where =
  whereCol :: "jstr option"
  whereOp :: "jstr option"
  whereVal :: jsval

record parsed_select = parsed_where +
  s_table :: jstr
  s_columns :: projection
  s_orderCol :: "jstr option"
  s_orderDir :: "order_dir option"
  s_limit :: "jsnum option"

definition parse_columns :: "jstr \<Rightarrow> projection" where
  "parse_columns raw =
     (let colsRaw = js_trim raw in
      if colsRaw = lit ''*'' then AllColumns else Columns (map js_trim (split_char 44 colsRaw)))"

definition literal_value :: "jstr \<Rightarrow> jsval" where
  \<comment> \<open>\<open>raw.startsWith("'") ? raw.slice(1, -1) : Number(raw)\<close>\<close>
  "literal_value raw = (if take 1 raw = [39] then Str (butlast (drop 1 raw)) else Num (string_to_num raw))"

definition optional_value :: "jstr option \<Rightarrow> jsval" where
  "optional_value raw = (case raw of None \<Rightarrow> Undefined | Some r \<Rightarrow> literal_value r)"

definition parseSelect :: "jstr \<Rightarrow> parsed_select res" where
  "parseSelect sql =
     (case re_exec select_re (js_trim sql) of
        None \<Rightarrow> Inl (QueryError (lit ''unsupported SELECT: '' @ sql))
      | Some m \<Rightarrow> Inr \<lparr>whereCol = m 3, whereOp = nonempty (m 4), whereVal = optional_value (m 5),
          s_table = grp m 2, s_columns = parse_columns (grp m 1), s_orderCol = m 6,
          s_orderDir = (case nonempty (m 7) of
              Some d \<Rightarrow> Some (if word_toLowerCase d = lit ''asc'' then Asc else Desc)
            | None \<Rightarrow> (case nonempty (m 6) of Some _ \<Rightarrow> Some Asc | None \<Rightarrow> None)),
          s_limit = map_option string_to_num (nonempty (m 8))\<rparr>)"

definition isCountStar :: "projection \<Rightarrow> bool" where
  "isCountStar p = (case p of AllColumns \<Rightarrow> False
     | Columns cs \<Rightarrow> length cs = 1 \<and> js_toUpperCase (hd cs) = lit ''COUNT(*)'')"

section \<open>Lists and literals\<close>

function split_loop :: "jstr \<Rightarrow> jstr list \<Rightarrow> jstr \<Rightarrow> bool \<Rightarrow> jstr list \<times> jstr \<times> bool" where
  "split_loop [] parts cur inStr = (parts, cur, inStr)"
| "split_loop (ch # rest) parts cur inStr =
     (if ch = 39 then
        if inStr \<and> take 1 rest = [39] then split_loop (drop 1 rest) parts (cur @ [39, 39]) inStr
        else split_loop rest parts (cur @ [ch]) (\<not> inStr)
      else if ch = 44 \<and> \<not> inStr then split_loop rest (parts @ [js_trim cur]) [] inStr
      else split_loop rest parts (cur @ [ch]) inStr)"
  by pat_completeness auto
termination
  by (relation "measure (\<lambda>(s, parts, cur, q). length s)") auto

definition splitList :: "jstr \<Rightarrow> jstr list res" where
  "splitList raw =
     (case split_loop raw [] [] False of (parts, cur, inStr) \<Rightarrow>
        if inStr then Inl (QueryError (lit ''unterminated string in: '' @ raw))
        else Inr (filter (\<lambda>p. p \<noteq> []) (parts @ [js_trim cur])))"

fun unescape :: "jstr \<Rightarrow> jstr" where
  \<comment> \<open>\<open>s.replace(/''/g, "'")\<close>\<close>
  "unescape [] = []"
| "unescape [c] = [c]"
| "unescape (c # d # s) = (if c = 39 \<and> d = 39 then 39 # unescape s else c # unescape (d # s))"

definition number_re :: re where
  \<comment> \<open>\<open>^-?\d+(\.\d+)?$\<close>\<close>
  "number_re = seqs [Opt (One (Exactly 45)), Plus DigitChar, Opt (Seq (One (Exactly 46)) (Plus DigitChar)), End]"

definition parseLiteral :: "jstr \<Rightarrow> jsval res" where
  "parseLiteral raw =
     (let t = js_trim raw in
      if 2 \<le> length t \<and> hd t = 39 \<and> last t = 39 then Inr (Str (unescape (butlast (drop 1 t))))
      else let up = js_toUpperCase t in
        if up = lit ''NULL'' then Inr Null
        else if up = lit ''TRUE'' then Inr (Bool True)
        else if up = lit ''FALSE'' then Inr (Bool False)
        else if re_exec number_re t \<noteq> None then Inr (Num (string_to_num t))
        else Inl (QueryError (lit ''bad literal: '' @ raw)))"

section \<open>INSERT, UPDATE, DELETE\<close>

record parsed_insert =
  i_table :: jstr
  i_columns :: "jstr list"
  i_values :: "jsval list"

definition paren_re :: "nat \<Rightarrow> re list" where
  \<comment> \<open>\<open>\(([^)]+)\)\<close>\<close>
  "paren_re n = [One (Exactly 40), Cap n (Plus (Except 41)), One (Exactly 41)]"

definition insert_re :: re where
  "insert_re = seqs ([word ''INSERT'', ws, word ''INTO'', ws, Cap 1 ident, ows] @ paren_re 2
     @ [ws, word ''VALUES'', ows] @ paren_re 3 @ tail_re)"

definition parseInsert :: "jstr \<Rightarrow> parsed_insert res" where
  "parseInsert sql =
     (case re_exec insert_re (js_trim sql) of
        None \<Rightarrow> Inl (QueryError (lit ''unsupported INSERT: '' @ sql))
      | Some m \<Rightarrow>
          res_bind (splitList (grp m 2)) (\<lambda>cs. let columns = map js_trim cs in
          res_bind (splitList (grp m 3)) (\<lambda>vs.
          res_bind (res_map parseLiteral vs) (\<lambda>values.
            if columns = [] \<or> length columns \<noteq> length values
            then Inl (QueryError (lit ''column/value count mismatch in: '' @ sql))
            else Inr \<lparr>i_table = grp m 1, i_columns = columns, i_values = values\<rparr>))))"

record parsed_update = parsed_where +
  u_table :: jstr
  u_sets :: "(jstr \<times> jsval) list"

definition update_re :: re where
  "update_re = seqs ([word ''UPDATE'', ws, Cap 1 ident, ws, word ''SET'', ws, Cap 2 (LazyPlus Dot)] @ where_re 3 @ tail_re)"

definition parse_assignment :: "jstr \<Rightarrow> (jstr \<times> jsval) res" where
  "parse_assignment assign =
     (case split_char 61 assign of
        [c, v] \<Rightarrow> res_bind (parseLiteral v) (\<lambda>value. Inr (js_trim c, value))
      | _ \<Rightarrow> Inl (QueryError (lit ''bad SET assignment: '' @ assign)))"

definition unescaped_value :: "jstr \<Rightarrow> jsval" where
  \<comment> \<open>\<open>raw.startsWith("'") ? raw.slice(1, -1).replace(/''/g, "'") : Number(raw)\<close>\<close>
  "unescaped_value raw =
     (if take 1 raw = [39] then Str (unescape (butlast (drop 1 raw))) else Num (string_to_num raw))"

definition parseUpdate :: "jstr \<Rightarrow> parsed_update res" where
  "parseUpdate sql =
     (case re_exec update_re (js_trim sql) of
        None \<Rightarrow> Inl (QueryError (lit ''unsupported UPDATE (WHERE is required): '' @ sql))
      | Some m \<Rightarrow>
          res_bind (splitList (grp m 2)) (\<lambda>items.
          res_bind (res_map parse_assignment items) (\<lambda>sets.
            if sets = [] then Inl (QueryError (lit ''empty SET in: '' @ sql))
            else Inr \<lparr>whereCol = m 3, whereOp = m 4, whereVal = unescaped_value (grp m 5), u_table = grp m 1, u_sets = sets\<rparr>)))"

record parsed_delete = parsed_where +
  d_table :: jstr

definition delete_re :: re where
  "delete_re = seqs ([word ''DELETE'', ws, word ''FROM'', ws, Cap 1 ident] @ where_re 2 @ tail_re)"

definition parseDelete :: "jstr \<Rightarrow> parsed_delete res" where
  "parseDelete sql =
     (case re_exec delete_re (js_trim sql) of
        None \<Rightarrow> Inl (QueryError (lit ''unsupported DELETE (WHERE is required): '' @ sql))
      | Some m \<Rightarrow> Inr \<lparr>whereCol = m 2, whereOp = m 3, whereVal = unescaped_value (grp m 4), d_table = grp m 1\<rparr>)"

section \<open>CREATE TABLE\<close>

definition COLUMN_TYPES :: "(jstr \<times> relational_type) list" where
  "COLUMN_TYPES = [(lit ''BOOL'', TBool), (lit ''INT8'', TInt8), (lit ''INT16'', TInt16), (lit ''INT32'', TInt32),
     (lit ''INT64'', TInt64), (lit ''UINT8'', TUint8), (lit ''UINT16'', TUint16), (lit ''UINT32'', TUint32),
     (lit ''FLOAT32'', TFloat32), (lit ''FLOAT64'', TFloat64), (lit ''STRING'', TString), (lit ''BYTES'', TBytes),
     (lit ''TIMESTAMP_MS'', TTimestampMs)]"

record parsed_create =
  c_table :: jstr
  c_columns :: "column_def list"

definition create_re :: re where
  "create_re = seqs ([word ''CREATE'', ws, word ''TABLE'', ws, Cap 1 ident, ows] @ paren_re 2 @ tail_re)"

definition has_words :: "string \<Rightarrow> string \<Rightarrow> jstr \<Rightarrow> bool" where
  \<comment> \<open>\<open>/\bA\s+B\b/.test(s)\<close>\<close>
  "has_words a b s = re_search (seqs [Boundary, exact a, ws, exact b, Boundary]) None s"

definition parse_column :: "jstr \<Rightarrow> column_def res" where
  "parse_column def =
     (case split_ws (js_trim def) of
        name # type # flags \<Rightarrow>
          (case map_of COLUMN_TYPES (js_toUpperCase type) of
             None \<Rightarrow> Inl (QueryError (lit ''unknown column type in: '' @ def))
           | Some ty \<Rightarrow>
               let rest = js_toUpperCase (join_with (lit '' '') flags);
                   pk = has_words ''PRIMARY'' ''KEY'' rest;
                   uniq = (re_search (seqs [Boundary, exact ''UNIQUE'', Boundary]) None rest \<or> pk);
                   nulls = (\<not> pk \<and> \<not> has_words ''NOT'' ''NULL'' rest)
               in Inr \<lparr>col_name = name, col_type = ty, nullable = Some nulls, primaryKey = Some pk, unique = Some uniq,
                    defaultValue = Undefined\<rparr>)
      | _ \<Rightarrow> Inl (QueryError (lit ''bad column def: '' @ def)))"

definition parseCreateTable :: "jstr \<Rightarrow> parsed_create res" where
  "parseCreateTable sql =
     (case re_exec create_re (js_trim sql) of
        None \<Rightarrow> Inl (QueryError (lit ''unsupported CREATE TABLE: '' @ sql))
      | Some m \<Rightarrow>
          res_bind (splitList (grp m 2)) (\<lambda>defs.
          res_bind (res_map parse_column defs) (\<lambda>columns.
            if columns = [] then Inl (QueryError (lit ''no columns in: '' @ sql))
            else Inr \<lparr>c_table = grp m 1, c_columns = columns\<rparr>)))"

section \<open>JOIN\<close>

record parsed_join = parsed_where +
  j_columns :: projection
  j_left :: jstr
  j_right :: jstr
  leftKey :: jstr
  rightKey :: jstr
  j_limit :: "jsnum option"

definition join_re :: re where
  "join_re = seqs ([word ''SELECT'', ws, Cap 1 (LazyPlus Dot), ws, word ''FROM'', ws, Cap 2 ident, ws, word ''JOIN'', ws, Cap 3 ident,
     ws, word ''ON'', ws, Cap 4 ident, One (Exactly 46), Cap 5 ident, ows, One (Exactly 61), ows,
     Cap 6 ident, One (Exactly 46), Cap 7 ident, Opt (seqs (where_re 8)), limit_re 11] @ tail_re)"

definition parseJoin :: "jstr \<Rightarrow> parsed_join res" where
  "parseJoin sql =
     (case re_exec join_re (js_trim sql) of
        None \<Rightarrow> Inl (QueryError (lit ''unsupported JOIN: '' @ sql))
      | Some m \<Rightarrow>
          if word_toLowerCase (grp m 4) \<noteq> word_toLowerCase (grp m 2) \<or> word_toLowerCase (grp m 6) \<noteq> word_toLowerCase (grp m 3)
          then Inl (QueryError (lit ''JOIN tables mismatch in: '' @ sql))
          else Inr \<lparr>whereCol = m 8, whereOp = nonempty (m 9), whereVal = optional_value (m 10),
            j_columns = parse_columns (grp m 1), j_left = grp m 2, j_right = grp m 3, leftKey = grp m 5, rightKey = grp m 7,
            j_limit = map_option string_to_num (nonempty (m 11))\<rparr>)"

end
