(* ===== verification/Executor.thy ===== *)
theory Executor
  imports Sql Aggregate Database
begin

text \<open>
  \<open>client/relational/executor.ts\<close>: parsed statements run against a catalog. Reads return rows or throw;
  \<open>executeSql\<close> also passes the catalog it leaves. UPDATE and DELETE collect the matching rows first and
  write them one by one, so a throw leaves the rows before it written.
\<close>

section \<open>Statements\<close>

definition singleWhere :: "jstr option \<Rightarrow> jstr option \<Rightarrow> jsval \<Rightarrow> where_clause option" where
  "singleWhere col glyph v =
     (case (nonempty col, nonempty glyph) of
        (Some c, Some g) \<Rightarrow>
          if g = lit ''='' then Some [(c, Cond (no_condition\<lparr>c_eq := v\<rparr>))]
          else if g = lit ''!='' then Some [(c, Cond (no_condition\<lparr>c_ne := v\<rparr>))]
          else if g = lit ''>'' then Some [(c, Cond (no_condition\<lparr>c_gt := v\<rparr>))]
          else if g = lit ''>='' then Some [(c, Cond (no_condition\<lparr>c_gte := v\<rparr>))]
          else if g = lit ''<'' then Some [(c, Cond (no_condition\<lparr>c_lt := v\<rparr>))]
          else if g = lit ''<='' then Some [(c, Cond (no_condition\<lparr>c_lte := v\<rparr>))]
          else None
      | _ \<Rightarrow> None)"

abbreviation plan_where :: "'a parsed_where_scheme \<Rightarrow> where_clause option" where
  "plan_where p \<equiv> singleWhere (whereCol p) (whereOp p) (whereVal p)"

definition plan_query :: "parsed_select \<Rightarrow> query" where
  \<comment> \<open>the query without projection, order and limit\<close>
  "plan_query plan = (case plan_where plan of None \<Rightarrow> new_QueryBuilder | Some w \<Rightarrow> q_where w new_QueryBuilder)"

definition executeSelect :: "database \<Rightarrow> jstr \<Rightarrow> row list res" where
  "executeSelect db sql =
     res_bind (parseSelect sql) (\<lambda>plan.
     res_bind (db_table db (s_table plan)) (\<lambda>t.
       let q = plan_query plan in
       if isCountStar (s_columns plan) then Inr [[lit ''count'' \<mapsto> Num (int_num (int (q_count q t)))]]
       else let q1 = (case s_columns plan of AllColumns \<Rightarrow> q | Columns cs \<Rightarrow> q_select cs q);
                q2 = (case nonempty (s_orderCol plan) of None \<Rightarrow> q1
                      | Some c \<Rightarrow> q_orderBy c (case s_orderDir plan of Some d \<Rightarrow> d | None \<Rightarrow> Asc) q1);
                q3 = (case s_limit plan of None \<Rightarrow> q2 | Some n \<Rightarrow> q_limit n q2)
            in Inr (q_all q3 t)))"

definition executeJoin :: "database \<Rightarrow> jstr \<Rightarrow> row list res" where
  "executeJoin db sql =
     res_bind (parseJoin sql) (\<lambda>plan.
     res_bind (db_table db (j_left plan)) (\<lambda>l.
     res_bind (db_table db (j_right plan)) (\<lambda>r.
       let rs = map (\<lambda>j. left j ++ right j) (hashJoin l r (leftKey plan) (rightKey plan));
           rs1 = (case plan_where plan of None \<Rightarrow> rs | Some w \<Rightarrow> filter (\<lambda>r. matchesWhere r (Some w)) rs);
           rs2 = (case j_columns plan of AllColumns \<Rightarrow> rs1 | Columns cs \<Rightarrow> map (project cs) rs1)
       in Inr (case j_limit plan of None \<Rightarrow> rs2 | Some n \<Rightarrow> slice_to rs2 n))))"

datatype sql_result =
    SelectRows "row list"
  | JoinRows "row list"
  | Inserted nat
  | Updated nat
  | Deleted nat
  | Created jstr

definition mentions_join :: "jstr \<Rightarrow> bool" where
  \<comment> \<open>\<open>/\bJOIN\b/i.test(sql)\<close>\<close>
  "mentions_join sql = re_search (seqs [Boundary, word ''JOIN'', Boundary]) None sql"

definition insert_row :: "parsed_insert \<Rightarrow> row" where
  "insert_row plan = foldl (\<lambda>r (c, v). r(c \<mapsto> v)) Map.empty (zip (i_columns plan) (i_values plan))"

definition update_patch :: "parsed_update \<Rightarrow> row" where
  "update_patch plan = foldl (\<lambda>p (c, v). p(c \<mapsto> v)) Map.empty (u_sets plan)"

fun update_loop :: "jstr \<Rightarrow> row \<Rightarrow> row list \<Rightarrow> nat \<Rightarrow> (table, nat) action" where
  "update_loop pkCol patch [] n t = (Inr n, t)"
| "update_loop pkCol patch (r # rs) n t =
     (case tbl_update (row_get r pkCol) patch t of
        (Inl e, t') \<Rightarrow> (Inl e, t')
      | (Inr res, t') \<Rightarrow> update_loop pkCol patch rs (if res \<noteq> None then n + 1 else n) t')"

fun delete_loop :: "jstr \<Rightarrow> row list \<Rightarrow> nat \<Rightarrow> (table, nat) action" where
  "delete_loop pkCol [] n t = (Inr n, t)"
| "delete_loop pkCol (r # rs) n t =
     (case tbl_delete (row_get r pkCol) t of
        (Inl e, t') \<Rightarrow> (Inl e, t')
      | (Inr gone, t') \<Rightarrow> delete_loop pkCol rs (if gone then n + 1 else n) t')"

definition tagged :: "('a \<Rightarrow> 'b) \<Rightarrow> 'a res \<times> 's \<Rightarrow> 'b res \<times> 's" where
  "tagged f x = (case x of (Inl e, s) \<Rightarrow> (Inl e, s) | (Inr a, s) \<Rightarrow> (Inr (f a), s))"

definition run_insert :: "parsed_insert \<Rightarrow> (database, sql_result) action" where
  "run_insert plan db = tagged (\<lambda>_. Inserted 1) (db_on (i_table plan) (tbl_insert (insert_row plan)) db)"

definition run_update :: "parsed_update \<Rightarrow> (database, sql_result) action" where
  "run_update plan db =
     tagged Updated (db_on (u_table plan) (\<lambda>t. update_loop (primaryKeyName (schema_of t)) (update_patch plan)
       (tbl_scan t (plan_where plan)) 0 t) db)"

definition run_delete :: "parsed_delete \<Rightarrow> (database, sql_result) action" where
  "run_delete plan db =
     tagged Deleted (db_on (d_table plan) (\<lambda>t. delete_loop (primaryKeyName (schema_of t))
       (tbl_scan t (plan_where plan)) 0 t) db)"

definition run_create :: "parsed_create \<Rightarrow> (database, sql_result) action" where
  "run_create plan db = tagged (\<lambda>_. Created (c_table plan)) (db_createTable (c_table plan) (c_columns plan) db)"

definition executeSql :: "jstr \<Rightarrow> (database, sql_result) action" where
  "executeSql sql db =
     (case classifyStatement sql of
        Inl e \<Rightarrow> (Inl e, db)
      | Inr SelectStmt \<Rightarrow>
          (if mentions_join sql then tagged JoinRows (executeJoin db sql, db)
           else tagged SelectRows (executeSelect db sql, db))
      | Inr CreateStmt \<Rightarrow> (case parseCreateTable sql of Inl e \<Rightarrow> (Inl e, db) | Inr plan \<Rightarrow> run_create plan db)
      | Inr InsertStmt \<Rightarrow> (case parseInsert sql of Inl e \<Rightarrow> (Inl e, db) | Inr plan \<Rightarrow> run_insert plan db)
      | Inr UpdateStmt \<Rightarrow> (case parseUpdate sql of Inl e \<Rightarrow> (Inl e, db) | Inr plan \<Rightarrow> run_update plan db)
      | Inr DeleteStmt \<Rightarrow> (case parseDelete sql of Inl e \<Rightarrow> (Inl e, db) | Inr plan \<Rightarrow> run_delete plan db))"

definition executeQuery :: "database \<Rightarrow> jstr \<Rightarrow> row list res" where
  "executeQuery db sql = (if mentions_join sql then executeJoin db sql else executeSelect db sql)"

section \<open>Invariants\<close>

lemma snd_tagged [simp]: "snd (tagged f x) = snd x"
  by (cases x; cases "fst x") (auto simp: tagged_def)

lemma update_loop_wf: "wf_table t \<Longrightarrow> wf_table (snd (update_loop c p rs n t)) \<and> schema_of (snd (update_loop c p rs n t)) = schema_of t"
proof (induction rs arbitrary: n t)
  case (Cons r rs)
  obtain res t' where u: "tbl_update (row_get r c) p t = (res, t')" by (cases "tbl_update (row_get r c) p t")
  have "wf_table t'" "schema_of t' = schema_of t"
    using wf_table_update [OF Cons.prems, of "row_get r c" p] schema_of_methods u by (metis snd_conv)+
  then show ?case using Cons.IH [of t'] by (cases res) (simp_all add: u)
qed simp

lemma delete_loop_wf: "wf_table t \<Longrightarrow> wf_table (snd (delete_loop c rs n t)) \<and> schema_of (snd (delete_loop c rs n t)) = schema_of t"
proof (induction rs arbitrary: n t)
  case (Cons r rs)
  obtain res t' where u: "tbl_delete (row_get r c) t = (res, t')" by (cases "tbl_delete (row_get r c) t")
  have "wf_table t'" "schema_of t' = schema_of t"
    using wf_table_delete [OF Cons.prems, of "row_get r c"] schema_of_methods u by (metis snd_conv)+
  then show ?case using Cons.IH [of t'] by (cases res) (simp_all add: u)
qed simp

lemma executeSql_cases:
  obtains r where "executeSql sql db = (r, db)"
  | plan where "classifyStatement sql = Inr CreateStmt" "parseCreateTable sql = Inr plan" "executeSql sql db = run_create plan db"
  | plan where "classifyStatement sql = Inr InsertStmt" "parseInsert sql = Inr plan" "executeSql sql db = run_insert plan db"
  | plan where "classifyStatement sql = Inr UpdateStmt" "parseUpdate sql = Inr plan" "executeSql sql db = run_update plan db"
  | plan where "classifyStatement sql = Inr DeleteStmt" "parseDelete sql = Inr plan" "executeSql sql db = run_delete plan db"
proof (cases "classifyStatement sql")
  case (Inl e)
  then show ?thesis using that(1) by (simp add: executeSql_def)
next
  case (Inr k)
  show ?thesis
  proof (cases k)
    case SelectStmt
    then have "snd (executeSql sql db) = db" using Inr by (simp add: executeSql_def)
    then show ?thesis using that(1) by (metis prod.collapse)
  next
    case InsertStmt
    then show ?thesis using Inr that(1,3) by (cases "parseInsert sql") (simp_all add: executeSql_def)
  next
    case UpdateStmt
    then show ?thesis using Inr that(1,4) by (cases "parseUpdate sql") (simp_all add: executeSql_def)
  next
    case DeleteStmt
    then show ?thesis using Inr that(1,5) by (cases "parseDelete sql") (simp_all add: executeSql_def)
  next
    case CreateStmt
    then show ?thesis using Inr that(1,2) by (cases "parseCreateTable sql") (simp_all add: executeSql_def)
  qed
qed

lemma wf_executeSql: "wf_db db \<Longrightarrow> wf_db (snd (executeSql sql db))"
proof (cases rule: executeSql_cases [of sql db])
  case (2 plan)
  then show "wf_db db \<Longrightarrow> wf_db (snd (executeSql sql db))" by (simp add: run_create_def wf_db_createTable)
next
  case (3 plan)
  then show "wf_db db \<Longrightarrow> wf_db (snd (executeSql sql db))" by (simp add: run_insert_def wf_db_on wf_table_insert)
next
  case (4 plan)
  then show "wf_db db \<Longrightarrow> wf_db (snd (executeSql sql db))" by (simp add: run_update_def wf_db_on update_loop_wf)
next
  case (5 plan)
  then show "wf_db db \<Longrightarrow> wf_db (snd (executeSql sql db))" by (simp add: run_delete_def wf_db_on delete_loop_wf)
qed simp

end
