(* ===== verification/DbProps.thy ===== *)
theory DbProps
  imports Transaction TableSpec Executor
begin

text \<open>
  Properties of the catalog (\<open>database.ts\<close>, \<open>persist.ts\<close>, \<open>validator.ts\<close>) and of batches of writes
  (\<open>transaction.ts\<close>): the invariant of every reachable database, idempotent booting, the decision the
  foreign-key check makes, and what a commit guarantees and does not.
\<close>

datatype db_op =
    CreateTable jstr "column_def list"
  | DropTable jstr
  | OnTable jstr table_op
  | Boot "(jstr \<times> column_def list) list"
  | Commit "tx_op list"
  | Statement jstr

fun db_step :: "db_op \<Rightarrow> database \<Rightarrow> database" where
  "db_step (CreateTable n cols) db = snd (db_createTable n cols db)"
| "db_step (DropTable n) db = snd (db_dropTable n db)"
| "db_step (OnTable n op) db = snd (db_on n (table_step op) db)"
| "db_step (Boot defs) db = snd (bootCatalog defs db)"
| "db_step (Commit ops) db = snd (snd (tx_commit (ops, db)))"
| "db_step (Statement sql) db = snd (executeSql sql db)"

inductive reachable_db :: "database \<Rightarrow> bool" where
  empty: "reachable_db new_RelationalDatabase"
| step: "reachable_db db \<Longrightarrow> reachable_db (db_step op db)"

lemma wf_db_step: "wf_db db \<Longrightarrow> wf_db (db_step op db)"
  by (cases op)
     (simp_all add: wf_db_createTable wf_db_dropTable wf_db_on wf_table_step wf_db_boot wf_tx_commit_db wf_executeSql)

lemma reachable_db_wf: "reachable_db db \<Longrightarrow> wf_db db"
  by (induction rule: reachable_db.induct) (simp_all add: wf_new_db wf_db_step)

definition ex_db :: database where
  "ex_db = \<lparr>tables = [(lit ''t'', ex_table)]\<rparr>"

lemma ex_db_reachable: "reachable_db ex_db"
proof -
  have "ex_db = db_step (CreateTable (lit ''t'') ex_columns) new_RelationalDatabase"
    by (simp add: ex_db_def new_RelationalDatabase_def db_createTable_def jm_has_def ex_table_new)
  then show ?thesis using reachable_db.intros by metis
qed

section \<open>Properties\<close>

text \<open>C2. Invariant of the database: after any sequence of creations, drops, table methods, boots,
  commits and SQL statements, failed ones included, names are distinct, every table is registered under its own name,
  every stored row satisfies its schema and is stored under its rendered key, and every secondary
  map is exact.\<close>

theorem database_invariant:
  assumes "reachable_db db"
  shows "distinct (db_listTables db)
    \<and> (\<forall>n t. db_table db n = Inr t \<longrightarrow> tableName (schema_of t) = n \<and> wf_schema (schema_of t)
        \<and> jm_ok (rows t)
        \<and> (\<forall>k r. map_of (rows t) k = Some r \<longrightarrow> row_accepted (schema_of t) r
              \<and> encodePk (row_get r (primaryKeyName (schema_of t))) = Inr k)
        \<and> (\<forall>col m. (col, m) \<in> set (secondary t) \<longrightarrow> index_ok (rows t) col m))"
proof -
  have wf: "wf_db db" by (rule reachable_db_wf [OF assms])
  have "wf_table t \<and> tableName (schema_of t) = n" if "db_table db n = Inr t" for n t
    using wf that by (simp add: wf_db_def)
  moreover have "distinct (db_listTables db)" using wf by (simp add: wf_db_def db_listTables_def)
  ultimately show ?thesis unfolding wf_table_def row_ok_def row_accepted_ok by blast
qed

theorem database_invariant_witness: "distinct (db_listTables ex_db)"
  using database_invariant [OF ex_db_reachable] by (rule conjunct1)

text \<open>Booting is idempotent: a boot that succeeds leaves the tables already there untouched and in
  place, adds the missing ones after them, and running it again succeeds and changes nothing.\<close>

theorem boot_idempotent:
  assumes "bootCatalog defs db = (Inr u, db')"
  shows "bootCatalog defs db' = (Inr (), db')
    \<and> (\<exists>new. tables db' = tables db @ new)
    \<and> set (map fst defs) \<subseteq> set (db_listTables db')"
  using boot_ok [OF assms] boot_present [of defs db'] by (auto simp: jm_has_iff db_listTables_def)

lemma ex_boot: "is_ok (fst (bootCatalog [(lit ''t'', []), (lit ''u'', ex_columns)] ex_db))"
  by code_simp

theorem boot_idempotent_witness:
  "fst (bootCatalog [(lit ''t'', []), (lit ''u'', ex_columns)]
     (snd (bootCatalog [(lit ''t'', []), (lit ''u'', ex_columns)] ex_db))) = Inr ()"
proof -
  obtain u db' where b: "bootCatalog [(lit ''t'', []), (lit ''u'', ex_columns)] ex_db = (Inr u, db')"
    using ex_boot by (cases "bootCatalog [(lit ''t'', []), (lit ''u'', ex_columns)] ex_db") (auto simp: is_ok_def)
  show ?thesis using boot_idempotent [OF b] unfolding b by simp
qed

text \<open>The foreign-key check decides: it passes exactly when the parent table exists, the value can be
  rendered, and a row is stored under the rendered key.\<close>

theorem foreign_key_decides:
  "assertForeignKey db parent v = Inr () \<longleftrightarrow>
     (\<exists>t k. map_of (tables db) parent = Some t \<and> encodePk v = Inr k \<and> map_of (rows t) k \<noteq> None)"
  by (auto simp: assertForeignKey_def tbl_findByPk_def res_bind_eqs)

text \<open>C5. A commit rejected by the pre-check (unknown table, duplicate key) changes neither the database
  nor the buffer; one that succeeds has applied every operation in order and emptied the buffer; one
  that fails later leaves exactly the operations before the failing one applied, and keeps the
  buffer.\<close>

theorem commit_outcomes:
  "(case tx_commit (ops, db) of
      (Inl e, ops', db') \<Rightarrow> ops' = ops \<and>
        (precheck db ops [] = Inl e \<and> db' = db
         \<or> precheck db ops [] = Inr () \<and>
           (\<exists>pre op rest db1. ops = pre @ op # rest \<and> run_each apply_op pre db = (Inr (), db1)
              \<and> apply_op op db1 = (Inl e, db')))
    | (Inr _, ops', db') \<Rightarrow> ops' = [] \<and> precheck db ops [] = Inr ()
        \<and> run_each apply_op ops db = (Inr (), db'))"
proof -
  have fail: "\<exists>pre op rest db1. os = pre @ op # rest \<and> run_each apply_op pre d = (Inr (), db1)
      \<and> apply_op op db1 = (Inl e, d')" if "run_each apply_op os d = (Inl e, d')" for os d e d'
    using that
  proof (induction os arbitrary: d)
    case (Cons op os)
    show ?case
    proof (cases "apply_op op d")
      case (Pair r d1)
      show ?thesis
      proof (cases r)
        case (Inl e1)
        then have "apply_op op d = (Inl e, d')" using Cons.prems Pair by simp
        then show ?thesis by (intro exI [of _ "[]"] exI [of _ op] exI [of _ os] exI [of _ d]) simp
      next
        case (Inr u)
        then obtain pre p rest db1 where "os = pre @ p # rest" "run_each apply_op pre d1 = (Inr (), db1)"
          "apply_op p db1 = (Inl e, d')" using Cons.IH [of d1] Cons.prems Pair by auto
        then show ?thesis using Pair Inr
          by (intro exI [of _ "op # pre"] exI [of _ p] exI [of _ rest] exI [of _ db1]) simp
      qed
    qed
  qed simp
  show ?thesis
  proof (cases "precheck db ops []")
    case (Inl e)
    then show ?thesis by (simp add: tx_commit_def)
  next
    case ok: (Inr u)
    show ?thesis
    proof (cases "run_each apply_op ops db")
      case (Pair r db')
      then show ?thesis using ok fail [of ops db _ db'] by (cases r) (simp_all add: tx_commit_def)
    qed
  qed
qed

text \<open>C6. Atomicity of insert batches: when every operation inserts a valid row with a text, number or
  boolean key into an existing table, a commit either throws in the pre-check and changes nothing,
  or applies every insert.\<close>

theorem insert_batch_atomic:
  assumes "\<forall>op\<in>set ops. loadable db op"
  shows "(\<exists>e. tx_commit (ops, db) = (Inl e, ops, db))
    \<or> (\<exists>db'. tx_commit (ops, db) = (Inr (), [], db') \<and> run_each apply_op ops db = (Inr (), db'))"
proof (cases "precheck db ops []")
  case (Inl e)
  then show ?thesis by (simp add: tx_commit_def)
next
  case (Inr u)
  then obtain db' where "run_each apply_op ops db = (Inr (), db')"
    using loadable_batch [OF Inr assms same_catalog_refl] by blast
  then show ?thesis using Inr by (simp add: tx_commit_def)
qed

lemma ex_batch:
  "\<forall>op\<in>set [TxInsert (lit ''t'') (ex_row 1 ''a''), TxInsert (lit ''t'') (ex_row 2 ''b'')]. loadable ex_db op"
proof -
  have ok: "is_ok (validateRow (schema_of ex_table) (ex_row 1 ''a''))"
    "is_ok (validateRow (schema_of ex_table) (ex_row 2 ''b''))"
    "scalar_key (row_get (ex_row 1 ''a'') (primaryKeyName (schema_of ex_table)))"
    "scalar_key (row_get (ex_row 2 ''b'') (primaryKeyName (schema_of ex_table)))"
    by code_simp+
  have "map_of (tables ex_db) (lit ''t'') = Some ex_table" by (simp add: ex_db_def)
  then show ?thesis using ok by (simp add: loadable_def)
qed

theorem insert_batch_atomic_witness:
  "\<exists>r db'. tx_commit ([TxInsert (lit ''t'') (ex_row 1 ''a''), TxInsert (lit ''t'') (ex_row 2 ''b'')], ex_db) = (r, db')
     \<and> (is_ok r \<or> snd db' = ex_db)"
  using insert_batch_atomic [OF ex_batch] by (elim disjE exE conjE) simp_all

section \<open>A batch applied in part\<close>

definition bin_columns :: "column_def list" where
  "bin_columns =
     [\<lparr>col_name = lit ''id'', col_type = TBytes, nullable = None, primaryKey = Some True, unique = None,
        defaultValue = Undefined\<rparr>]"

definition bin_db :: database where
  \<comment> \<open>one row, under the byte key \<open>0a\<close>\<close>
  "bin_db = snd (db_on (lit ''b'') (tbl_insert [lit ''id'' \<mapsto> Bytes 0 [10]])
     (snd (db_createTable (lit ''b'') bin_columns new_RelationalDatabase)))"

definition bin_batch :: tx_buffer where
  "bin_batch = tx_insert (lit ''b'') [lit ''id'' \<mapsto> Bytes 2 [10]]
     (tx_insert (lit ''b'') [lit ''id'' \<mapsto> Bytes 1 [11]] [])"

definition row_counts :: "database \<Rightarrow> (jstr \<times> nat) list" where
  "row_counts db = map (\<lambda>(n, t). (n, tbl_count t)) (tables db)"

definition thrown :: "'a res \<Rightarrow> jstr option" where
  "thrown r = (case r of Inl e \<Rightarrow> Some (error_message e) | Inr _ \<Rightarrow> None)"

text \<open>A batch can be applied in part even if it only inserts: the pre-check looks the key up as
  \<open>String\<close> renders it, but byte keys are stored in hexadecimal, so a key already in the table passes
  it; the insert then throws, the insert before it stays applied, and the buffer is not cleared.\<close>

theorem byte_key_batch_partial:
  "row_counts bin_db = [(lit ''b'', 1)]
    \<and> precheck bin_db bin_batch [] = Inr ()
    \<and> thrown (fst (tx_commit (bin_batch, bin_db))) = Some (lit ''duplicate primary key '' @ quoted (lit ''0a''))
    \<and> row_counts (snd (snd (tx_commit (bin_batch, bin_db)))) = [(lit ''b'', 2)]
    \<and> length (fst (snd (tx_commit (bin_batch, bin_db)))) = 2"
proof (intro conjI)
  show "row_counts bin_db = [(lit ''b'', 1)]" by code_simp
  have "is_ok (precheck bin_db bin_batch [])" by code_simp
  then show "precheck bin_db bin_batch [] = Inr ()" by (auto simp: is_ok_def)
  show "thrown (fst (tx_commit (bin_batch, bin_db))) = Some (lit ''duplicate primary key '' @ quoted (lit ''0a''))"
    by code_simp
  show "row_counts (snd (snd (tx_commit (bin_batch, bin_db)))) = [(lit ''b'', 2)]" by code_simp
  show "length (fst (snd (tx_commit (bin_batch, bin_db)))) = 2" by code_simp
qed

end
