(* ===== verification/Reading.thy ===== *)
theory Reading
  imports TableSpec
begin

text \<open>
  What the readers of a table return: filters (\<open>filter.ts\<close>), ordering and paging (\<open>query.ts\<close>),
  aggregates (\<open>aggregation.ts\<close>), joins (\<open>join.ts\<close>), the scan lookup (\<open>secondary_index.ts\<close>) and
  the uniqueness check (\<open>constraints.ts\<close>).
\<close>

section \<open>LIKE as a segmentation\<close>

definition segment_ok :: "code_unit \<Rightarrow> jstr \<Rightarrow> bool" where
  \<comment> \<open>what one character of a pattern may cover\<close>
  "segment_ok ch seg \<longleftrightarrow>
     (if ch = cu CHR ''%'' then list_all (\<lambda>c. \<not> is_line_terminator c) seg
      else if ch = cu CHR ''_'' then (\<exists>c. seg = [c] \<and> \<not> is_line_terminator c)
      else seg = [ch])"

lemma re_match_segments:
  "re_match (map like_atom p) s \<longleftrightarrow> (\<exists>segs. s = concat segs \<and> list_all2 segment_ok p segs)"
proof (induction p arbitrary: s)
  case Nil
  then show ?case by auto
next
  case (Cons ch p)
  have seg: "(\<exists>segs. s = concat segs \<and> list_all2 segment_ok (ch # p) segs)
      \<longleftrightarrow> (\<exists>u v. s = u @ v \<and> segment_ok ch u \<and> re_match (map like_atom p) v)"
  proof
    assume "\<exists>segs. s = concat segs \<and> list_all2 segment_ok (ch # p) segs"
    then obtain u segs where "s = u @ concat segs" "segment_ok ch u" "list_all2 segment_ok p segs"
      by (auto simp: list_all2_Cons1)
    then show "\<exists>u v. s = u @ v \<and> segment_ok ch u \<and> re_match (map like_atom p) v"
      using Cons.IH by blast
  next
    assume "\<exists>u v. s = u @ v \<and> segment_ok ch u \<and> re_match (map like_atom p) v"
    then obtain u segs where "s = concat (u # segs)" "list_all2 segment_ok (ch # p) (u # segs)"
      using Cons.IH by auto
    then show "\<exists>segs. s = concat segs \<and> list_all2 segment_ok (ch # p) segs" by blast
  qed
  show ?case unfolding seg
  proof (cases "ch = cu CHR ''%''")
    case True
    then show "re_match (map like_atom (ch # p)) s
        \<longleftrightarrow> (\<exists>u v. s = u @ v \<and> segment_ok ch u \<and> re_match (map like_atom p) v)"
      by (simp add: like_atom_def segment_ok_def re_match_AnySeq)
  next
    case False
    have single: "(\<exists>u v. s = u @ v \<and> segment_ok ch u \<and> R v)
        \<longleftrightarrow> (\<exists>c v. s = c # v \<and> (if ch = cu CHR ''_'' then \<not> is_line_terminator c else c = ch) \<and> R v)" for R
      using False by (auto simp: segment_ok_def) (metis append_Cons append_Nil)+
    from False show "re_match (map like_atom (ch # p)) s
        \<longleftrightarrow> (\<exists>u v. s = u @ v \<and> segment_ok ch u \<and> re_match (map like_atom p) v)"
      unfolding single by (cases s) (simp_all add: like_atom_def)
  qed
qed

section \<open>Sorted output and pages\<close>

lemma order_cmp_zero:
  "order_cmp col dir a b = 0 \<longleftrightarrow> \<not> js_lt (row_get a col) (row_get b col) \<and> \<not> js_lt (row_get b col) (row_get a col)"
  by (cases dir) (auto simp: order_cmp_def Let_def)

lemma concat_map_if: "concat (map (\<lambda>x. if P x then [f x] else []) xs) = map f (filter P xs)"
  by (induction xs) simp_all

lemma concat_pages:
  assumes "length xs \<le> k * n"
  shows "concat (map (\<lambda>i. take n (drop (i * n) xs)) [0..<k]) = xs"
proof -
  have "concat (map (\<lambda>i. take n (drop (i * n) xs)) [0..<k]) = take (k * n) xs" for k
  proof (induction k)
    case (Suc k)
    then show ?case by (simp add: take_add [symmetric] add.commute)
  qed simp
  then show ?thesis using assms by simp
qed

definition is_excluded :: "table \<Rightarrow> jsval \<Rightarrow> row \<Rightarrow> bool" where
  \<comment> \<open>the row is the one whose update is being checked\<close>
  "is_excluded t excludePk r \<longleftrightarrow> excludePk \<noteq> Undefined
     \<and> js_String (row_get r (primaryKeyName (schema_of t))) = js_String excludePk"

section \<open>Properties\<close>

text \<open>C11. LIKE: the regular expression built from a pattern accepts a text exactly when the text splits
  into one segment per pattern character, \<open>%\<close> covering any run and \<open>_\<close> one code unit without line
  terminators, every other character (all the regular-expression syntax included) only itself.\<close>

theorem like_is_segmentation:
  "like_test (Str p) s \<longleftrightarrow> (\<exists>segs. s = concat segs \<and> list_all2 segment_ok p segs)"
  by (simp add: like_test_def likeToRegExp_atoms re_match_segments)

text \<open>A pattern of wildcards does not match every text: one line terminator in the value and LIKE
  \<open>'%'\<close> fails.\<close>

theorem like_percent_misses_newlines:
  "like_test (Str (lit ''%'')) s \<longleftrightarrow> list_all (\<lambda>c. \<not> is_line_terminator c) s"
proof -
  have "cu CHR ''%'' \<noteq> cu CHR ''_''" by (simp add: cu_def)
  then show ?thesis by (simp add: like_test_def likeToRegExp_atoms like_atom_def lit_def re_match_AnySeq)
qed

text \<open>C3. A scan returns, in insertion order, exactly the rows for which every column of the clause meets
  the meaning of its condition; the compiled predicate, its single-column shape and the \<open>Set\<close> built
  for long \<open>in\<close> lists change nothing.\<close>

theorem scan_returns_matching_rows:
  "tbl_scan t (Some w)
     = filter (\<lambda>r. list_all (\<lambda>(col, cond). where_spec cond (row_get r col)) w) (jm_values (rows t))"
  by (simp add: tbl_scan_def matchesWhere_def compilePerColumn_spec list_all_iff)



text \<open>Pages: reading a query in pages of \<open>n\<close> rows (\<open>offset(i * n).limit(n)\<close>) gives every row of the
  unpaged result exactly once and in order.\<close>

theorem pages_cover_result:
  assumes "length (q_all (q_orderBy col dir (q_where w new_QueryBuilder)) t) \<le> k * n"
  shows "concat (map (\<lambda>i. q_all (q_offset (int_num (int (i * n)))
        (q_limit (int_num (int n)) (q_orderBy col dir (q_where w new_QueryBuilder)))) t) [0..<k])
    = q_all (q_orderBy col dir (q_where w new_QueryBuilder)) t"
proof -
  let ?q = "q_orderBy col dir (q_where w new_QueryBuilder)"
  have sorted: "q_sorted (q_offset a (q_limit b ?q)) = q_sorted ?q" for a b
    by (rule ext) (simp add: q_sorted_def q_offset_def q_limit_def q_orderBy_def q_where_def new_QueryBuilder_def)
  have sel: "whereClause (q_offset a (q_limit b ?q)) = Some w" "limitN (q_offset a (q_limit b ?q)) = Some b"
    "offsetN (q_offset a (q_limit b ?q)) = a" "selectCols (q_offset a (q_limit b ?q)) = None"
    "whereClause ?q = Some w" "limitN ?q = None" "offsetN ?q = Fin 0" "selectCols ?q = None" for a b
    by (simp_all add: q_offset_def q_limit_def q_orderBy_def q_where_def new_QueryBuilder_def)
  let ?xs = "q_sorted ?q (tbl_scan t (Some w))"
  have base: "q_all ?q t = ?xs" by (simp add: q_all_def sel num_is_zero_def)
  have page: "q_all (q_offset (int_num (int m)) (q_limit (int_num (int n)) ?q)) t = take n (drop m ?xs)" for m
    by (cases "m = 0") (simp_all add: q_all_def sel sorted slice_nat [simplified] num_is_zero_def Let_def)
  show ?thesis unfolding page base by (rule concat_pages) (use assms base in simp)
qed

theorem pages_cover_result_witness:
  "concat (map (\<lambda>i. q_all (q_offset (int_num (int (i * 1)))
        (q_limit (int_num (int 1)) (q_orderBy (lit ''id'') Asc (q_where [] new_QueryBuilder)))) ex_table2) [0..<2])
    = q_all (q_orderBy (lit ''id'') Asc (q_where [] new_QueryBuilder)) ex_table2"
proof (rule pages_cover_result)
  show "length (q_all (q_orderBy (lit ''id'') Asc (q_where [] new_QueryBuilder)) ex_table2) \<le> 2 * 1" by code_simp
qed

text \<open>C25. Aggregates of a column whose numeric cells are integers with absolute values summing to at most
  \<open>2 ^ 53\<close> are exact: the sum, the minimum and the maximum of the integers, for any row count; the
  other cells are skipped, and the average is the one rounded division.\<close>

theorem integer_aggregates_exact:
  assumes "col \<noteq> []" and "numbers_in col rs = map int_num is" and "is \<noteq> []"
    and "sum_list (map abs is) \<le> 2 ^ 53"
  shows "aggregate rs AggSum (Some col) = Inr (int_num (sum_list is))
    \<and> aggregate rs AggMin (Some col) = Inr (int_num (Min (set is)))
    \<and> aggregate rs AggMax (Some col) = Inr (int_num (Max (set is)))
    \<and> aggregate rs AggAvg (Some col) = Inr (num_div (int_num (sum_list is)) (int_num (int (length is))))
    \<and> aggregate rs AggCount None = Inr (int_num (int (length rs)))"
proof -
  obtain i js where ij: "is = i # js" using assms(3) by (cases "is") auto
  note st = agg_state_of [OF assms(2) [unfolded ij list.map]]
  have part: "\<bar>sum_list (take k is)\<bar> \<le> 2 ^ 53" for k
  proof -
    have "\<bar>sum_list (take k is)\<bar> \<le> sum_list (map abs (take k is))" by (rule sum_list_abs)
    also have "\<dots> \<le> sum_list (map abs (take k is)) + sum_list (map abs (drop k is))"
      by (simp, rule sum_list_nonneg) auto
    also have "\<dots> = sum_list (map abs is)"
      by (metis append_take_drop_id map_append sum_list_append)
    finally show ?thesis using assms(4) by linarith
  qed
  have "foldl num_add (int_num 0) (map int_num is) = int_num (0 + sum_list is)"
    by (rule fold_num_add_int) (use part in simp_all)
  then have sum: "foldl num_add (num_add (Fin 0) (int_num i)) (map int_num js) = int_num (sum_list is)"
    by (simp add: ij)
  have mem: "int_num j \<in> int_num ` A \<longleftrightarrow> j \<in> A" for j A by auto
  have nan: "NaN \<notin> set (int_num i # map int_num js)" by auto
  have num: "num_le (int_num a) (int_num b) \<longleftrightarrow> a \<le> b" for a b by (auto simp: num_le_def)
  have min: "foldl min_step (int_num i) (map int_num js) = int_num (Min (set is))"
  proof -
    obtain m where m: "foldl min_step (int_num i) (map int_num js) = int_num m" "m \<in> set is"
      using fold_min_step [OF nan] by (auto simp: ij)
    then have "\<forall>a\<in>set is. m \<le> a" using fold_min_step [OF nan] by (simp add: ij num)
    then have "Min (set is) = m" using m(2) by (intro Min_eqI) auto
    then show ?thesis using m(1) by simp
  qed
  have max: "foldl max_step (int_num i) (map int_num js) = int_num (Max (set is))"
  proof -
    obtain m where m: "foldl max_step (int_num i) (map int_num js) = int_num m" "m \<in> set is"
      using fold_max_step [OF nan] by (auto simp: ij)
    then have "\<forall>a\<in>set is. a \<le> m" using fold_max_step [OF nan] by (simp add: ij num)
    then have "Max (set is) = m" using m(2) by (intro Max_eqI) auto
    then show ?thesis using m(1) by simp
  qed
  note vals = st(2) [unfolded sum] st(3) [unfolded min] st(4) [unfolded max]
  show ?thesis using assms(1)
    by (simp add: aggregate_def Let_def st(1) vals) (simp add: ij)
qed

theorem integer_aggregates_exact_witness:
  "aggregate [ex_row 5 ''a'', ex_row (- 2) ''b''] AggMin (Some (lit ''id'')) = Inr (int_num (- 2))"
proof -
  have "numbers_in (lit ''id'') [ex_row 5 ''a'', ex_row (- 2) ''b''] = map int_num [5, - 2]" by code_simp
  from integer_aggregates_exact [OF _ this] show ?thesis by simp
qed

text \<open>C26. The hash join returns exactly the pairs whose keys render to the same text, grouped by right row
  in scan order and, within one right row, left rows in scan order.\<close>

theorem hash_join_is_inner_join:
  "hashJoin l r leftKey rightKey =
     [\<lparr>left = ll, right = rr\<rparr>. rr \<leftarrow> tbl_scan r None, ll \<leftarrow> tbl_scan l None,
        js_String (row_get ll leftKey) = js_String (row_get rr rightKey)]"
  by (simp only: hashJoin_eq tbl_scan_None concat_map_if)

text \<open>The scan lookup by column returns the keys of the rows whose cell is strictly equal to the value,
  but a lookup of \<open>undefined\<close> builds a clause without a check and returns every key.\<close>

theorem lookup_by_column:
  "lookupByColumn t col v =
     map (\<lambda>r. js_String (row_get r (primaryKeyName (schema_of t))))
       (filter (\<lambda>r. v = Undefined \<or> strict_eq (row_get r col) v) (jm_values (rows t)))"
  by (simp add: lookupByColumn_def tbl_scan_def matchesWhere_def compilePerColumn_spec condition_spec_def
      operand_spec_def no_condition_def)

text \<open>The uniqueness check passes exactly when every row holding the value is the excluded one, and it
  throws nothing but the violation of that column.\<close>

theorem assert_unique_decides:
  "assertUnique t col v excludePk =
     (if list_ex (\<lambda>r. strict_eq (row_get r col) v
            \<and> \<not> is_excluded t excludePk r)
          (jm_values (rows t))
      then Inl (Error (lit ''UNIQUE violation on '' @ quoted col)) else Inr ())"
proof -
  have "unique_loop t col v excludePk rs =
     (if list_ex (\<lambda>r. strict_eq (row_get r col) v
            \<and> \<not> is_excluded t excludePk r) rs
      then Inl (Error (lit ''UNIQUE violation on '' @ quoted col)) else Inr ())" for rs
    by (induction rs) (auto simp: is_excluded_def)
  then show ?thesis by (simp add: assertUnique_def tbl_scan_None)
qed

end
