(* ===== verification/ByteView.thy ===== *)
theory ByteView
  imports Errors
begin

text \<open>
  Raw memory: an \<open>ArrayBuffer\<close> is a list of bytes, read and written through \<open>DataView\<close> (little-endian,
  range-checked) and typed arrays. The round-trip and frame lemmas here carry the codecs and the
  arena components.
\<close>

named_theorems view_simps "reading what was written"

type_synonym byte8 = "8 word"
type_synonym buffer = "byte8 list"

section \<open>Little-endian integers\<close>

fun le_bytes :: "nat \<Rightarrow> int \<Rightarrow> buffer" where
  "le_bytes 0 v = []"
| "le_bytes (Suc n) v = word_of_int v # le_bytes n (v div 256)"

fun le_value :: "buffer \<Rightarrow> int" where
  "le_value [] = 0"
| "le_value (b # bs) = uint b + 256 * le_value bs"

lemma length_le_bytes [simp]: "length (le_bytes n v) = n"
  by (induction n arbitrary: v) simp_all

lemma uint_byte: "uint (word_of_int v :: byte8) = v mod 256"
  by (simp add: uint_word_of_int)

lemma uint_byte_bound: "0 \<le> uint (b :: byte8)" "uint (b :: byte8) < 256"
  using uint_lt2p [of b] by simp_all

lemma le_value_le_bytes: "le_value (le_bytes n v) = v mod 256 ^ n"
proof (induction n arbitrary: v)
  case (Suc n)
  then show ?case using zmod_zmult2_eq [of "256 ^ n" v 256] by (simp add: uint_byte)
qed simp

lemma le_value_bound: "0 \<le> le_value bs \<and> le_value bs < 256 ^ length bs"
proof (induction bs)
  case (Cons b bs)
  then show ?case using uint_byte_bound [of b] by simp
qed simp

lemma le_value_inj: "length xs = length ys \<Longrightarrow> le_value xs = le_value ys \<Longrightarrow> xs = ys"
proof (induction xs ys rule: list_induct2)
  case (Cons x xs y ys)
  then have eq: "uint x + 256 * le_value xs = uint y + 256 * le_value ys" by simp
  then have "(uint x + 256 * le_value xs) mod 256 = (uint y + 256 * le_value ys) mod 256" by simp
  then have "uint x = uint y" using uint_byte_bound [of x] uint_byte_bound [of y] by simp
  then show ?case using Cons.IH eq by (simp add: word_uint_eq_iff)
qed simp

lemma le_bytes_le_value [simp]: "length bs = n \<Longrightarrow> le_bytes n (le_value bs) = bs"
  by (rule le_value_inj) (use le_value_bound [of bs] in \<open>simp_all add: le_value_le_bytes\<close>)

section \<open>Slices\<close>

definition read_at :: "nat \<Rightarrow> nat \<Rightarrow> buffer \<Rightarrow> buffer" where
  "read_at off n m = take n (drop off m)"

definition write_at :: "nat \<Rightarrow> buffer \<Rightarrow> buffer \<Rightarrow> buffer" where
  \<comment> \<open>for \<open>off + length bs \<le> length m\<close>\<close>
  "write_at off bs m = take off m @ bs @ drop (off + length bs) m"

lemma length_write_at [simp]:
  "off + length bs \<le> length m \<Longrightarrow> length (write_at off bs m) = length m"
  by (simp add: write_at_def)

lemma length_read_at [simp]: "off + n \<le> length m \<Longrightarrow> length (read_at off n m) = n"
  by (simp add: read_at_def)

lemma read_write_same [view_simps]:
  "off + length bs \<le> length m \<Longrightarrow> n = length bs \<Longrightarrow> read_at off n (write_at off bs m) = bs"
  by (simp add: read_at_def write_at_def)

lemma read_write_below [view_simps]:
  "off + length bs \<le> length m \<Longrightarrow> a + n \<le> off \<Longrightarrow> read_at a n (write_at off bs m) = read_at a n m"
  by (simp add: read_at_def write_at_def drop_take min_absorb1 take_drop [symmetric])

lemma read_write_above [view_simps]:
  "off + length bs \<le> length m \<Longrightarrow> off + length bs \<le> a \<Longrightarrow> read_at a n (write_at off bs m) = read_at a n m"
  by (simp add: read_at_def write_at_def)

lemma nth_write_at:
  "off + length bs \<le> length m \<Longrightarrow> i < length m \<Longrightarrow>
   write_at off bs m ! i = (if off \<le> i \<and> i < off + length bs then bs ! (i - off) else m ! i)"
  by (auto simp: write_at_def nth_append)

section \<open>DataView\<close>

definition range_error :: js_error where
  "range_error = RangeError (lit ''Offset is outside the bounds of the DataView'')"

definition dv_get :: "nat \<Rightarrow> nat \<Rightarrow> buffer \<Rightarrow> int res" where
  \<comment> \<open>\<open>getUint8\<close>, \<open>getUint16\<close>, \<open>getUint32\<close> by width in bytes\<close>
  "dv_get w off m = (if off + w \<le> length m then Inr (le_value (read_at off w m)) else Inl range_error)"

definition dv_set :: "nat \<Rightarrow> nat \<Rightarrow> int \<Rightarrow> buffer \<Rightarrow> buffer res" where
  "dv_set w off v m = (if off + w \<le> length m then Inr (write_at off (le_bytes w v) m) else Inl range_error)"

definition u32_at :: "nat \<Rightarrow> buffer \<Rightarrow> int" where
  "u32_at off m = le_value (read_at off 4 m)"

definition set_u32 :: "nat \<Rightarrow> int \<Rightarrow> buffer \<Rightarrow> buffer" where
  "set_u32 off v m = write_at off (le_bytes 4 v) m"

lemma dv_get_u32: "off + 4 \<le> length m \<Longrightarrow> dv_get 4 off m = Inr (u32_at off m)"
  by (simp add: dv_get_def u32_at_def)

lemma length_set_u32 [simp]: "off + 4 \<le> length m \<Longrightarrow> length (set_u32 off v m) = length m"
  by (simp add: set_u32_def)

lemma u32_at_bound: "0 \<le> u32_at off m" "off + 4 \<le> length m \<Longrightarrow> u32_at off m < 2 ^ 32"
  using le_value_bound [of "read_at off 4 m"] by (simp_all add: u32_at_def)

lemma u32_set_same [view_simps]:
  "off + 4 \<le> length m \<Longrightarrow> 0 \<le> v \<Longrightarrow> v < 2 ^ 32 \<Longrightarrow> u32_at off (set_u32 off v m) = v"
  by (simp add: u32_at_def set_u32_def read_write_same le_value_le_bytes)

lemma u32_set_other [view_simps]:
  "off + 4 \<le> length m \<Longrightarrow> a + 4 \<le> off \<or> off + 4 \<le> a \<Longrightarrow> u32_at a (set_u32 off v m) = u32_at a m"
  by (auto simp: u32_at_def set_u32_def read_write_below read_write_above)

lemma read_set_u32_other [view_simps]:
  "off + 4 \<le> length m \<Longrightarrow> a + n \<le> off \<or> off + 4 \<le> a \<Longrightarrow> read_at a n (set_u32 off v m) = read_at a n m"
  by (auto simp: set_u32_def read_write_below read_write_above)

end
