(* ===== verification/Layout.thy ===== *)
theory Layout
  imports ByteView JsNumber
begin

text \<open>
  The geometry of the shared arena (\<open>client/layout.ts\<close>): the constants the engine pins, the region
  table in the arena header, its reader and the checks a client makes before it trusts the table.
  Region fields are 32-bit header words, so sums of two of them are exact in a Number and the model
  computes on integers.
\<close>

section \<open>Constants\<close>

definition GLOBAL_RESERVED :: nat where "GLOBAL_RESERVED = 1024"
definition RING_OFFSET :: nat where "RING_OFFSET = 1024"
definition RING_DEFAULT_CAPACITY :: nat where "RING_DEFAULT_CAPACITY = 4096"
definition DELTA_SIZE :: nat where "DELTA_SIZE = 64"
definition MAX_DELTA_INLINE :: nat where "MAX_DELTA_INLINE = 48"
definition RING_HEADER_BYTES :: nat where "RING_HEADER_BYTES = 192"
definition RING_SEQ_BYTES :: nat where "RING_SEQ_BYTES = 8"
definition MAGIC_OFFSET :: nat where "MAGIC_OFFSET = 0"
definition VERSION_OFFSET :: nat where "VERSION_OFFSET = 4"
definition LAYOUT_VERSION :: int where "LAYOUT_VERSION = 4"
definition ARENA_MAGIC :: int where "ARENA_MAGIC = 0x54414b59"
definition MAX_KEY_LEN :: nat where "MAX_KEY_LEN = 256"
definition MIN_ARENA_SIZE :: int where "MIN_ARENA_SIZE = 16 * 1024 * 1024"
definition ARENA_BYTES_OFFSET :: nat where "ARENA_BYTES_OFFSET = 8"
definition RING_CAPACITY_OFFSET :: nat where "RING_CAPACITY_OFFSET = 12"
definition RECORD_START_OFFSET :: nat where "RECORD_START_OFFSET = 16"
definition RECORD_BYTES_OFFSET :: nat where "RECORD_BYTES_OFFSET = 20"
definition ART_ROOT_OFFSET_FIELD :: nat where "ART_ROOT_OFFSET_FIELD = 24"
definition ART_BYTES_OFFSET :: nat where "ART_BYTES_OFFSET = 28"
definition STRING_START_OFFSET :: nat where "STRING_START_OFFSET = 32"
definition STRING_BYTES_OFFSET :: nat where "STRING_BYTES_OFFSET = 36"
definition HEADER_BYTES :: nat where "HEADER_BYTES = 48"
definition LAYOUT_VERSION_WITH_TABLE :: int where "LAYOUT_VERSION_WITH_TABLE = 3"
definition LAYOUT_VERSION_UNALIGNED_RECORDS :: int where "LAYOUT_VERSION_UNALIGNED_RECORDS = 3"

definition ringBytes :: "int \<Rightarrow> int" where
  "ringBytes capacity = int RING_HEADER_BYTES + capacity * (int DELTA_SIZE + int RING_SEQ_BYTES)"

definition minArenaForCapacity :: "int \<Rightarrow> int" where
  "minArenaForCapacity capacity = int RING_OFFSET + ringBytes capacity + 1024"

definition RECORD_BUMP_OFFSET :: int where
  "RECORD_BUMP_OFFSET = int RING_OFFSET + int RING_HEADER_BYTES
     + int RING_DEFAULT_CAPACITY * (int DELTA_SIZE + int RING_SEQ_BYTES)"

definition RECORD_START :: int where "RECORD_START = RECORD_BUMP_OFFSET + 8"
definition ART_ROOT_OFFSET :: int where "ART_ROOT_OFFSET = 2097152"
definition STRING_ARENA_START :: int where "STRING_ARENA_START = 10 * 1024 * 1024"

lemmas layout_consts = GLOBAL_RESERVED_def RING_OFFSET_def RING_DEFAULT_CAPACITY_def DELTA_SIZE_def
  MAX_DELTA_INLINE_def RING_HEADER_BYTES_def RING_SEQ_BYTES_def MAGIC_OFFSET_def VERSION_OFFSET_def
  LAYOUT_VERSION_def ARENA_MAGIC_def MAX_KEY_LEN_def MIN_ARENA_SIZE_def ARENA_BYTES_OFFSET_def
  RING_CAPACITY_OFFSET_def RECORD_START_OFFSET_def RECORD_BYTES_OFFSET_def ART_ROOT_OFFSET_FIELD_def
  ART_BYTES_OFFSET_def STRING_START_OFFSET_def STRING_BYTES_OFFSET_def HEADER_BYTES_def
  LAYOUT_VERSION_WITH_TABLE_def LAYOUT_VERSION_UNALIGNED_RECORDS_def RECORD_BUMP_OFFSET_def
  RECORD_START_def ART_ROOT_OFFSET_def STRING_ARENA_START_def

section \<open>The region table\<close>

record regions =
  arenaBytes :: int
  ringCapacity :: int
  recordStart :: int
  recordBytes :: int
  artRoot :: int
  artBytes :: int
  stringStart :: int
  stringBytes :: int

definition recordBumpOffset :: "regions \<Rightarrow> int" where
  "recordBumpOffset r = int RING_OFFSET + ringBytes (ringCapacity r)"

definition artStart :: "regions \<Rightarrow> int" where
  "artStart r = artRoot r + 8"

definition artBumpOffset :: "regions \<Rightarrow> int" where
  "artBumpOffset r = artRoot r + 4"

definition stringDataStart :: "regions \<Rightarrow> int" where
  "stringDataStart r = stringStart r + 8"

definition int_str :: "int \<Rightarrow> jstr" where
  \<comment> \<open>\<open>${n}\<close> for an integer\<close>
  "int_str n = num_to_string (int_num n)"

definition version_error :: "int \<Rightarrow> jstr" where
  "version_error version =
     (if version < LAYOUT_VERSION_WITH_TABLE
      then lit ''arena is layout version '' @ int_str version @ lit ''; this SDK speaks '' @ int_str LAYOUT_VERSION
        @ lit '' or later. The engine writes region boundaries into the header from version 3, and a client that guessed them would write into the wrong regions. Restart the daemon with this build.''
      else lit ''arena is layout version '' @ int_str version
        @ lit '', which packs records without alignment; this SDK speaks '' @ int_str LAYOUT_VERSION
        @ lit ''. Reading it would return a value from the wrong field of every record. Recreate the segment (or reload the data) with this build.'')"

definition readRegions :: "buffer \<Rightarrow> regions res" where
  "readRegions m =
     (if length m < HEADER_BYTES then
        Inl (Error (lit ''arena too small to hold a header ('' @ int_str (int (length m)) @ lit '' bytes)''))
      else res_bind (dv_get 4 MAGIC_OFFSET m) (\<lambda>magic.
        if magic \<noteq> ARENA_MAGIC then Inl (Error (lit ''not a Takyon arena: magic mismatch''))
        else res_bind (dv_get 4 VERSION_OFFSET m) (\<lambda>version.
          if version \<le> LAYOUT_VERSION_UNALIGNED_RECORDS then Inl (Error (version_error version))
          else res_bind (dv_get 4 ARENA_BYTES_OFFSET m) (\<lambda>ab.
               res_bind (dv_get 4 RING_CAPACITY_OFFSET m) (\<lambda>rc.
               res_bind (dv_get 4 RECORD_START_OFFSET m) (\<lambda>rs.
               res_bind (dv_get 4 RECORD_BYTES_OFFSET m) (\<lambda>rb.
               res_bind (dv_get 4 ART_ROOT_OFFSET_FIELD m) (\<lambda>ar.
               res_bind (dv_get 4 ART_BYTES_OFFSET m) (\<lambda>atb.
               res_bind (dv_get 4 STRING_START_OFFSET m) (\<lambda>ss.
               res_bind (dv_get 4 STRING_BYTES_OFFSET m) (\<lambda>sb.
                 Inr \<lparr>arenaBytes = ab, ringCapacity = rc, recordStart = rs, recordBytes = rb,
                      artRoot = ar, artBytes = atb, stringStart = ss, stringBytes = sb\<rparr>)))))))))))"

definition power_of_two_bits :: "int \<Rightarrow> bool" where
  \<comment> \<open>\<open>(cap & (cap - 1)) === 0\<close>, on 32-bit operands\<close>
  "power_of_two_bits cap \<longleftrightarrow> and (word_of_int cap :: 32 word) (word_of_int (cap - 1)) = 0"

definition validateRegions :: "regions \<Rightarrow> int \<Rightarrow> unit res" where
  "validateRegions r mappedBytes =
     (if mappedBytes < int HEADER_BYTES then Inl (Error (lit ''arena too small to hold a header''))
      else if arenaBytes r \<noteq> mappedBytes then
        Inl (Error (lit ''region table was built for '' @ int_str (arenaBytes r)
          @ lit '' bytes but the mapping is '' @ int_str mappedBytes))
      else if ringCapacity r < 16 \<or> \<not> power_of_two_bits (ringCapacity r) then
        Inl (Error (lit ''ring capacity '' @ int_str (ringCapacity r) @ lit '' must be a power of two of at least 16''))
      else if recordStart r < recordBumpOffset r + 8 then
        Inl (Error (lit ''record region starts at '' @ int_str (recordStart r) @ lit '', inside the ring''))
      else if recordStart r + recordBytes r > artRoot r then Inl (Error (lit ''record region runs into the index''))
      else if artRoot r mod 8 \<noteq> 0 then
        Inl (Error (lit ''index root '' @ int_str (artRoot r) @ lit '' is not 8-byte aligned''))
      else if artRoot r + artBytes r > stringStart r then
        Inl (Error (lit ''index region runs into the string region''))
      else if stringBytes r < 8 then Inl (Error (lit ''string region leaves no room for its bump word''))
      else if stringStart r + stringBytes r > arenaBytes r then
        Inl (Error (lit ''string region runs past the end of the arena''))
      else Inr ())"

definition defaultRegions :: "int \<Rightarrow> regions" where
  "defaultRegions n =
     \<lparr>arenaBytes = n, ringCapacity = int RING_DEFAULT_CAPACITY, recordStart = RECORD_START,
      recordBytes = ART_ROOT_OFFSET - RECORD_START, artRoot = ART_ROOT_OFFSET,
      artBytes = STRING_ARENA_START - ART_ROOT_OFFSET, stringStart = STRING_ARENA_START,
      stringBytes = n - STRING_ARENA_START\<rparr>"

definition writeRegions :: "buffer \<Rightarrow> regions \<Rightarrow> buffer res" where
  "writeRegions m r =
     (if length m < HEADER_BYTES then Inl (Error (lit ''buffer too small to hold a header''))
      else res_bind (dv_set 4 MAGIC_OFFSET ARENA_MAGIC m)
        (\<lambda>m. res_bind (dv_set 4 VERSION_OFFSET LAYOUT_VERSION m)
        (\<lambda>m. res_bind (dv_set 4 ARENA_BYTES_OFFSET (arenaBytes r) m)
        (\<lambda>m. res_bind (dv_set 4 RING_CAPACITY_OFFSET (ringCapacity r) m)
        (\<lambda>m. res_bind (dv_set 4 RECORD_START_OFFSET (recordStart r) m)
        (\<lambda>m. res_bind (dv_set 4 RECORD_BYTES_OFFSET (recordBytes r) m)
        (\<lambda>m. res_bind (dv_set 4 ART_ROOT_OFFSET_FIELD (artRoot r) m)
        (\<lambda>m. res_bind (dv_set 4 ART_BYTES_OFFSET (artBytes r) m)
        (\<lambda>m. res_bind (dv_set 4 STRING_START_OFFSET (stringStart r) m)
        (\<lambda>m. dv_set 4 STRING_BYTES_OFFSET (stringBytes r) m))))))))))"

section \<open>Facts\<close>

definition regions_u32 :: "regions \<Rightarrow> bool" where
  \<comment> \<open>every field is an unsigned 32-bit value\<close>
  "regions_u32 r \<longleftrightarrow> list_all (\<lambda>v. 0 \<le> v \<and> v < 2 ^ 32)
     [arenaBytes r, ringCapacity r, recordStart r, recordBytes r, artRoot r, artBytes r, stringStart r, stringBytes r]"

definition header_of :: "buffer \<Rightarrow> regions" where
  "header_of m = \<lparr>arenaBytes = u32_at 8 m, ringCapacity = u32_at 12 m, recordStart = u32_at 16 m,
     recordBytes = u32_at 20 m, artRoot = u32_at 24 m, artBytes = u32_at 28 m,
     stringStart = u32_at 32 m, stringBytes = u32_at 36 m\<rparr>"

lemma readRegions_Inr:
  "readRegions m = Inr r \<longleftrightarrow> 48 \<le> length m \<and> u32_at 0 m = ARENA_MAGIC \<and> 3 < u32_at 4 m \<and> r = header_of m"
  by (auto simp: readRegions_def dv_get_u32 layout_consts header_of_def)

lemma dv_set_u32: "off + 4 \<le> length m \<Longrightarrow> dv_set 4 off v m = Inr (set_u32 off v m)"
  by (simp add: dv_set_def set_u32_def)

lemma writeRegions_Inr:
  assumes "48 \<le> length m"
  shows "writeRegions m r = Inr (set_u32 36 (stringBytes r) (set_u32 32 (stringStart r) (set_u32 28 (artBytes r)
    (set_u32 24 (artRoot r) (set_u32 20 (recordBytes r) (set_u32 16 (recordStart r) (set_u32 12 (ringCapacity r)
    (set_u32 8 (arenaBytes r) (set_u32 4 4 (set_u32 0 ARENA_MAGIC m))))))))))"
  using assms
  by (simp add: writeRegions_def dv_set_u32 HEADER_BYTES_def MAGIC_OFFSET_def VERSION_OFFSET_def
      ARENA_BYTES_OFFSET_def RING_CAPACITY_OFFSET_def RECORD_START_OFFSET_def RECORD_BYTES_OFFSET_def
      ART_ROOT_OFFSET_FIELD_def ART_BYTES_OFFSET_def STRING_START_OFFSET_def STRING_BYTES_OFFSET_def
      LAYOUT_VERSION_def)

text \<open>A number with no bit in common with its predecessor is a power of two.\<close>

lemma and_pred_zero_power:
  fixes n :: int
  assumes "0 < n" "and n (n - 1) = 0"
  shows "\<exists>k. n = 2 ^ k"
  using assms
proof (induction "nat n" arbitrary: n rule: less_induct)
  case less
  show ?case
  proof (cases "even n")
    case True
    then obtain m where m: "n = 2 * m" by (elim evenE)
    have "(2 * m - 1) div 2 = m - 1" by presburger
    then have "and n (n - 1) = 2 * and m (m - 1)"
      using and_int_rec [of n "n - 1"] by (simp add: m)
    then have "\<exists>k. m = 2 ^ k" using less.hyps [of m] less.prems by (simp add: m)
    then obtain k where "m = 2 ^ k" by blast
    then have "n = 2 ^ Suc k" by (simp add: m)
    then show ?thesis by blast
  next
    case False
    then obtain m where m: "n = 2 * m + 1" by (elim oddE)
    have "and n (n - 1) = 2 * and m m" using and_int_rec [of n "n - 1"] by (simp add: m)
    then have "n = 2 ^ 0" using less.prems by (simp add: m)
    then show ?thesis by blast
  qed
qed

lemma power_of_two_bits_iff:
  assumes "0 < cap" "cap < 2 ^ 32"
  shows "power_of_two_bits cap \<longleftrightarrow> (\<exists>k. cap = 2 ^ k)"
proof -
  have u: "uint (and (word_of_int cap :: 32 word) (word_of_int (cap - 1))) = and cap (cap - 1)"
    unfolding uint_and uint_word_of_int using assms by simp
  have "power_of_two_bits cap \<longleftrightarrow> uint (and (word_of_int cap :: 32 word) (word_of_int (cap - 1))) = 0"
    by (simp add: power_of_two_bits_def word_uint_eq_iff del: uint_and)
  then have iff: "power_of_two_bits cap \<longleftrightarrow> and cap (cap - 1) = 0" unfolding u .
  have "and ((2::int) ^ k) (2 ^ k - 1) = 0" for k
    using take_bit_eq_mask [of k "(2::int) ^ k"] by (simp add: mask_eq_exp_minus_1)
  then show ?thesis using iff and_pred_zero_power [OF assms(1)] by auto
qed

section \<open>Properties\<close>

text \<open>C29. Header round trip: after a region table of 32-bit fields is written into a buffer of at least 48
  bytes, reading gives the same table, and no byte from offset 40 on has changed.\<close>

theorem regions_roundtrip:
  assumes "48 \<le> length m" and "regions_u32 r"
  shows "\<exists>m'. writeRegions m r = Inr m' \<and> readRegions m' = Inr r \<and> length m' = length m \<and> drop 40 m' = drop 40 m"
proof -
  have b: "0 \<le> arenaBytes r" "arenaBytes r < 2 ^ 32" "0 \<le> ringCapacity r" "ringCapacity r < 2 ^ 32"
    "0 \<le> recordStart r" "recordStart r < 2 ^ 32" "0 \<le> recordBytes r" "recordBytes r < 2 ^ 32"
    "0 \<le> artRoot r" "artRoot r < 2 ^ 32" "0 \<le> artBytes r" "artBytes r < 2 ^ 32"
    "0 \<le> stringStart r" "stringStart r < 2 ^ 32" "0 \<le> stringBytes r" "stringBytes r < 2 ^ 32"
    using assms(2) by (simp_all add: regions_u32_def)
  obtain m' where m': "writeRegions m r = Inr m'"
    "m' = set_u32 36 (stringBytes r) (set_u32 32 (stringStart r) (set_u32 28 (artBytes r)
    (set_u32 24 (artRoot r) (set_u32 20 (recordBytes r) (set_u32 16 (recordStart r) (set_u32 12 (ringCapacity r)
    (set_u32 8 (arenaBytes r) (set_u32 4 4 (set_u32 0 ARENA_MAGIC m)))))))))"
    using writeRegions_Inr [OF assms(1)] by blast
  have len: "length m' = length m" using assms(1) by (simp add: m'(2))
  have fields: "u32_at 0 m' = ARENA_MAGIC" "u32_at 4 m' = 4" "u32_at 8 m' = arenaBytes r"
    "u32_at 12 m' = ringCapacity r" "u32_at 16 m' = recordStart r" "u32_at 20 m' = recordBytes r"
    "u32_at 24 m' = artRoot r" "u32_at 28 m' = artBytes r" "u32_at 32 m' = stringStart r"
    "u32_at 36 m' = stringBytes r"
    using assms(1) b by (simp_all add: m'(2) u32_set_same u32_set_other ARENA_MAGIC_def)
  have "read_at 40 (length m - 40) m' = read_at 40 (length m - 40) m"
    using assms(1) by (simp add: m'(2) read_set_u32_other)
  then have "drop 40 m' = drop 40 m" by (simp add: read_at_def len)
  moreover have "readRegions m' = Inr r"
    using assms(1) fields by (simp add: readRegions_Inr len header_of_def)
  ultimately show ?thesis using m'(1) len by blast
qed

theorem regions_roundtrip_witness:
  "\<exists>m'. writeRegions (replicate 64 0) (defaultRegions 16777216) = Inr m' \<and> readRegions m' = Inr (defaultRegions 16777216)"
proof -
  have "regions_u32 (defaultRegions 16777216)"
    by (simp add: regions_u32_def defaultRegions_def layout_consts)
  from regions_roundtrip [OF _ this, of "replicate 64 0"] show ?thesis by auto
qed

text \<open>C30. A table that passes the checks describes disjoint regions in order: the ring of a power-of-two
  capacity, the record, index and string regions, each with room for its bump words, inside the
  mapping.\<close>

theorem validated_regions_disjoint:
  assumes "validateRegions r mapped = Inr u" and "regions_u32 r"
  shows "(\<exists>k\<ge>4. ringCapacity r = 2 ^ k)
    \<and> int RING_OFFSET + ringBytes (ringCapacity r) = recordBumpOffset r
    \<and> recordBumpOffset r + 8 \<le> recordStart r
    \<and> recordStart r + recordBytes r \<le> artRoot r \<and> artRoot r mod 8 = 0
    \<and> artRoot r + artBytes r \<le> stringStart r
    \<and> stringDataStart r \<le> stringStart r + stringBytes r
    \<and> stringStart r + stringBytes r \<le> arenaBytes r \<and> arenaBytes r = mapped"
proof -
  have v: "arenaBytes r = mapped" "16 \<le> ringCapacity r" "power_of_two_bits (ringCapacity r)"
    "recordBumpOffset r + 8 \<le> recordStart r" "recordStart r + recordBytes r \<le> artRoot r"
    "artRoot r mod 8 = 0" "artRoot r + artBytes r \<le> stringStart r" "8 \<le> stringBytes r"
    "stringStart r + stringBytes r \<le> arenaBytes r"
    using assms(1) by (auto simp: validateRegions_def split: if_splits)
  have "ringCapacity r < 2 ^ 32" using assms(2) by (simp add: regions_u32_def)
  then obtain k where k: "ringCapacity r = 2 ^ k"
    using v(2,3) power_of_two_bits_iff [of "ringCapacity r"] by auto
  have "(2::int) ^ 4 \<le> 2 ^ k" using v(2) k by simp
  then have "4 \<le> k" by (rule power_le_imp_le_exp [rotated]) simp
  then have "\<exists>k\<ge>4. ringCapacity r = 2 ^ k" using k by blast
  then show ?thesis using v by (simp add: recordBumpOffset_def stringDataStart_def)
qed

theorem validated_regions_disjoint_witness:
  "validateRegions (defaultRegions 16777216) 16777216 = Inr ()
    \<and> stringDataStart (defaultRegions 16777216) \<le> 16777216"
proof -
  have v: "validateRegions (defaultRegions 16777216) 16777216 = Inr ()"
    by (simp add: validateRegions_def defaultRegions_def layout_consts recordBumpOffset_def ringBytes_def
        power_of_two_bits_def)
  have "regions_u32 (defaultRegions 16777216)"
    by (simp add: regions_u32_def defaultRegions_def layout_consts)
  from validated_regions_disjoint [OF v this] show ?thesis using v by (simp add: defaultRegions_def)
qed

text \<open>The default table passes the checks for exactly the mappings that leave room for a string bump
  word behind the fixed regions.\<close>

theorem default_regions_valid:
  "validateRegions (defaultRegions n) n = Inr () \<longleftrightarrow> STRING_ARENA_START + 8 \<le> n"
  by (simp add: validateRegions_def defaultRegions_def layout_consts recordBumpOffset_def ringBytes_def
      power_of_two_bits_def)

text \<open>The reader refuses every buffer that is too short, has another magic, or a layout version below 4,
  and accepts every other one, returning the header words.\<close>

theorem read_regions_decides:
  "readRegions m = Inr r \<longleftrightarrow>
     48 \<le> length m \<and> u32_at 0 m = ARENA_MAGIC \<and> LAYOUT_VERSION \<le> u32_at 4 m \<and> r = header_of m"
  by (auto simp: readRegions_Inr LAYOUT_VERSION_def)

end
