(* ===== verification/RecordSchema.thy ===== *)
theory RecordSchema
  imports Errors JsNumber
begin

text \<open>
  The record layout compiler \<open>TakyonSchema\<close> (\<open>client/schema.ts\<close>). A definition is the list of its
  entries in the order \<open>Object.entries\<close> gives them; a type outside the four storable ones is kept as
  the text found there. Alignments are powers of two and offsets stay far below \<open>2 ^ 53\<close>, so the
  division inside \<open>alignUp\<close> is exact.
\<close>

datatype field_type = FUint8 | FUint32 | FFloat64 | FString | FOther jstr

fun field_type_name :: "field_type \<Rightarrow> jstr" where
  "field_type_name FUint8 = lit ''uint8''"
| "field_type_name FUint32 = lit ''uint32''"
| "field_type_name FFloat64 = lit ''float64''"
| "field_type_name FString = lit ''string''"
| "field_type_name (FOther s) = s"

record field_definition =
  f_type :: field_type
  f_offset :: int
  f_size :: int

type_synonym schema_def = "(jstr \<times> field_type) list"

definition RECORD_ALIGNMENT :: int where "RECORD_ALIGNMENT = 8"

definition alignUp :: "int \<Rightarrow> int \<Rightarrow> int" where
  "alignUp value align = \<lceil>(of_int value :: rat) / of_int align\<rceil> * align"

record record_schema =
  rec_fields :: "(jstr \<times> field_definition) list"
  recordSize :: int

definition size_align :: "jstr \<Rightarrow> field_type \<Rightarrow> (int \<times> int) res" where
  \<comment> \<open>the chain of type tests\<close>
  "size_align key t =
     (case t of
        FUint8 \<Rightarrow> Inr (1, 1)
      | FUint32 \<Rightarrow> Inr (4, 4)
      | FFloat64 \<Rightarrow> Inr (8, 8)
      | FString \<Rightarrow> Inr (8, 8)
      | FOther s \<Rightarrow> Inl (Error (lit ''unknown field type '' @ quoted s @ lit '' for '' @ quoted key)))"

fun compile_fields :: "schema_def \<Rightarrow> int \<Rightarrow> (jstr \<times> field_definition) list
    \<Rightarrow> (int \<times> (jstr \<times> field_definition) list) res" where
  "compile_fields [] currentOffset compiled = Inr (currentOffset, compiled)"
| "compile_fields ((key, t) # rest) currentOffset compiled =
     res_bind (size_align key t) (\<lambda>(size, align).
       let off = alignUp currentOffset align
       in compile_fields rest (off + size)
            (compiled @ [(key, \<lparr>f_type = t, f_offset = off, f_size = size\<rparr>)]))"

definition new_TakyonSchema :: "schema_def \<Rightarrow> record_schema res" where
  "new_TakyonSchema def =
     (if def = [] then Inl (Error (lit ''schema definition must be a non-empty object''))
      else res_bind (compile_fields def 0 []) (\<lambda>(currentOffset, compiled).
        Inr \<lparr>rec_fields = compiled, recordSize = alignUp currentOffset RECORD_ALIGNMENT\<rparr>))"

section \<open>Alignment\<close>

lemma alignUp_eq: "0 < a \<Longrightarrow> alignUp v a = - ((- v) div a) * a"
proof -
  assume "0 < a"
  have "\<lceil>(of_int v :: rat) / of_int a\<rceil> = - \<lfloor>(of_int (- v) :: rat) / of_int a\<rfloor>"
    by (simp add: ceiling_def)
  also have "\<lfloor>(of_int (- v) :: rat) / of_int a\<rfloor> = (- v) div a" by (rule floor_divide_of_int_eq)
  finally show ?thesis by (simp add: alignUp_def)
qed

lemma alignUp_bounds:
  assumes "0 < a"
  shows "a dvd alignUp v a" "v \<le> alignUp v a" "alignUp v a < v + a"
proof -
  show "a dvd alignUp v a" by (simp add: alignUp_def)
  have "(- v) div a * a + (- v) mod a = - v" by simp
  moreover have "0 \<le> (- v) mod a" "(- v) mod a < a" using assms by simp_all
  ultimately show "v \<le> alignUp v a" "alignUp v a < v + a" unfolding alignUp_eq [OF assms] by linarith+
qed

lemma alignUp_least: "0 < a \<Longrightarrow> a dvd w \<Longrightarrow> v \<le> w \<Longrightarrow> alignUp v a \<le> w"
proof -
  assume a: "0 < a" "a dvd w" "v \<le> w"
  then obtain k where k: "w = a * k" by (elim dvdE)
  have "(of_int v :: rat) / of_int a \<le> of_int k"
    using a by (simp add: k field_simps flip: of_int_mult)
  then have "\<lceil>(of_int v :: rat) / of_int a\<rceil> \<le> k" by (simp add: ceiling_le_iff)
  then show ?thesis using a(1) by (simp add: alignUp_def k mult.commute)
qed

section \<open>What the compiler produces\<close>

definition known_field :: "field_type \<Rightarrow> bool" where
  "known_field t \<longleftrightarrow> (case t of FOther _ \<Rightarrow> False | _ \<Rightarrow> True)"

fun field_align :: "field_type \<Rightarrow> int" where
  "field_align FUint8 = 1"
| "field_align FUint32 = 4"
| "field_align _ = 8"

fun field_size :: "field_type \<Rightarrow> int" where
  "field_size FUint8 = 1"
| "field_size FUint32 = 4"
| "field_size _ = 8"

fun packed :: "int \<Rightarrow> (jstr \<times> field_definition) list \<Rightarrow> bool" where
  \<comment> \<open>each field is at the first aligned offset after the one before\<close>
  "packed from [] = True"
| "packed from ((k, f) # fs) =
     (f_offset f = alignUp from (field_align (f_type f)) \<and> f_size f = field_size (f_type f)
      \<and> packed (f_offset f + f_size f) fs)"

fun packed_end :: "int \<Rightarrow> (jstr \<times> field_definition) list \<Rightarrow> int" where
  "packed_end from [] = from"
| "packed_end from ((k, f) # fs) = packed_end (f_offset f + f_size f) fs"

lemma size_align_Inr: "size_align k t = Inr (s, a) \<longleftrightarrow> known_field t \<and> s = field_size t \<and> a = field_align t"
  by (cases t) (auto simp: size_align_def known_field_def)

lemma field_align_pos [simp]: "0 < field_align t" "0 < field_size t" "field_align t dvd 8"
  by (cases t; simp)+

lemma packed_snoc:
  "packed from (fs @ [(k, f)]) \<longleftrightarrow> packed from fs \<and> f_offset f = alignUp (packed_end from fs) (field_align (f_type f))
     \<and> f_size f = field_size (f_type f)"
  "packed_end from (fs @ [(k, f)]) = f_offset f + f_size f"
  by (induction fs arbitrary: "from") auto

lemma compile_fields_ok:
  assumes "compile_fields def off acc = Inr (fin, fs)" "packed 0 acc" "off = packed_end 0 acc"
  shows "packed 0 fs \<and> fin = packed_end 0 fs \<and> list_all (\<lambda>(k, t). known_field t) def
    \<and> map (\<lambda>(k, f). (k, f_type f)) fs = map (\<lambda>(k, f). (k, f_type f)) acc @ def"
  using assms
proof (induction def arbitrary: off acc)
  case Nil
  then show ?case by auto
next
  case (Cons d rest)
  obtain key t where d: "d = (key, t)" by (cases d)
  let ?f = "\<lparr>f_type = t, f_offset = alignUp off (field_align t), f_size = field_size t\<rparr>"
  obtain size align where "size_align key t = Inr (size, align)"
    using Cons.prems(1) by (cases "size_align key t") (auto simp: d)
  then have k: "known_field t" and sa: "size_align key t = Inr (field_size t, field_align t)"
    by (auto simp: size_align_Inr)
  have c: "compile_fields rest (alignUp off (field_align t) + field_size t) (acc @ [(key, ?f)]) = Inr (fin, fs)"
    using Cons.prems(1) by (simp add: d sa Let_def)
  have p: "packed 0 (acc @ [(key, ?f)])" using Cons.prems(2,3) by (simp add: packed_snoc)
  have "alignUp off (field_align t) + field_size t = packed_end 0 (acc @ [(key, ?f)])" by (simp add: packed_snoc)
  from Cons.IH [OF c p this] show ?case using k by (simp add: d)
qed

lemma compile_fields_complete:
  "list_all (\<lambda>(k, t). known_field t) def \<Longrightarrow> is_ok (compile_fields def off acc)"
proof (induction def off acc rule: compile_fields.induct)
  case (2 key t rest off acc)
  then have "size_align key t = Inr (field_size t, field_align t)" by (simp add: size_align_Inr)
  then show ?case using 2 by (simp add: Let_def)
qed simp

lemma packed_ConsD:
  assumes "packed from ((k, f) # fs)"
  shows "from \<le> f_offset f" "field_align (f_type f) dvd f_offset f" "0 < f_size f"
    "f_size f = field_size (f_type f)" "packed (f_offset f + f_size f) fs"
  using assms alignUp_bounds(1,2) [OF field_align_pos(1) [of "f_type f"], of "from"] by auto

lemma packed_le: "packed from fs \<Longrightarrow> from \<le> packed_end from fs"
proof (induction "from" fs rule: packed.induct)
  case (2 "from" k f fs)
  note f = packed_ConsD [OF "2.prems"]
  from "2.IH" [OF f(5)] show ?case using f(1,3) unfolding packed_end.simps by linarith
qed simp

lemma packed_bounds:
  "packed from fs \<Longrightarrow> p \<in> set fs \<Longrightarrow>
   from \<le> f_offset (snd p) \<and> f_offset (snd p) + f_size (snd p) \<le> packed_end from fs
     \<and> field_align (f_type (snd p)) dvd f_offset (snd p) \<and> f_size (snd p) = field_size (f_type (snd p))"
proof (induction "from" fs rule: packed.induct)
  case (2 "from" k f fs)
  note f = packed_ConsD [OF "2.prems"(1)]
  show ?case
  proof (cases "p = (k, f)")
    case True
    then show ?thesis using f packed_le [OF f(5)] by simp
  next
    case False
    then have "p \<in> set fs" using "2.prems"(2) by simp
    from "2.IH" [OF f(5) this] show ?thesis using f(1,3) by simp
  qed
qed simp

lemma packed_disjoint:
  assumes "packed from fs"
  shows "sorted_wrt (\<lambda>f g. f_offset (snd f) + f_size (snd f) \<le> f_offset (snd g)) fs"
  using assms
proof (induction "from" fs rule: packed.induct)
  case (2 "from" k f fs)
  show ?case using "2.IH" packed_bounds packed_ConsD(5) [OF "2.prems"] by simp
qed simp

lemma compiled_layout:
  assumes "new_TakyonSchema def = Inr s"
  shows "map (\<lambda>(k, f). (k, f_type f)) (rec_fields s) = def \<and> packed 0 (rec_fields s) \<and> 8 dvd recordSize s
    \<and> list_all (\<lambda>(k, f). 0 \<le> f_offset f \<and> f_offset f + f_size f \<le> recordSize s
        \<and> field_align (f_type f) dvd f_offset f \<and> f_size f = field_size (f_type f)) (rec_fields s)
    \<and> sorted_wrt (\<lambda>f g. f_offset (snd f) + f_size (snd f) \<le> f_offset (snd g)) (rec_fields s)"
proof -
  obtain fin where c: "compile_fields def 0 [] = Inr (fin, rec_fields s)" and sz: "recordSize s = alignUp fin 8"
    using assms by (cases "compile_fields def 0 []") (auto simp: new_TakyonSchema_def RECORD_ALIGNMENT_def split: if_splits)
  have p: "packed 0 (rec_fields s)" "fin = packed_end 0 (rec_fields s)"
    "map (\<lambda>(k, f). (k, f_type f)) (rec_fields s) = def"
    using compile_fields_ok [OF c] by simp_all
  have "8 dvd recordSize s" "fin \<le> recordSize s" unfolding sz using alignUp_bounds [of 8] by simp_all
  moreover have "list_all (\<lambda>(k, f). 0 \<le> f_offset f \<and> f_offset f + f_size f \<le> recordSize s
           \<and> field_align (f_type f) dvd f_offset f \<and> f_size f = field_size (f_type f)) (rec_fields s)"
  proof -
    have "0 \<le> f_offset (snd q) \<and> f_offset (snd q) + f_size (snd q) \<le> recordSize s
        \<and> field_align (f_type (snd q)) dvd f_offset (snd q) \<and> f_size (snd q) = field_size (f_type (snd q))"
      if "q \<in> set (rec_fields s)" for q
      using packed_bounds [OF p(1) that] order_trans [OF _ \<open>fin \<le> recordSize s\<close>] unfolding p(2) by blast
    then show ?thesis unfolding list_all_iff case_prod_unfold by blast
  qed
  moreover have "sorted_wrt (\<lambda>f g. f_offset (snd f) + f_size (snd f) \<le> f_offset (snd g)) (rec_fields s)"
    by (rule packed_disjoint [OF p(1)])
  ultimately show ?thesis using p by simp
qed

lemma schema_accepts: "is_ok (new_TakyonSchema def) \<longleftrightarrow> def \<noteq> [] \<and> list_all (\<lambda>(k, t). known_field t) def"
proof -
  have "is_ok (new_TakyonSchema def) \<longleftrightarrow> def \<noteq> [] \<and> is_ok (compile_fields def 0 [])"
    by (cases "compile_fields def 0 []") (auto simp: new_TakyonSchema_def)
  moreover have "is_ok (compile_fields def 0 []) \<longleftrightarrow> list_all (\<lambda>(k, t). known_field t) def"
    using compile_fields_complete [of def 0 "[]"] compile_fields_ok [of def 0 "[]"] by (auto simp: is_ok_def)
  ultimately show ?thesis by blast
qed

lemma sorted_wrt_pair: "sorted_wrt P xs \<Longrightarrow> x \<in> set xs \<Longrightarrow> y \<in> set xs \<Longrightarrow> x \<noteq> y \<Longrightarrow> P x y \<or> P y x"
  by (induction xs) auto

lemma compiled_field:
  assumes "new_TakyonSchema def = Inr s" and "map_of (rec_fields s) k = Some f"
  shows "0 \<le> f_offset f" "f_offset f + f_size f \<le> recordSize s" "f_size f = field_size (f_type f)" "known_field (f_type f)"
proof -
  note c = compiled_layout [OF assms(1)]
  have m: "(k, f) \<in> set (rec_fields s)" using assms(2) by (rule map_of_SomeD)
  then show "0 \<le> f_offset f" "f_offset f + f_size f \<le> recordSize s" "f_size f = field_size (f_type f)"
    using c by (auto simp: list_all_iff)
  have "(k, f_type f) \<in> set def" using c m by (force simp: image_iff)
  then show "known_field (f_type f)" using schema_accepts [of def] assms(1) by (auto simp: list_all_iff)
qed

lemma compiled_fields_apart:
  assumes "new_TakyonSchema def = Inr s" "map_of (rec_fields s) k = Some f" "map_of (rec_fields s) k' = Some f'" "k \<noteq> k'"
  shows "f_offset f + f_size f \<le> f_offset f' \<or> f_offset f' + f_size f' \<le> f_offset f"
  using sorted_wrt_pair [of _ _ "(k, f)" "(k', f')"] compiled_layout [OF assms(1)] assms(2-4) map_of_SomeD by fastforce

section \<open>Properties\<close>

text \<open>C31. The record compiler accepts exactly the non-empty definitions of storable types. Compiled fields
  keep their names, types and order; each is at the least offset that is a multiple of its
  alignment after the one before, so they are aligned and disjoint and lie in the record, and the
  record size is a multiple of 8.\<close>

theorem record_layout:
  "(is_ok (new_TakyonSchema def) \<longleftrightarrow> def \<noteq> [] \<and> list_all (\<lambda>(k, t). known_field t) def)
    \<and> (case new_TakyonSchema def of Inl e \<Rightarrow> True | Inr s \<Rightarrow>
        map (\<lambda>(k, f). (k, f_type f)) (rec_fields s) = def
        \<and> packed 0 (rec_fields s)
        \<and> 8 dvd recordSize s
        \<and> list_all (\<lambda>(k, f). 0 \<le> f_offset f \<and> f_offset f + f_size f \<le> recordSize s
             \<and> field_align (f_type f) dvd f_offset f \<and> f_size f = field_size (f_type f)) (rec_fields s)
        \<and> sorted_wrt (\<lambda>f g. f_offset (snd f) + f_size (snd f) \<le> f_offset (snd g)) (rec_fields s))"
  using schema_accepts [of def] compiled_layout [of def] by (simp split: sum.split)

text \<open>\<open>alignUp\<close> is the least multiple of the alignment that is not below the value.\<close>

theorem alignUp_is_least_multiple:
  assumes "0 < a"
  shows "a dvd w \<and> v \<le> w \<longleftrightarrow> a dvd w \<and> alignUp v a \<le> w"
  using alignUp_least [OF assms] alignUp_bounds [OF assms, of v] by fastforce

theorem alignUp_is_least_multiple_witness: "alignUp 20 8 \<le> 24"
  using alignUp_is_least_multiple [of 8 24 20] by simp

end
