(* ===== verification/Scrub.thy ===== *)
theory Scrub
  imports ByteView
begin

text \<open>
  CRC-sealed record envelopes (\<open>client/scrub.ts\<close>): the checksum, sealing, the TypeScript verifier and
  the walk over concatenated envelopes. The native kernels are parameters: an optional function that
  may throw. 32-bit integer operations are words.
\<close>

definition REC_MAGIC :: int where "REC_MAGIC = 0x54524543"
definition REC_VERSION :: int where "REC_VERSION = 1"
definition REC_HEADER_LEN :: nat where "REC_HEADER_LEN = 10"
definition REC_CRC_LEN :: nat where "REC_CRC_LEN = 4"
definition REC_OVERHEAD :: nat where "REC_OVERHEAD = REC_HEADER_LEN + REC_CRC_LEN"

lemmas rec_consts = REC_MAGIC_def REC_VERSION_def REC_HEADER_LEN_def REC_CRC_LEN_def REC_OVERHEAD_def

record scrub_report =
  sr_ok :: nat
  sr_corrupt :: nat
  sr_bytes :: nat
  sr_truncated :: bool

section \<open>The checksum\<close>

definition crc_bit :: "32 word \<Rightarrow> 32 word" where
  "crc_bit crc = (if and crc 1 \<noteq> 0 then xor (drop_bit 1 crc) 0xedb88320 else drop_bit 1 crc)"

definition crc_byte :: "32 word \<Rightarrow> byte8 \<Rightarrow> 32 word" where
  "crc_byte crc b = (crc_bit ^^ 8) (xor crc (ucast b))"

definition crc32IEEE :: "buffer \<Rightarrow> int" where
  "crc32IEEE data = uint (xor (foldl crc_byte 0xffffffff data) 0xffffffff)"

section \<open>Envelopes\<close>

definition byte_at :: "buffer \<Rightarrow> nat \<Rightarrow> int" where
  \<comment> \<open>\<open>buf[i]\<close> as a bitwise operand: past the end \<open>undefined\<close> counts as 0\<close>
  "byte_at buf i = (if i < length buf then uint (buf ! i) else 0)"

definition view32 :: "buffer \<Rightarrow> nat \<Rightarrow> int" where
  "view32 buf off = uint (or (or (or (word_of_int (byte_at buf off) :: 32 word)
       (push_bit 8 (word_of_int (byte_at buf (off + 1)))))
       (push_bit 16 (word_of_int (byte_at buf (off + 2)))))
       (word_of_int (byte_at buf (off + 3) * 0x1000000)))"

definition view16 :: "buffer \<Rightarrow> nat \<Rightarrow> int" where
  \<comment> \<open>\<open>buf[i] | (buf[i + 1] << 8)\<close>\<close>
  "view16 buf off = uint (or (word_of_int (byte_at buf off) :: 32 word)
       (push_bit 8 (word_of_int (byte_at buf (off + 1)))))"

definition sealRecord :: "buffer \<Rightarrow> buffer" where
  "sealRecord payload =
     (let out0 = replicate (REC_OVERHEAD + length payload) 0;
          out1 = set_u32 0 REC_MAGIC out0;
          out2 = write_at 4 (le_bytes 2 REC_VERSION) out1;
          out3 = set_u32 6 (int (length payload)) out2;
          crc = crc32IEEE (take REC_HEADER_LEN out3 @ payload);
          out4 = set_u32 REC_HEADER_LEN crc out3
      in write_at REC_OVERHEAD payload out4)"

definition verifyRecordFallback :: "buffer \<Rightarrow> bool" where
  "verifyRecordFallback buf =
     (if length buf < REC_OVERHEAD then False
      else if view32 buf 0 \<noteq> REC_MAGIC then False
      else if view16 buf 4 \<noteq> REC_VERSION then False
      else let plen = nat (view32 buf 6) in
        if length buf < REC_OVERHEAD + plen then False
        else let crc = crc32IEEE (take REC_HEADER_LEN buf @ take plen (drop REC_OVERHEAD buf))
          in view32 buf REC_HEADER_LEN = crc)"

definition verifyRecord :: "(buffer \<Rightarrow> bool res) option \<Rightarrow> buffer \<Rightarrow> bool" where
  "verifyRecord verify_record buf =
     (case verify_record of
        None \<Rightarrow> verifyRecordFallback buf
      | Some fn \<Rightarrow> (case fn buf of Inr b \<Rightarrow> b | Inl _ \<Rightarrow> verifyRecordFallback buf))"

definition declaredLen :: "buffer \<Rightarrow> nat option" where
  "declaredLen buf =
     (if length buf < REC_HEADER_LEN then None
      else if view32 buf 0 \<noteq> REC_MAGIC then None
      else if view16 buf 4 \<noteq> REC_VERSION then None
      else Some (nat (view32 buf 6)))"

function scrub_loop :: "buffer \<Rightarrow> nat \<Rightarrow> nat \<Rightarrow> nat \<Rightarrow> scrub_report" where
  \<comment> \<open>the loop with its variables \<open>off\<close>, \<open>ok\<close> and \<open>bytes\<close>; the other two are set when it stops\<close>
  "scrub_loop buf off oks bytes =
     (if off < length buf then
        let rest = drop off buf in
        case declaredLen rest of
          None \<Rightarrow> if list_all (\<lambda>b. b = 0) rest
                  then \<lparr>sr_ok = oks, sr_corrupt = 0, sr_bytes = bytes, sr_truncated = False\<rparr>
                  else \<lparr>sr_ok = oks, sr_corrupt = 1, sr_bytes = bytes, sr_truncated = False\<rparr>
        | Some plen \<Rightarrow>
            if length rest < REC_OVERHEAD + plen
            then \<lparr>sr_ok = oks, sr_corrupt = 0, sr_bytes = bytes, sr_truncated = True\<rparr>
            else if \<not> verifyRecordFallback (take (REC_OVERHEAD + plen) rest)
            then \<lparr>sr_ok = oks, sr_corrupt = 1, sr_bytes = bytes, sr_truncated = False\<rparr>
            else scrub_loop buf (off + (REC_OVERHEAD + plen)) (oks + 1) (bytes + (REC_OVERHEAD + plen))
      else \<lparr>sr_ok = oks, sr_corrupt = 0, sr_bytes = bytes, sr_truncated = False\<rparr>)"
  by pat_completeness auto
termination
  by (relation "measure (\<lambda>(buf, off, oks, bytes). length buf - off)") (auto simp: rec_consts)

declare scrub_loop.simps [simp del]

definition scrubFallback :: "buffer \<Rightarrow> scrub_report" where
  "scrubFallback buf = scrub_loop buf 0 0 0"

definition scrubRecords :: "(buffer \<Rightarrow> scrub_report res) option \<Rightarrow> buffer \<Rightarrow> scrub_report" where
  "scrubRecords scrub_records buf =
     (case scrub_records of
        None \<Rightarrow> scrubFallback buf
      | Some fn \<Rightarrow> (case fn buf of Inr r \<Rightarrow> r | Inl _ \<Rightarrow> scrubFallback buf))"

section \<open>The checksum step is injective\<close>

lemma crc_bit_top: "bit (crc_bit c) 31 \<longleftrightarrow> bit c 0"
proof -
  have "bit (0xedb88320 :: 32 word) 31" by simp
  moreover have "and c 1 \<noteq> 0 \<longleftrightarrow> bit c 0" by (simp add: and_one_eq odd_iff_mod_2_eq_one bit_0)
  moreover have "\<not> bit c 32" using bit_imp_le_length [of c 32] by auto
  ultimately show ?thesis by (simp add: crc_bit_def bit_xor_iff bit_drop_bit_eq)
qed

lemma inj_crc_bit: "inj crc_bit"
proof (rule injI)
  fix c d
  assume eq: "crc_bit c = crc_bit d"
  have low: "bit c 0 \<longleftrightarrow> bit d 0" using eq crc_bit_top by metis
  have b0: "and x 1 \<noteq> 0 \<longleftrightarrow> bit x 0" for x :: "32 word"
    by (simp add: and_one_eq odd_iff_mod_2_eq_one bit_0)
  have "drop_bit 1 c = drop_bit 1 d"
  proof (cases "bit c 0")
    case True
    then have "xor (xor (drop_bit 1 c) 0xedb88320) 0xedb88320 = xor (xor (drop_bit 1 d) 0xedb88320) (0xedb88320 :: 32 word)"
      using eq low by (simp add: crc_bit_def b0)
    then show ?thesis by (simp add: xor.assoc)
  next
    case False
    then show ?thesis using eq low by (simp add: crc_bit_def b0)
  qed
  then have "bit c (Suc n) \<longleftrightarrow> bit d (Suc n)" for n
    by (metis bit_drop_bit_eq comp_apply plus_1_eq_Suc)
  then have "bit c n \<longleftrightarrow> bit d n" for n using low by (cases n) simp_all
  then show "c = d" by (simp add: bit_eq_iff)
qed

lemma crc_bits_inject: "(crc_bit ^^ n) c = (crc_bit ^^ n) d \<longleftrightarrow> c = d"
  using inj_fn [OF inj_crc_bit, of n] by (auto simp: inj_def)

lemma crc_byte_state: "crc_byte c b = crc_byte d b \<longleftrightarrow> c = d"
proof
  assume "crc_byte c b = crc_byte d b"
  then have "xor (xor c (ucast b)) (ucast b) = xor (xor d (ucast b)) (ucast b)"
    by (simp add: crc_byte_def crc_bits_inject)
  then show "c = d" by (simp add: xor.assoc)
qed simp

lemma crc_byte_byte: "crc_byte c a = crc_byte c b \<longleftrightarrow> a = b"
proof
  assume "crc_byte c a = crc_byte c b"
  then have "xor c (xor c (ucast a)) = xor c (xor c (ucast b))"
    by (simp add: crc_byte_def crc_bits_inject)
  then have "(ucast a :: 32 word) = ucast b" by (simp add: xor.assoc [symmetric])
  then have "uint (ucast a :: 32 word) = uint (ucast b :: 32 word)" by simp
  then show "a = b" by (simp add: uint_up_ucast is_up word_uint_eq_iff)
qed simp

lemma crc_fold_state: "foldl crc_byte c xs = foldl crc_byte d xs \<longleftrightarrow> c = d"
  by (induction xs arbitrary: c d) (simp_all add: crc_byte_state)

lemma crc32_eq: "crc32IEEE xs = crc32IEEE ys \<longleftrightarrow> foldl crc_byte 0xffffffff xs = foldl crc_byte 0xffffffff ys"
proof
  assume "crc32IEEE xs = crc32IEEE ys"
  then have "xor (foldl crc_byte 0xffffffff xs) 0xffffffff = xor (foldl crc_byte 0xffffffff ys) (0xffffffff :: 32 word)"
    unfolding crc32IEEE_def word_uint_eq_iff [symmetric] .
  then have "xor (xor (foldl crc_byte 0xffffffff xs) 0xffffffff) 0xffffffff
      = xor (xor (foldl crc_byte 0xffffffff ys) 0xffffffff) (0xffffffff :: 32 word)"
    by simp
  then show "foldl crc_byte 0xffffffff xs = foldl crc_byte 0xffffffff ys" by (simp only: xor.assoc xor_self_eq xor.right_neutral)
qed (simp add: crc32IEEE_def)

text \<open>Two messages of the same length that differ in one byte have different checksums.\<close>

lemma crc32_single_byte: "a \<noteq> b \<Longrightarrow> crc32IEEE (xs @ a # ys) \<noteq> crc32IEEE (xs @ b # ys)"
  by (simp add: crc32_eq crc_fold_state crc_byte_byte)

lemma crc32_bound: "0 \<le> crc32IEEE xs" "crc32IEEE xs < 2 ^ 32"
  using uint_lt2p [of "xor (foldl crc_byte 0xffffffff xs) 0xffffffff"] by (simp_all add: crc32IEEE_def)

section \<open>Reading words\<close>

lemma or_push: "0 \<le> x \<Longrightarrow> x < 2 ^ n \<Longrightarrow> or x (push_bit n y) = x + push_bit n y" for x y :: int
  using concat_bit_eq [of n x y] by (simp add: concat_bit_def take_bit_int_eq_self)

lemma uint_of_byte_at: "uint (word_of_int (byte_at buf i) :: 32 word) = byte_at buf i"
  "0 \<le> byte_at buf i" "byte_at buf i < 256"
  using uint_byte_bound [of "buf ! i"] by (simp_all add: byte_at_def uint_word_of_int)

lemma uint_word32: "0 \<le> x \<Longrightarrow> x < 2 ^ 32 \<Longrightarrow> uint (word_of_int x :: 32 word) = x"
  by (simp add: uint_word_of_int)

lemma uint_push32:
  assumes "0 \<le> x" "x * 2 ^ n < 2 ^ 32"
  shows "uint (push_bit n (word_of_int x :: 32 word)) = push_bit n x"
proof -
  have "push_bit n (word_of_int x :: 32 word) = word_of_int (x * 2 ^ n)" by (simp add: push_bit_eq_mult)
  then show ?thesis using uint_word32 [of "x * 2 ^ n"] assms by (simp only: push_bit_eq_mult) simp
qed

lemma view32_eq:
  "view32 buf off = byte_at buf off + 256 * (byte_at buf (off + 1)
     + 256 * (byte_at buf (off + 2) + 256 * byte_at buf (off + 3)))"
proof -
  define a b c d where "a = byte_at buf off" and "b = byte_at buf (off + 1)"
    and "c = byte_at buf (off + 2)" and "d = byte_at buf (off + 3)"
  have bnd: "0 \<le> a" "a < 256" "0 \<le> b" "b < 256" "0 \<le> c" "c < 256" "0 \<le> d" "d < 256"
    using uint_of_byte_at(2,3) by (simp_all add: a_def b_def c_def d_def)
  have parts: "uint (word_of_int a :: 32 word) = a" "uint (push_bit 8 (word_of_int b :: 32 word)) = push_bit 8 b"
    "uint (push_bit 16 (word_of_int c :: 32 word)) = push_bit 16 c"
    "uint (word_of_int (d * 0x1000000) :: 32 word) = push_bit 24 d"
    using bnd uint_word32 [of a] uint_word32 [of "d * 0x1000000"] uint_push32 [of b 8] uint_push32 [of c 16]
    by (simp_all only: push_bit_eq_mult) simp_all
  have "view32 buf off = or (or (or a (push_bit 8 b)) (push_bit 16 c)) (push_bit 24 d)"
    unfolding view32_def uint_or a_def [symmetric] b_def [symmetric] c_def [symmetric] d_def [symmetric] parts ..
  also have "or a (push_bit 8 b) = a + push_bit 8 b" using bnd by (intro or_push) simp_all
  also have "or (a + push_bit 8 b) (push_bit 16 c) = a + push_bit 8 b + push_bit 16 c"
    using bnd by (intro or_push) (simp_all add: push_bit_eq_mult)
  also have "or (a + push_bit 8 b + push_bit 16 c) (push_bit 24 d) = a + push_bit 8 b + push_bit 16 c + push_bit 24 d"
    using bnd by (intro or_push) (simp_all add: push_bit_eq_mult)
  also have "\<dots> = a + 256 * (b + 256 * (c + 256 * d))" by (simp add: push_bit_eq_mult)
  finally show ?thesis by (simp add: a_def b_def c_def d_def)
qed

lemma view16_eq: "view16 buf off = byte_at buf off + 256 * byte_at buf (off + 1)"
proof -
  have bnd: "0 \<le> byte_at buf i" "byte_at buf i < 256" for i by (rule uint_of_byte_at)+
  have "view16 buf off = or (byte_at buf off) (push_bit 8 (byte_at buf (off + 1)))"
    unfolding view16_def uint_or uint_of_byte_at(1)
    using bnd [of "off + 1"] by (subst uint_push32) simp_all
  then show ?thesis using or_push [of "byte_at buf off" 8 "byte_at buf (off + 1)"] bnd [of off]
    by (simp add: push_bit_eq_mult)
qed

lemma take_drop_Suc: "i < length xs \<Longrightarrow> take (Suc n) (drop i xs) = xs ! i # take n (drop (Suc i) xs)"
  by (simp add: Cons_nth_drop_Suc [symmetric])

lemma view32_u32: "off + 4 \<le> length buf \<Longrightarrow> view32 buf off = u32_at off buf"
proof -
  assume a: "off + 4 \<le> length buf"
  have "read_at off 4 buf = [buf ! off, buf ! (off + 1), buf ! (off + 2), buf ! (off + 3)]"
    using a by (simp add: read_at_def numeral_eq_Suc take_drop_Suc)
  then show ?thesis using a by (simp add: u32_at_def view32_eq byte_at_def)
qed

lemma view16_value: "off + 2 \<le> length buf \<Longrightarrow> view16 buf off = le_value (read_at off 2 buf)"
proof -
  assume a: "off + 2 \<le> length buf"
  have "read_at off 2 buf = [buf ! off, buf ! (off + 1)]"
    using a by (simp add: read_at_def numeral_eq_Suc take_drop_Suc)
  then show ?thesis using a by (simp add: view16_eq byte_at_def)
qed

section \<open>The shape of an envelope\<close>

definition env_header :: "int \<Rightarrow> buffer" where
  "env_header n = le_bytes 4 REC_MAGIC @ le_bytes 2 REC_VERSION @ le_bytes 4 n"

definition env_crc :: "buffer \<Rightarrow> buffer" where
  "env_crc payload = le_bytes 4 (crc32IEEE (env_header (int (length payload)) @ payload))"

lemma length_env [simp]: "length (env_header n) = 10" "length (env_crc p) = 4"
  by (simp_all add: env_header_def env_crc_def)

lemma sealRecord_eq: "sealRecord p = env_header (int (length p)) @ env_crc p @ p"
proof -
  let ?z = "replicate (length p) (0 :: byte8)"
  have out0: "replicate (REC_OVERHEAD + length p) 0 = replicate 14 (0 :: byte8) @ ?z"
    by (simp add: rec_consts replicate_add [symmetric])
  have out1: "set_u32 0 REC_MAGIC (replicate 14 0 @ ?z) = le_bytes 4 REC_MAGIC @ replicate 10 0 @ ?z"
    by (simp add: set_u32_def write_at_def)
  have out2: "write_at 4 (le_bytes 2 REC_VERSION) (le_bytes 4 REC_MAGIC @ replicate 10 0 @ ?z)
      = le_bytes 4 REC_MAGIC @ le_bytes 2 REC_VERSION @ replicate 8 0 @ ?z"
    by (simp add: write_at_def)
  have out3: "set_u32 6 n (le_bytes 4 REC_MAGIC @ le_bytes 2 REC_VERSION @ replicate 8 0 @ ?z)
      = env_header n @ replicate 4 0 @ ?z" for n
    by (simp add: set_u32_def write_at_def env_header_def)
  have out4: "set_u32 REC_HEADER_LEN c (h @ replicate 4 0 @ ?z) = h @ le_bytes 4 c @ ?z" if "length h = 10" for h c
    using that by (simp add: set_u32_def write_at_def REC_HEADER_LEN_def)
  have out5: "write_at REC_OVERHEAD p (h @ c @ ?z) = h @ c @ p" if "length h = 10" "length c = 4" for h c
    using that by (simp add: write_at_def rec_consts)
  have hd: "take REC_HEADER_LEN (env_header n @ r) = env_header n" for n r
    by (simp add: REC_HEADER_LEN_def)
  show ?thesis
    unfolding sealRecord_def Let_def out0 out1 out2 out3 hd out4 [OF length_env(1)]
    by (simp only: out5 [OF length_env(1) length_le_bytes] env_crc_def)
qed

lemma length_sealRecord [simp]: "length (sealRecord p) = REC_OVERHEAD + length p"
  by (simp add: sealRecord_eq rec_consts)

lemma env_header_reads:
  assumes "0 \<le> n" "n < 2 ^ 32"
  shows "view32 (env_header n @ rest) 0 = REC_MAGIC" "view16 (env_header n @ rest) 4 = REC_VERSION"
    "view32 (env_header n @ rest) 6 = n"
  using assms by (simp_all add: view32_u32 view16_value u32_at_def read_at_def env_header_def le_value_le_bytes
      REC_MAGIC_def REC_VERSION_def)

lemma env_crc_read: "length h = 10 \<Longrightarrow> view32 (h @ env_crc p @ rest) 10 = crc32IEEE (env_header (int (length p)) @ p)"
  using crc32_bound [of "env_header (int (length p)) @ p"]
  by (simp add: view32_u32 u32_at_def read_at_def env_crc_def le_value_le_bytes)

lemma declaredLen_seal:
  "length p < 2 ^ 32 \<Longrightarrow> declaredLen (sealRecord p @ rest) = Some (length p)"
proof -
  assume "length p < 2 ^ 32"
  then have b: "0 \<le> int (length p)" "int (length p) < 2 ^ 32" by simp_all
  show ?thesis
    using env_header_reads [OF b, of "env_crc p @ p @ rest"]
    by (simp add: declaredLen_def sealRecord_eq REC_HEADER_LEN_def)
qed

lemma verify_seal:
  "length p < 2 ^ 32 \<Longrightarrow> verifyRecordFallback (sealRecord p @ rest)"
proof -
  assume "length p < 2 ^ 32"
  then have b: "0 \<le> int (length p)" "int (length p) < 2 ^ 32" by simp_all
  show ?thesis
    using env_header_reads [OF b, of "env_crc p @ p @ rest"] env_crc_read [of "env_header (int (length p))" p "p @ rest"]
    by (simp add: verifyRecordFallback_def sealRecord_eq rec_consts Let_def)
qed

lemma scrub_step:
  assumes "length p < 2 ^ 32"
  shows "scrub_loop (pre @ sealRecord p @ rest) (length pre) oks bytes
    = scrub_loop (pre @ sealRecord p @ rest) (length (pre @ sealRecord p)) (oks + 1) (bytes + length (sealRecord p))"
proof -
  have d: "declaredLen (sealRecord p @ rest) = Some (length p)" by (rule declaredLen_seal [OF assms])
  have v: "verifyRecordFallback (sealRecord p)" using verify_seal [OF assms, of "[]"] by simp
  have "0 < REC_OVERHEAD" by (simp add: rec_consts)
  then show ?thesis by (subst scrub_loop.simps) (simp add: Let_def d v add.assoc)
qed

lemma scrub_all:
  assumes "list_all (\<lambda>p. length p < 2 ^ 32) ps"
  shows "scrub_loop (pre @ concat (map sealRecord ps) @ rest) (length pre) oks bytes
    = scrub_loop (pre @ concat (map sealRecord ps) @ rest) (length (pre @ concat (map sealRecord ps)))
        (oks + length ps) (bytes + length (concat (map sealRecord ps)))"
  using assms
proof (induction ps arbitrary: pre oks bytes)
  case (Cons p ps)
  have "scrub_loop (pre @ concat (map sealRecord (p # ps)) @ rest) (length pre) oks bytes
     = scrub_loop ((pre @ sealRecord p) @ concat (map sealRecord ps) @ rest) (length (pre @ sealRecord p))
         (oks + 1) (bytes + length (sealRecord p))"
    using Cons.prems scrub_step [of p pre "concat (map sealRecord ps) @ rest"] by simp
  also have "\<dots> = scrub_loop ((pre @ sealRecord p) @ concat (map sealRecord ps) @ rest)
      (length ((pre @ sealRecord p) @ concat (map sealRecord ps))) (oks + 1 + length ps)
      (bytes + length (sealRecord p) + length (concat (map sealRecord ps)))"
    by (rule Cons.IH) (use Cons.prems in simp)
  finally show ?case by (simp add: algebra_simps)
qed simp

lemma scrub_stop_zero:
  assumes "list_all (\<lambda>b. b = 0) tail"
  shows "scrub_loop (pre @ tail) (length pre) oks bytes
    = \<lparr>sr_ok = oks, sr_corrupt = 0, sr_bytes = bytes, sr_truncated = False\<rparr>"
proof -
  have "byte_at tail i = 0" for i using assms by (simp add: byte_at_def list_all_length)
  then have "view32 tail 0 = 0" by (simp add: view32_eq)
  then have "declaredLen tail = None" by (simp add: declaredLen_def REC_MAGIC_def)
  then show ?thesis using assms by (subst scrub_loop.simps) (simp add: Let_def)
qed

lemma seal_byte0: "0 < n \<Longrightarrow> \<not> list_all (\<lambda>b. b = 0) (take n (sealRecord p))"
proof -
  assume "0 < n"
  then obtain m where "n = Suc m" by (cases n) auto
  moreover have "le_bytes 4 REC_MAGIC = [67, 69, 82, 84]" by code_simp
  ultimately show ?thesis by (simp add: sealRecord_eq env_header_def)
qed

lemma scrub_stop_partial:
  assumes "length p < 2 ^ 32" "0 < n" "n < length (sealRecord p)"
  shows "scrub_loop (pre @ take n (sealRecord p)) (length pre) oks bytes
    = \<lparr>sr_ok = oks, sr_corrupt = (if n < REC_HEADER_LEN then 1 else 0), sr_bytes = bytes,
       sr_truncated = (REC_HEADER_LEN \<le> n)\<rparr>"
proof (cases "n < REC_HEADER_LEN")
  case True
  then have "declaredLen (take n (sealRecord p)) = None"
    by (simp add: declaredLen_def min_less_iff_disj)
  then show ?thesis using True assms seal_byte0 [OF assms(2)]
    by (subst scrub_loop.simps) (simp add: Let_def)
next
  case False
  have b: "0 \<le> int (length p)" "int (length p) < 2 ^ 32" using assms(1) by simp_all
  have t: "take n (sealRecord p) = env_header (int (length p)) @ take (n - 10) (env_crc p @ p)"
    using False by (simp add: sealRecord_eq REC_HEADER_LEN_def)
  have "declaredLen (take n (sealRecord p)) = Some (length p)"
    unfolding t using env_header_reads [OF b] by (simp add: declaredLen_def REC_HEADER_LEN_def)
  then show ?thesis using False assms by (subst scrub_loop.simps) (simp add: Let_def)
qed

section \<open>Corruption\<close>

lemma verify_pieces:
  assumes "length h = 10" "length c = 4" "read_at 6 4 h = le_bytes 4 (int (length p))" "length p < 2 ^ 32"
  shows "verifyRecordFallback (h @ c @ p @ rest) \<longleftrightarrow>
    read_at 0 4 h = le_bytes 4 REC_MAGIC \<and> read_at 4 2 h = le_bytes 2 REC_VERSION \<and> le_value c = crc32IEEE (h @ p)"
proof -
  have v: "view32 (h @ r) 0 = le_value (read_at 0 4 h)" "view16 (h @ r) 4 = le_value (read_at 4 2 h)"
    "view32 (h @ r) 6 = int (length p)" "view32 (h @ c @ r) 10 = le_value c" for r
    using assms by (simp_all add: view32_u32 view16_value u32_at_def read_at_def le_value_le_bytes)
  have m: "le_value (read_at 0 4 h) = REC_MAGIC \<longleftrightarrow> read_at 0 4 h = le_bytes 4 REC_MAGIC"
    "le_value (read_at 4 2 h) = REC_VERSION \<longleftrightarrow> read_at 4 2 h = le_bytes 2 REC_VERSION"
    using assms(1) le_value_inj [of "read_at 0 4 h" "le_bytes 4 REC_MAGIC"]
      le_value_inj [of "read_at 4 2 h" "le_bytes 2 REC_VERSION"]
    by (auto simp: le_value_le_bytes REC_MAGIC_def REC_VERSION_def)
  show ?thesis using assms by (simp add: verifyRecordFallback_def rec_consts v m [unfolded rec_consts] Let_def)
qed

lemma env_pieces:
  "read_at 0 4 (env_header n) = le_bytes 4 REC_MAGIC" "read_at 4 2 (env_header n) = le_bytes 2 REC_VERSION"
  "read_at 6 4 (env_header n) = le_bytes 4 n"
  by (simp_all add: env_header_def read_at_def)

lemma read_at_update:
  "i < off \<or> off + n \<le> i \<Longrightarrow> read_at off n (xs[i := b]) = read_at off n xs"
  "off \<le> i \<Longrightarrow> i < off + n \<Longrightarrow> i < length xs \<Longrightarrow> read_at off n (xs[i := b]) = read_at off n xs \<longleftrightarrow> xs ! i = b"
proof -
  show "i < off \<or> off + n \<le> i \<Longrightarrow> read_at off n (xs[i := b]) = read_at off n xs"
    by (auto simp: read_at_def drop_update_swap take_update_cancel)
  assume a: "off \<le> i" "i < off + n" "i < length xs"
  then have "read_at off n (xs[i := b]) = (read_at off n xs)[i - off := b]"
    by (simp add: read_at_def drop_update_swap take_update_swap)
  moreover have "(read_at off n xs) ! (i - off) = xs ! i" "i - off < length (read_at off n xs)"
    using a by (simp_all add: read_at_def) arith
  ultimately show "read_at off n (xs[i := b]) = read_at off n xs \<longleftrightarrow> xs ! i = b"
    by (simp add: list_update_same_conv)
qed

section \<open>Properties\<close>

text \<open>C27. Scrub round trip: walking any sequence of sealed payloads followed by any number of zero bytes
  reports every envelope intact, nothing corrupt, nothing truncated, and counts their bytes.\<close>

theorem scrub_sealed_sequence:
  assumes "list_all (\<lambda>p. length p < 2 ^ 32) ps"
  shows "scrubFallback (concat (map sealRecord ps) @ replicate k 0)
    = \<lparr>sr_ok = length ps, sr_corrupt = 0, sr_bytes = sum_list (map (\<lambda>p. REC_OVERHEAD + length p) ps),
       sr_truncated = False\<rparr>"
proof -
  have "length (concat (map sealRecord ps)) = sum_list (map (\<lambda>p. REC_OVERHEAD + length p) ps)"
    by (simp add: length_concat comp_def)
  then show ?thesis
    using scrub_all [OF assms, of "[]" "replicate k 0" 0 0]
      scrub_stop_zero [of "replicate k 0" "concat (map sealRecord ps)"]
    by (simp add: scrubFallback_def list_all_iff)
qed

theorem scrub_sealed_sequence_witness:
  "sr_ok (scrubFallback (concat (map sealRecord [[1, 2], []]) @ replicate 3 0)) = 2"
  using scrub_sealed_sequence [of "[[1, 2], []]" 3] by simp

text \<open>A partial envelope at the end of an extent is reported as truncated only from the tenth byte on; cut
  inside the header it is counted as corrupt and not as truncated.\<close>

theorem scrub_partial_tail:
  assumes "list_all (\<lambda>p. length p < 2 ^ 32) ps" and "length p < 2 ^ 32"
    and "0 < n" and "n < length (sealRecord p)"
  shows "scrubFallback (concat (map sealRecord ps) @ take n (sealRecord p))
    = \<lparr>sr_ok = length ps, sr_corrupt = (if n < REC_HEADER_LEN then 1 else 0),
       sr_bytes = sum_list (map (\<lambda>p. REC_OVERHEAD + length p) ps), sr_truncated = (REC_HEADER_LEN \<le> n)\<rparr>"
proof -
  have "length (concat (map sealRecord ps)) = sum_list (map (\<lambda>p. REC_OVERHEAD + length p) ps)"
    by (simp add: length_concat comp_def)
  then show ?thesis
    using scrub_all [OF assms(1), of "[]" "take n (sealRecord p)" 0 0]
      scrub_stop_partial [OF assms(2-4), of "concat (map sealRecord ps)"]
    by (simp add: scrubFallback_def)
qed

theorem scrub_partial_tail_witness:
  "sr_truncated (scrubFallback (concat (map sealRecord [[7]]) @ take 12 (sealRecord [1, 2])))
    \<and> sr_corrupt (scrubFallback (concat (map sealRecord [[7]]) @ take 9 (sealRecord [1, 2]))) = 1"
  using scrub_partial_tail [of "[[7]]" "[1, 2]" 12] scrub_partial_tail [of "[[7]]" "[1, 2]" 9]
  by (simp add: rec_consts)



end
