(* ===== verification/Utf8.thy ===== *)
theory Utf8
  imports ByteView
begin

text \<open>
  UTF-8 as the standard text codecs do it. \<open>TextEncoder\<close> (and the bridge's string conversion) turns
  UTF-16 code units into bytes, replacing a lone surrogate by U+FFFD; \<open>TextDecoder\<close> decodes with
  replacement of malformed sequences and drops a leading byte order mark. The lemmas give the round
  trip and the way encoding splits at ASCII separators, which is what the key formats rely on.
\<close>

named_theorems utf8_simps "encoding of concatenations"

section \<open>Encoding\<close>

definition is_high :: "code_unit \<Rightarrow> bool" where
  "is_high c \<longleftrightarrow> 0xD800 \<le> uint c \<and> uint c < 0xDC00"

definition is_low :: "code_unit \<Rightarrow> bool" where
  "is_low c \<longleftrightarrow> 0xDC00 \<le> uint c \<and> uint c < 0xE000"

fun scalars :: "jstr \<Rightarrow> int list" where
  \<comment> \<open>code points, lone surrogates replaced\<close>
  "scalars [] = []"
| "scalars [c] = [if is_high c \<or> is_low c then 0xFFFD else uint c]"
| "scalars (c # d # cs) =
     (if is_high c \<and> is_low d then
        (0x10000 + (uint c - 0xD800) * 0x400 + (uint d - 0xDC00)) # scalars cs
      else (if is_high c \<or> is_low c then 0xFFFD else uint c) # scalars (d # cs))"

definition utf8_scalar :: "int \<Rightarrow> buffer" where
  "utf8_scalar n =
     (if n < 0x80 then [word_of_int n]
      else if n < 0x800 then [word_of_int (0xC0 + n div 64), word_of_int (0x80 + n mod 64)]
      else if n < 0x10000 then
        [word_of_int (0xE0 + n div 4096), word_of_int (0x80 + n div 64 mod 64), word_of_int (0x80 + n mod 64)]
      else [word_of_int (0xF0 + n div 262144), word_of_int (0x80 + n div 4096 mod 64),
            word_of_int (0x80 + n div 64 mod 64), word_of_int (0x80 + n mod 64)])"

definition utf8_encode :: "jstr \<Rightarrow> buffer" where
  "utf8_encode s = concat (map utf8_scalar (scalars s))"

section \<open>Decoding\<close>

text \<open>
  The decoder of the Encoding Standard: the pending code point, the number of continuation bytes
  still needed, and the bounds of the next one.
\<close>

function utf8_scan :: "int \<Rightarrow> nat \<Rightarrow> int \<Rightarrow> int \<Rightarrow> buffer \<Rightarrow> int list" where
  "utf8_scan cp need lo hi [] = (if need = 0 then [] else [0xFFFD])"
| "utf8_scan cp need lo hi (b # bs) =
     (if need = 0 then
        (if uint b < 0x80 then uint b # utf8_scan 0 0 0x80 0xBF bs
         else if 0xC2 \<le> uint b \<and> uint b \<le> 0xDF then utf8_scan (uint b - 0xC0) 1 0x80 0xBF bs
         else if 0xE0 \<le> uint b \<and> uint b \<le> 0xEF then
           utf8_scan (uint b - 0xE0) 2 (if uint b = 0xE0 then 0xA0 else 0x80) (if uint b = 0xED then 0x9F else 0xBF) bs
         else if 0xF0 \<le> uint b \<and> uint b \<le> 0xF4 then
           utf8_scan (uint b - 0xF0) 3 (if uint b = 0xF0 then 0x90 else 0x80) (if uint b = 0xF4 then 0x8F else 0xBF) bs
         else 0xFFFD # utf8_scan 0 0 0x80 0xBF bs)
      else if uint b < lo \<or> hi < uint b then 0xFFFD # utf8_scan 0 0 0x80 0xBF (b # bs)
      else if need = 1 then (cp * 64 + (uint b - 0x80)) # utf8_scan 0 0 0x80 0xBF bs
      else utf8_scan (cp * 64 + (uint b - 0x80)) (need - 1) 0x80 0xBF bs)"
  by pat_completeness auto
termination
  by (relation "measures [\<lambda>(_, _, _, _, bs). length bs, \<lambda>(_, need, _, _, _). need]") auto

declare utf8_scan.simps(2) [simp del]

definition utf8_scalars :: "buffer \<Rightarrow> int list" where
  "utf8_scalars bs = utf8_scan 0 0 0x80 0xBF bs"

definition strip_bom :: "int list \<Rightarrow> int list" where
  "strip_bom ns = (case ns of n # rest \<Rightarrow> if n = 0xFEFF then rest else ns | [] \<Rightarrow> [])"

definition utf16_scalar :: "int \<Rightarrow> jstr" where
  "utf16_scalar n =
     (if n < 0x10000 then [word_of_int n]
      else [word_of_int (0xD800 + (n - 0x10000) div 0x400), word_of_int (0xDC00 + (n - 0x10000) mod 0x400)])"

definition utf8_decode :: "buffer \<Rightarrow> jstr" where
  \<comment> \<open>\<open>new TextDecoder('utf-8').decode(bytes)\<close>\<close>
  "utf8_decode bs = concat (map utf16_scalar (strip_bom (utf8_scalars bs)))"

section \<open>Round trip\<close>

definition scalar :: "int \<Rightarrow> bool" where
  "scalar n \<longleftrightarrow> 0 \<le> n \<and> n < 0x110000 \<and> \<not> (0xD800 \<le> n \<and> n < 0xE000)"

lemma uint_unit_bound: "0 \<le> uint (c :: code_unit)" "uint (c :: code_unit) < 65536"
  using uint_lt2p [of c] by simp_all

lemma scalars_scalar: "list_all scalar (scalars s)"
proof (induction s rule: scalars.induct)
  case (2 c)
  then show ?case using uint_unit_bound [of c] by (auto simp: scalar_def is_high_def is_low_def)
next
  case (3 c d cs)
  then show ?case using uint_unit_bound [of c] uint_unit_bound [of d]
    by (auto simp: scalar_def is_high_def is_low_def)
qed simp

lemma uint_byte_id: "0 \<le> v \<Longrightarrow> v < 256 \<Longrightarrow> uint (word_of_int v :: byte8) = v"
  by (simp add: uint_byte)

lemma mod64:
  "0 \<le> v mod (64::int)" "v mod 64 < (64::int)" "uint (word_of_int (0x80 + v mod 64) :: byte8) = 0x80 + v mod 64"
proof -
  show b: "0 \<le> v mod (64::int)" "v mod 64 < (64::int)" by simp_all
  show "uint (word_of_int (0x80 + v mod 64) :: byte8) = 0x80 + v mod 64"
    by (rule uint_byte_id) (use b in linarith)+
qed

lemma scan_continue:
  "need \<noteq> 0 \<Longrightarrow> uint b = 128 + r \<Longrightarrow> lo \<le> 128 + r \<Longrightarrow> 128 + r \<le> hi \<Longrightarrow>
   utf8_scan cp need lo hi (b # bs) =
     (if need = 1 then (cp * 64 + r) # utf8_scan 0 0 0x80 0xBF bs
      else utf8_scan (cp * 64 + r) (need - 1) 0x80 0xBF bs)"
  by (subst utf8_scan.simps(2)) simp

lemma scan_lead:
  "uint b < 0x80 \<Longrightarrow> utf8_scan 0 0 0x80 0xBF (b # bs) = uint b # utf8_scan 0 0 0x80 0xBF bs"
  "uint b = 0xC0 + q \<Longrightarrow> 2 \<le> q \<Longrightarrow> q < 32 \<Longrightarrow> utf8_scan 0 0 0x80 0xBF (b # bs) = utf8_scan q 1 0x80 0xBF bs"
  "uint b = 0xE0 + q \<Longrightarrow> 0 \<le> q \<Longrightarrow> q < 16 \<Longrightarrow> utf8_scan 0 0 0x80 0xBF (b # bs) =
     utf8_scan q 2 (if q = 0 then 0xA0 else 0x80) (if q = 13 then 0x9F else 0xBF) bs"
  "uint b = 0xF0 + q \<Longrightarrow> 0 \<le> q \<Longrightarrow> q < 5 \<Longrightarrow> utf8_scan 0 0 0x80 0xBF (b # bs) =
     utf8_scan q 3 (if q = 0 then 0x90 else 0x80) (if q = 4 then 0x8F else 0xBF) bs"
  by (subst utf8_scan.simps(2), simp)+

lemma scan_two:
  assumes "uint b = 0xC0 + q" "uint c = 0x80 + r" "2 \<le> q" "q < 32" "0 \<le> r" "r < 64"
  shows "utf8_scan 0 0 0x80 0xBF (b # c # bs) = (q * 64 + r) # utf8_scan 0 0 0x80 0xBF bs"
  using assms by (simp add: scan_lead(2) [of b q] scan_continue [of _ c r])

lemma scan_three:
  assumes "uint b = 0xE0 + q" "uint c = 0x80 + r" "uint d = 0x80 + t" "0 \<le> q" "q < 16"
    and "0 \<le> r" "r < 64" "0 \<le> t" "t < 64" "q = 0 \<Longrightarrow> 32 \<le> r" "q = 13 \<Longrightarrow> r \<le> 31"
  shows "utf8_scan 0 0 0x80 0xBF (b # c # d # bs) = ((q * 64 + r) * 64 + t) # utf8_scan 0 0 0x80 0xBF bs"
  using assms by (simp add: scan_lead(3) [of b q] scan_continue [of _ c r] scan_continue [of _ d t])

lemma scan_four:
  assumes "uint b = 0xF0 + q" "uint c = 0x80 + r" "uint d = 0x80 + t" "uint e = 0x80 + u" "0 \<le> q" "q < 5"
    and "0 \<le> r" "r < 64" "0 \<le> t" "t < 64" "0 \<le> u" "u < 64" "q = 0 \<Longrightarrow> 16 \<le> r" "q = 4 \<Longrightarrow> r \<le> 15"
  shows "utf8_scan 0 0 0x80 0xBF (b # c # d # e # bs) =
    (((q * 64 + r) * 64 + t) * 64 + u) # utf8_scan 0 0 0x80 0xBF bs"
  using assms by (simp add: scan_lead(4) [of b q] scan_continue [of _ c r] scan_continue [of _ d t]
      scan_continue [of _ e u])

lemma chunk_low:
  fixes n :: int
  shows "n = (q * 64 + r) * 64 + t \<Longrightarrow> t < 64 \<Longrightarrow> 0x800 \<le> n \<Longrightarrow> q = 0 \<Longrightarrow> 32 \<le> r"
    and "n = (q * 64 + r) * 64 + t \<Longrightarrow> 0 \<le> t \<Longrightarrow> n < 0xD800 \<or> 0xE000 \<le> n \<Longrightarrow> r < 64 \<Longrightarrow> t < 64 \<Longrightarrow> q = 13 \<Longrightarrow> r \<le> 31"
    and "n = ((q * 64 + r) * 64 + t) * 64 + u \<Longrightarrow> t < 64 \<Longrightarrow> u < 64 \<Longrightarrow> 0x10000 \<le> n \<Longrightarrow> q = 0 \<Longrightarrow> 16 \<le> r"
    and "n = ((q * 64 + r) * 64 + t) * 64 + u \<Longrightarrow> 0 \<le> t \<Longrightarrow> 0 \<le> u \<Longrightarrow> n < 0x110000 \<Longrightarrow> q = 4 \<Longrightarrow> r \<le> 15"
  by auto

lemma scan_scalar:
  assumes "scalar n"
  shows "utf8_scan 0 0 0x80 0xBF (utf8_scalar n @ bs) = n # utf8_scan 0 0 0x80 0xBF bs"
proof -
  have n: "0 \<le> n" "n < 0x110000" "\<not> (0xD800 \<le> n \<and> n < 0xE000)" using assms by (simp_all add: scalar_def)
  note low = mod64
  have chunks: "n div 64 * 64 + n mod 64 = n" "n div 4096 * 64 + n div 64 mod 64 = n div 64"
    "n div 262144 * 64 + n div 4096 mod 64 = n div 4096"
    using div_mult_mod_eq [of n 64] div_mult_mod_eq [of "n div 64" 64] div_mult_mod_eq [of "n div 4096" 64]
    by (simp_all add: zdiv_zmult2_eq [symmetric])
  consider "n < 0x80" | "0x80 \<le> n" "n < 0x800" | "0x800 \<le> n" "n < 0x10000" | "0x10000 \<le> n" by linarith
  then show ?thesis
  proof cases
    case 1
    then have "uint (word_of_int n :: byte8) = n" using n by (intro uint_byte_id) simp_all
    then show ?thesis using 1 by (simp add: utf8_scalar_def scan_lead(1))
  next
    case 2
    have q: "2 \<le> n div 64" "n div 64 < 32" using 2 by presburger+
    then have "uint (word_of_int (0xC0 + n div 64) :: byte8) = 0xC0 + n div 64" by (intro uint_byte_id) simp_all
    moreover have "n div 64 * 64 + n mod 64 = n" by presburger
    moreover have "utf8_scalar n = [word_of_int (0xC0 + n div 64), word_of_int (0x80 + n mod 64)]"
      using 2 unfolding utf8_scalar_def by (simp only: if_False if_True not_less) simp
    ultimately show ?thesis using scan_two [OF _ low(3) q low(1,2)] by (simp only: append.simps)
  next
    case 3
    have e: "n = (n div 4096 * 64 + n div 64 mod 64) * 64 + n mod 64" using chunks by simp
    have q: "0 \<le> n div 4096" "n div 4096 < 16" using 3 by simp_all
    then have b: "uint (word_of_int (0xE0 + n div 4096) :: byte8) = 0xE0 + n div 4096" by (intro uint_byte_id) simp_all
    have lo: "n div 4096 = 0 \<Longrightarrow> 32 \<le> n div 64 mod 64" using chunk_low(1) [OF e low(2)] 3 by blast
    have hi: "n div 4096 = 13 \<Longrightarrow> n div 64 mod 64 \<le> 31"
      using chunk_low(2) [OF e low(1)] low(2) n(3) by force
    have "(n div 4096 * 64 + n div 64 mod 64) * 64 + n mod 64 = n" using e by simp
    moreover have "utf8_scalar n =
        [word_of_int (0xE0 + n div 4096), word_of_int (0x80 + n div 64 mod 64), word_of_int (0x80 + n mod 64)]"
      using 3 unfolding utf8_scalar_def by (simp only: if_False if_True not_less) simp
    ultimately show ?thesis
      using scan_three [OF b low(3) low(3) q low(1,2) low(1,2) lo hi] by (simp only: append.simps)
  next
    case 4
    have e: "n = ((n div 262144 * 64 + n div 4096 mod 64) * 64 + n div 64 mod 64) * 64 + n mod 64"
      using chunks by simp
    have q: "0 \<le> n div 262144" "n div 262144 < 5" using 4 n by simp_all
    then have b: "uint (word_of_int (0xF0 + n div 262144) :: byte8) = 0xF0 + n div 262144"
      by (intro uint_byte_id) simp_all
    have lo: "n div 262144 = 0 \<Longrightarrow> 16 \<le> n div 4096 mod 64"
      using chunk_low(3) [OF e low(2) low(2)] 4 by blast
    have hi: "n div 262144 = 4 \<Longrightarrow> n div 4096 mod 64 \<le> 15"
      using chunk_low(4) [OF e low(1) low(1)] n(2) by blast
    have "((n div 262144 * 64 + n div 4096 mod 64) * 64 + n div 64 mod 64) * 64 + n mod 64 = n" using e by simp
    moreover have "utf8_scalar n = [word_of_int (0xF0 + n div 262144), word_of_int (0x80 + n div 4096 mod 64),
        word_of_int (0x80 + n div 64 mod 64), word_of_int (0x80 + n mod 64)]"
      using 4 unfolding utf8_scalar_def by simp
    ultimately show ?thesis
      using scan_four [OF b low(3) low(3) low(3) q low(1,2) low(1,2) low(1,2) lo hi] by (simp only: append.simps)
  qed
qed

lemma scan_scalars: "list_all scalar ns \<Longrightarrow> utf8_scalars (concat (map utf8_scalar ns)) = ns"
  unfolding utf8_scalars_def by (induction ns) (simp_all add: scan_scalar)

lemma utf8_scalars_encode [simp]: "utf8_scalars (utf8_encode s) = scalars s"
  unfolding utf8_encode_def by (rule scan_scalars [OF scalars_scalar])

lemma utf8_encode_eq_iff: "utf8_encode s = utf8_encode t \<longleftrightarrow> scalars s = scalars t"
  by (metis utf8_encode_def utf8_scalars_encode)

text \<open>Well-formed strings: every surrogate is half of a pair.\<close>

fun well_formed :: "jstr \<Rightarrow> bool" where
  "well_formed [] = True"
| "well_formed [c] = (\<not> is_high c \<and> \<not> is_low c)"
| "well_formed (c # d # cs) =
     (if is_high c \<and> is_low d then well_formed cs
      else \<not> is_high c \<and> \<not> is_low c \<and> well_formed (d # cs))"

lemma utf16_pair:
  assumes "is_high c" "is_low d"
  shows "utf16_scalar (0x10000 + (uint c - 0xD800) * 0x400 + (uint d - 0xDC00)) = [c, d]"
proof -
  define h l where "h = uint c - 0xD800" and "l = uint d - 0xDC00"
  have b: "0 \<le> l" "l < 0x400" "0 \<le> h" using assms by (simp_all add: is_low_def is_high_def h_def l_def)
  have "utf16_scalar (0x10000 + h * 0x400 + l) = [word_of_int (0xD800 + h), word_of_int (0xDC00 + l)]"
    using b by (simp add: utf16_scalar_def)
  then show ?thesis by (simp add: h_def l_def)
qed

lemma utf16_single: "utf16_scalar (uint (c :: code_unit)) = [c]"
  using uint_unit_bound [of c] by (simp add: utf16_scalar_def)

lemma utf16_scalars: "well_formed s \<Longrightarrow> concat (map utf16_scalar (scalars s)) = s"
proof (induction s rule: scalars.induct)
  case (3 c d cs)
  show ?case
  proof (cases "is_high c \<and> is_low d")
    case True
    have "concat (map utf16_scalar (scalars (c # d # cs))) =
        utf16_scalar (0x10000 + (uint c - 0xD800) * 0x400 + (uint d - 0xDC00)) @ cs"
      using True 3 by (simp only: scalars.simps if_True well_formed.simps) simp
    then show ?thesis using True by (simp only: utf16_pair) simp
  qed (use 3 in \<open>auto simp: utf16_single\<close>)
qed (simp_all add: utf16_single)

lemma scalars_inj: "well_formed s \<Longrightarrow> well_formed t \<Longrightarrow> scalars s = scalars t \<longleftrightarrow> s = t"
  by (metis utf16_scalars)

lemma utf8_encode_inj: "well_formed s \<Longrightarrow> well_formed t \<Longrightarrow> utf8_encode s = utf8_encode t \<longleftrightarrow> s = t"
  by (simp add: utf8_encode_eq_iff scalars_inj)

lemma scalars_bom: "scalars (c # s) = 0xFEFF # ns \<Longrightarrow> c = 0xFEFF"
proof (cases s)
  case Nil
  then show "scalars (c # s) = 0xFEFF # ns \<Longrightarrow> c = 0xFEFF" 
    by (auto split: if_splits simp: word_uint_eq_iff)
next
  case (Cons d t)
  show "scalars (c # s) = 0xFEFF # ns \<Longrightarrow> c = 0xFEFF"
    unfolding Cons by (auto simp: is_high_def is_low_def word_uint_eq_iff split: if_splits)
qed

lemma utf8_decode_encode:
  assumes "well_formed s"
  shows "utf8_decode (utf8_encode s) = (case s of c # rest \<Rightarrow> if c = 0xFEFF then rest else s | [] \<Rightarrow> [])"
proof (cases s)
  case (Cons c rest)
  show ?thesis
  proof (cases "c = 0xFEFF")
    case True
    have n: "\<not> is_high c" "\<not> is_low c" "uint c = 0xFEFF" using True by (simp_all add: is_high_def is_low_def)
    have sc: "scalars s = 0xFEFF # scalars rest" using n Cons by (cases rest) simp_all
    moreover have "well_formed rest" using assms n Cons by (cases rest) simp_all
    ultimately show ?thesis using True Cons by (simp add: utf8_decode_def strip_bom_def utf16_scalars)
  next
    case False
    have "strip_bom (scalars s) = scalars s"
      using False scalars_bom [of c rest] Cons by (auto simp: strip_bom_def split: list.splits)
    then show ?thesis using False Cons assms by (simp add: utf8_decode_def utf16_scalars)
  qed
qed (simp add: utf8_decode_def utf8_encode_def utf8_scalars_def strip_bom_def)

section \<open>Concatenation\<close>

definition plain_unit :: "code_unit \<Rightarrow> bool" where
  "plain_unit c \<longleftrightarrow> \<not> is_high c \<and> \<not> is_low c"

lemma scalars_Cons_plain: "plain_unit c \<Longrightarrow> scalars (c # s) = uint c # scalars s"
  by (cases s) (simp_all add: plain_unit_def)

lemma scalars_append_plain: "plain_unit c \<Longrightarrow> scalars (s @ c # t) = scalars s @ scalars (c # t)"
proof (induction s rule: scalars.induct)
  case (2 d)
  then show ?case by (simp add: plain_unit_def)
qed simp_all

lemma utf8_append_plain [utf8_simps]:
  "plain_unit c \<Longrightarrow> utf8_encode (s @ c # t) = utf8_encode (s @ [c]) @ utf8_encode t"
  using scalars_append_plain [of c s t] scalars_append_plain [of c s "[]"]
  by (simp add: utf8_encode_def scalars_Cons_plain plain_unit_def)

definition ascii_unit :: "code_unit \<Rightarrow> bool" where
  "ascii_unit c \<longleftrightarrow> uint c < 0x80"

lemma ascii_plain: "ascii_unit c \<Longrightarrow> plain_unit c"
  by (simp add: ascii_unit_def plain_unit_def is_high_def is_low_def)

lemma scalars_ascii: "list_all ascii_unit s \<Longrightarrow> scalars (s @ t) = map uint s @ scalars t"
  by (induction s) (simp_all add: scalars_Cons_plain ascii_plain)

lemma utf8_ascii:
  assumes "list_all ascii_unit s"
  shows "utf8_encode (s @ t) = map (\<lambda>c. word_of_int (uint c)) s @ utf8_encode t"
  using assms
proof (induction s)
  case (Cons c s)
  then show ?case by (simp add: utf8_encode_def scalars_Cons_plain ascii_plain utf8_scalar_def ascii_unit_def)
qed simp

lemma well_formed_plain: "list_all plain_unit s \<Longrightarrow> well_formed s"
  by (induction s rule: well_formed.induct) (auto simp: plain_unit_def)

lemma well_formed_append_plain: "plain_unit c \<Longrightarrow> well_formed (s @ c # t) \<longleftrightarrow> well_formed s \<and> well_formed t"
proof (induction s rule: well_formed.induct)
  case 1
  then show ?case by (cases t) (auto simp: plain_unit_def)
next
  case (2 d)
  then show ?case by (cases t) (auto simp: plain_unit_def)
qed auto

lemma length_utf8_scalar: "1 \<le> length (utf8_scalar n) \<and> length (utf8_scalar n) \<le> 4"
  by (simp add: utf8_scalar_def)

lemma scalars_units:
  "length (concat (map utf8_scalar (scalars s))) \<le> 3 * length s"
proof (induction s rule: scalars.induct)
  case (2 c)
  then show ?case using uint_unit_bound [of c] by (auto simp: utf8_scalar_def)
next
  case (3 c d cs)
  have "length (utf8_scalar (uint c)) \<le> 3" using uint_unit_bound [of c] by (simp add: utf8_scalar_def)
  moreover have "length (utf8_scalar 0xFFFD) \<le> 3" by (simp add: utf8_scalar_def)
  ultimately show ?case using 3 length_utf8_scalar [of "0x10000 + (uint c - 0xD800) * 0x400 + (uint d - 0xDC00)"]
    by (cases "is_high c \<and> is_low d") auto
qed simp

lemma utf8_length_bound: "length (utf8_encode s) \<le> 3 * length s"
  unfolding utf8_encode_def by (rule scalars_units)

lemma utf8_encode_Nil [simp]: "utf8_encode [] = []"
  by (simp add: utf8_encode_def)

lemma utf8_encode_Nil_iff [simp]: "utf8_encode s = [] \<longleftrightarrow> s = []"
proof
  assume e: "utf8_encode s = []"
  show "s = []"
  proof (rule ccontr)
    assume "s \<noteq> []"
    then obtain n ns where "scalars s = n # ns"
      by (cases s rule: scalars.cases) (simp_all, metis)
    then show False using e length_utf8_scalar [of n] by (auto simp: utf8_encode_def)
  qed
qed simp

end
