(* ===== verification/Engine.thy ===== *)
theory Engine
  imports Layout Utf8 "HOL-Library.Sublist"
begin

text \<open>
  The native surface the SDK calls: the interface \<open>TakyonBindings\<close> of \<open>client/proxy.ts\<close> as a record of
  operations on a world (the mapped bytes and the engine's own state), the contract its clients rely
  on as a locale, and the operations of \<open>core/c_abi/exports.zig\<close> behind the bridge
  \<open>sdk/bindings/binding.cc\<close>, on which the contract is discharged. The index region and the log ring
  are kept as the map and the queue they implement, in the engine's state; the header, the records
  and the strings are bytes of the mapping.
\<close>

section \<open>The interface\<close>

record 'e world =
  w_mem :: buffer
  w_eng :: 'e

record ring_pressure_stats =
  saturated_total :: int
  saturated_wait_ns :: int
  dropped_total :: int
  durable_tail :: int

record 'e bindings =
  b_initSharedMemory :: "int \<Rightarrow> ('e world, bool) action"
  b_pushDelta :: "int \<Rightarrow> buffer \<Rightarrow> ('e world, int) action"
  b_notifyArena :: "int \<Rightarrow> int \<Rightarrow> ('e world, int) action"
  b_insert_index :: "jstr \<Rightarrow> int \<Rightarrow> ('e world, int) action"
  b_search_index :: "jstr \<Rightarrow> ('e world, int) action"
  b_remove_index :: "jstr \<Rightarrow> ('e world, int) action"
  b_scan_prefix :: "(jstr \<Rightarrow> int \<Rightarrow> ('e world, int list) action) option"
  b_scan_range :: "(jstr \<Rightarrow> jstr \<Rightarrow> jstr \<Rightarrow> int \<Rightarrow> ('e world, int list) action) option"
  b_commit :: "(int \<Rightarrow> ('e world, int) action) option"
  b_ringStats :: "('e world, ring_pressure_stats) action option"
  b_trigger_checkpoint :: "('e world, int) action"
  b_start_vacuum :: "int \<Rightarrow> ('e world, int) action"
  b_stop_vacuum :: "('e world, int) action option"
  b_disconnect_shm :: "('e world, int) action option"

section \<open>The contract of the index operations\<close>

definition key_bytes :: "jstr \<Rightarrow> bool" where
  "key_bytes k \<longleftrightarrow> utf8_encode k \<noteq> [] \<and> length (utf8_encode k) \<le> 256 \<and> 0 \<notin> set (utf8_encode k)"

definition u32_of :: "int \<Rightarrow> int" where
  \<comment> \<open>\<open>napi_get_value_uint32\<close>\<close>
  "u32_of v = v mod 2 ^ 32"

definition scan_answer :: "int \<Rightarrow> (buffer \<Rightarrow> bool) \<Rightarrow> (buffer \<rightharpoonup> int) \<Rightarrow> int list \<Rightarrow> bool" where
  \<comment> \<open>the offsets of the matching keys, at most \<open>n\<close> of them, each key once, in no stated order\<close>
  "scan_answer n P m out \<longleftrightarrow>
     (\<exists>ks. distinct ks \<and> set ks \<subseteq> {k \<in> dom m. P k} \<and> length ks = min (nat n) (card {k \<in> dom m. P k})
       \<and> out = map (\<lambda>k. the (m k)) ks)"

definition suffix_between :: "buffer \<Rightarrow> buffer \<Rightarrow> buffer \<Rightarrow> bool" where
  "suffix_between lo hi s \<longleftrightarrow> (lo = [] \<or> lo \<le> s) \<and> (hi = [] \<or> s \<le> hi)"

locale index_engine =
  fixes b :: "'e bindings"
    and ready :: "'e world \<Rightarrow> bool"
    and idx :: "'e world \<Rightarrow> (buffer \<rightharpoonup> int)"
  assumes finite_index: "ready w \<Longrightarrow> finite (dom (idx w))"
    and index_values: "ready w \<Longrightarrow> idx w key = Some v \<Longrightarrow> 0 \<le> v \<and> v < 2 ^ 32"
    and insert_law: "ready w \<Longrightarrow> b_insert_index b k v w = (r, w') \<Longrightarrow>
      ready w' \<and> idx w' = (if r = Inr 0 then (idx w)(utf8_encode k \<mapsto> u32_of v) else idx w)"
    and insert_bad_key: "ready w \<Longrightarrow> \<not> key_bytes k \<Longrightarrow> \<exists>m. b_insert_index b k v w = (Inl (RangeError m), w)"
    and search_law: "ready w \<Longrightarrow> key_bytes k \<Longrightarrow> b_search_index b k w =
      (Inr (case idx w (utf8_encode k) of Some v \<Rightarrow> if v < 0x7FFFFFFF then v else - 1 | None \<Rightarrow> - 1), w)"
    and search_bad_key: "ready w \<Longrightarrow> \<not> key_bytes k \<Longrightarrow> \<exists>m. b_search_index b k w = (Inl (RangeError m), w)"
    and remove_law: "ready w \<Longrightarrow> key_bytes k \<Longrightarrow> b_remove_index b k w = (r, w') \<Longrightarrow>
      ready w' \<and> (r = Inr 1 \<and> utf8_encode k \<in> dom (idx w) \<and> idx w' = (idx w)(utf8_encode k := None)
        \<or> r = Inr 0 \<and> utf8_encode k \<notin> dom (idx w) \<and> idx w' = idx w \<or> r = Inr (- 1) \<and> idx w' = idx w)"
    and remove_bad_key: "ready w \<Longrightarrow> \<not> key_bytes k \<Longrightarrow> \<exists>m. b_remove_index b k w = (Inl (RangeError m), w)"
    and prefix_law: "ready w \<Longrightarrow> b_scan_prefix b = Some f \<Longrightarrow> key_bytes p \<Longrightarrow> 1 \<le> n \<Longrightarrow> n \<le> 4096 \<Longrightarrow>
      \<exists>out. f p n w = (Inr out, w) \<and> scan_answer n (prefix (utf8_encode p)) (idx w) out"
    and prefix_bad_key: "ready w \<Longrightarrow> b_scan_prefix b = Some f \<Longrightarrow> \<not> key_bytes p \<Longrightarrow> \<exists>m. f p n w = (Inl (RangeError m), w)"
    and range_law: "ready w \<Longrightarrow> b_scan_range b = Some g \<Longrightarrow> key_bytes p \<Longrightarrow>
      lo = [] \<or> key_bytes lo \<Longrightarrow> hi = [] \<or> key_bytes hi \<Longrightarrow> 1 \<le> n \<Longrightarrow> n \<le> 4096 \<Longrightarrow>
      \<exists>out. g p lo hi n w = (Inr out, w)
        \<and> scan_answer n (\<lambda>k. prefix (utf8_encode p) k \<and>
            suffix_between (utf8_encode lo) (utf8_encode hi) (drop (length (utf8_encode p)) k)) (idx w) out"
begin

lemma finite_matches: "ready w \<Longrightarrow> finite {k \<in> dom (idx w). P k}"
  using finite_index by simp

text \<open>A scan whose cap is not reached returns exactly the matching offsets.\<close>

lemma complete_scan:
  assumes "ready w" and "scan_answer n P (idx w) out" and "card {k \<in> dom (idx w). P k} \<le> nat n"
  shows "set out = {v. \<exists>k. idx w k = Some v \<and> P k}" and "length out = card {k \<in> dom (idx w). P k}"
proof -
  let ?M = "{k \<in> dom (idx w). P k}"
  obtain ks where ks: "distinct ks" "set ks \<subseteq> ?M" "length ks = card ?M" "out = map (\<lambda>k. the (idx w k)) ks"
    using assms(2,3) by (auto simp: scan_answer_def)
  have "card (set ks) = card ?M" using ks distinct_card by metis
  then have "set ks = ?M" using finite_matches [OF assms(1)] ks(2) by (simp add: card_subset_eq)
  then show "set out = {v. \<exists>k. idx w k = Some v \<and> P k}" using ks(4) by (force simp: image_iff)
  show "length out = card ?M" using ks by simp
qed

lemma empty_scan:
  assumes "scan_answer n P (idx w) out" and "1 \<le> n" and "ready w"
  shows "out = [] \<longleftrightarrow> (\<forall>k\<in>dom (idx w). \<not> P k)"
proof -
  have "out = [] \<longleftrightarrow> min (nat n) (card {k \<in> dom (idx w). P k}) = 0" using assms(1) by (auto simp: scan_answer_def)
  also have "\<dots> \<longleftrightarrow> card {k \<in> dom (idx w). P k} = 0" using assms(2) by (auto simp: min_def)
  also have "\<dots> \<longleftrightarrow> {k \<in> dom (idx w). P k} = {}" using finite_matches [OF assms(3)] by simp
  finally show ?thesis by auto
qed

end

section \<open>The contract of the operations on mapped bytes\<close>

definition bump_at :: "int \<Rightarrow> int \<Rightarrow> buffer \<Rightarrow> int" where
  \<comment> \<open>a bump word, seeded on first use\<close>
  "bump_at word seed m = (let v = u32_at (nat word) m in if v = 0 then seed else v)"

abbreviation string_bump :: "regions \<Rightarrow> buffer \<Rightarrow> int" where
  "string_bump rg m \<equiv> bump_at (stringStart rg) (stringDataStart rg) m"

definition strings_extended :: "regions \<Rightarrow> buffer \<Rightarrow> buffer \<Rightarrow> bool" where
  \<comment> \<open>only free string bytes and the string bump word may differ\<close>
  "strings_extended rg m m' \<longleftrightarrow> length m' = length m \<and> string_bump rg m \<le> string_bump rg m'
     \<and> take (nat (stringStart rg)) m' = take (nat (stringStart rg)) m
     \<and> read_at (nat (stringDataStart rg)) (nat (string_bump rg m - stringDataStart rg)) m'
       = read_at (nat (stringDataStart rg)) (nat (string_bump rg m - stringDataStart rg)) m"

locale arena_engine = index_engine b ready idx
  for b :: "'e bindings" and ready :: "'e world \<Rightarrow> bool" and idx :: "'e world \<Rightarrow> (buffer \<rightharpoonup> int)" +
  fixes rg :: regions
  assumes arena_law: "ready w \<Longrightarrow> int (length (w_mem w)) = arenaBytes rg"
    and regions_law: "ready w \<Longrightarrow> validateRegions rg (arenaBytes rg) = Inr () \<and> regions_u32 rg"
    and write_law: "ready w \<Longrightarrow> length m = length (w_mem w) \<Longrightarrow>
      ready (w\<lparr>w_mem := m\<rparr>) \<and> idx (w\<lparr>w_mem := m\<rparr>) = idx w"
    and insert_frame: "ready w \<Longrightarrow> stringDataStart rg \<le> string_bump rg (w_mem w) \<Longrightarrow>
      b_insert_index b k v w = (r, w') \<Longrightarrow> strings_extended rg (w_mem w) (w_mem w')
        \<and> string_bump rg (w_mem w') \<le> max (string_bump rg (w_mem w)) (arenaBytes rg)"
    and push_law: "ready w \<Longrightarrow> b_pushDelta b off d w = (r, w') \<Longrightarrow> ready w' \<and> idx w' = idx w \<and> w_mem w' = w_mem w"
    and notify_law: "ready w \<Longrightarrow> b_notifyArena b off n w = (r, w') \<Longrightarrow> ready w' \<and> idx w' = idx w \<and> w_mem w' = w_mem w"
    and notify_empty: "ready w \<Longrightarrow> fst (b_notifyArena b off 0 w) = Inr (- 1)"

section \<open>The engine behind the bridge\<close>

record delta =
  d_offset :: int
  d_size :: int
  d_tag :: int
  d_data :: buffer

record engine =
  e_attached :: bool
  e_refs :: nat
  e_daemon :: bool
  e_regions :: regions
  e_ring :: "delta list"
  e_pushed :: int
  e_durable :: int
  e_index :: "(buffer, int) jsmap"
  e_leaf_room :: nat
  e_segment :: "(bool \<times> buffer) option"
  e_vacuum :: bool
  e_pressure :: ring_pressure_stats

type_synonym native = "engine world"

definition eng :: "(engine \<Rightarrow> engine) \<Rightarrow> native \<Rightarrow> native" where
  "eng f w = w\<lparr>w_eng := f (w_eng w)\<rparr>"

definition CopyKey :: "jstr \<Rightarrow> buffer res" where
  "CopyKey k = (let key = utf8_encode k in
     if length key = 0 \<or> length key > MAX_KEY_LEN then Inl (RangeError (lit ''key must be 1..256 bytes (UTF-8)''))
     else if 0 \<in> set key then Inl (RangeError (lit ''key must not contain NUL bytes''))
     else Inr key)"

definition CopyBound :: "jstr \<Rightarrow> buffer res" where
  "CopyBound k = (let key = utf8_encode k in
     if length key > MAX_KEY_LEN then Inl (RangeError (lit ''bound must be 0..256 bytes (UTF-8)''))
     else if 0 \<in> set key then Inl (RangeError (lit ''bound must not contain NUL bytes''))
     else Inr key)"

text \<open>A push that waited: the ring is as it is when the wait ends.\<close>

definition pushWithBackPressure :: "delta \<Rightarrow> native \<Rightarrow> int \<times> native" where
  "pushWithBackPressure d w =
     (if int (length (e_ring (w_eng w))) < ringCapacity (e_regions (w_eng w))
      then (0, eng (\<lambda>e. e\<lparr>e_ring := e_ring e @ [d], e_pushed := e_pushed e + 1\<rparr>) w)
      else (- 2, w))"

definition allocString :: "buffer \<Rightarrow> native \<Rightarrow> int option \<times> native" where
  "allocString src w =
     (let rg = e_regions (w_eng w);
          aligned_len = (int (length src) + 7) div 8 * 8;
          limit = stringStart rg + stringBytes rg
      in if aligned_len = 0 \<or> aligned_len > stringBytes rg then (None, w)
         else let cur = string_bump rg (w_mem w);
                  m = set_u32 (nat (stringStart rg)) cur (w_mem w)
              in if cur + aligned_len > limit then (None, w\<lparr>w_mem := m\<rparr>)
                 else (Some cur, w\<lparr>w_mem := write_at (nat cur) src
                        (set_u32 (nat (stringStart rg)) (cur + aligned_len) m)\<rparr>))"

definition art_insert :: "buffer \<Rightarrow> int \<Rightarrow> native \<Rightarrow> int \<times> native" where
  "art_insert key v w =
     (if jm_has (e_index (w_eng w)) key \<or> length (e_index (w_eng w)) < e_leaf_room (w_eng w)
      then (0, eng (\<lambda>e. e\<lparr>e_index := AList.update key v (e_index e)\<rparr>) w)
      else (- 1, w))"

definition takyon_insert_index :: "buffer \<Rightarrow> int \<Rightarrow> native \<Rightarrow> int \<times> native" where
  "takyon_insert_index key v w =
     (if \<not> e_attached (w_eng w) then (- 1, w)
      else if length key = 0 \<or> length key > MAX_KEY_LEN then (- 1, w)
      else if v \<ge> int (length (w_mem w)) then (- 1, w)
      else if \<not> e_daemon (w_eng w) then art_insert key v w
      else if int (length (e_ring (w_eng w))) \<ge> ringCapacity (e_regions (w_eng w)) then (- 2, w)
      else (case allocString key w of
          (None, w1) \<Rightarrow> (- 1, w1)
        | (Some off, w1) \<Rightarrow>
            (case pushWithBackPressure \<lparr>d_offset = off, d_size = int (length key), d_tag = 3,
                d_data = le_bytes 4 v\<rparr> w1 of
               (rc, w2) \<Rightarrow> if rc \<noteq> 0 then (rc, w2) else art_insert key v w2)))"

definition takyon_search_index :: "buffer \<Rightarrow> native \<Rightarrow> int" where
  "takyon_search_index key w =
     (if \<not> e_attached (w_eng w) then - 1
      else if length key = 0 \<or> length key > 256 then - 1
      else case map_of (e_index (w_eng w)) key of
          Some v \<Rightarrow> if v \<ge> 0x7FFFFFFF then - 1 else v
        | None \<Rightarrow> - 1)"

definition takyon_remove_index :: "buffer \<Rightarrow> native \<Rightarrow> int \<times> native" where
  "takyon_remove_index key w =
     (if \<not> e_attached (w_eng w) then (- 1, w)
      else if length key = 0 \<or> length key > 256 then (- 1, w)
      else if jm_has (e_index (w_eng w)) key then (1, eng (\<lambda>e. e\<lparr>e_index := AList.delete key (e_index e)\<rparr>) w)
      else (0, w))"

definition suffixInBounds :: "buffer \<Rightarrow> buffer \<Rightarrow> buffer \<Rightarrow> bool" where
  "suffixInBounds s lo hi = (if length lo > 0 \<and> s < lo then False else if length hi > 0 \<and> s > hi then False else True)"

definition takyon_scan :: "(buffer \<Rightarrow> bool) \<Rightarrow> int \<Rightarrow> native \<Rightarrow> int list" where
  "takyon_scan P cap w = take (nat cap) (map snd (filter (\<lambda>(k, v). P k) (e_index (w_eng w))))"

definition takyon_scan_prefix :: "buffer \<Rightarrow> int \<Rightarrow> native \<Rightarrow> int list option" where
  "takyon_scan_prefix key cap w =
     (if \<not> e_attached (w_eng w) \<or> length key = 0 \<or> length key > 256 \<or> cap = 0 then None
      else Some (takyon_scan (prefix key) cap w))"

definition takyon_scan_range :: "buffer \<Rightarrow> buffer \<Rightarrow> buffer \<Rightarrow> int \<Rightarrow> native \<Rightarrow> int list option" where
  "takyon_scan_range key lo hi cap w =
     (if \<not> e_attached (w_eng w) \<or> length key = 0 \<or> length key > 256 \<or> length lo > 256 \<or> length hi > 256 \<or> cap = 0
      then None
      else if length lo > 0 \<and> length hi > 0 \<and> lo > hi then Some []
      else Some (takyon_scan (\<lambda>k. prefix key k \<and> suffixInBounds (drop (length key) k) lo hi) cap w))"

definition takyon_write_delta :: "int \<Rightarrow> buffer \<Rightarrow> native \<Rightarrow> int \<times> native" where
  "takyon_write_delta off d w =
     (if \<not> e_attached (w_eng w) then (- 1, w)
      else if length d = 0 \<or> length d > MAX_DELTA_INLINE then (- 1, w)
      else if off + int (length d) > int (length (w_mem w)) then (- 1, w)
      else pushWithBackPressure \<lparr>d_offset = off, d_size = int (length d), d_tag = 0, d_data = d\<rparr> w)"

definition takyon_notify_arena :: "int \<Rightarrow> int \<Rightarrow> native \<Rightarrow> int \<times> native" where
  "takyon_notify_arena off n w =
     (if \<not> e_attached (w_eng w) then (- 1, w)
      else if n = 0 then (- 1, w)
      else if off + n > int (length (w_mem w)) then (- 1, w)
      else pushWithBackPressure \<lparr>d_offset = off, d_size = n, d_tag = 1, d_data = []\<rparr> w)"

definition takyon_trigger_checkpoint :: "native \<Rightarrow> int \<times> native" where
  "takyon_trigger_checkpoint w =
     (if \<not> e_attached (w_eng w) then (- 1, w)
      else pushWithBackPressure \<lparr>d_offset = 0, d_size = 0, d_tag = 2, d_data = []\<rparr> w)"

definition takyon_commit :: "int \<Rightarrow> native \<Rightarrow> int" where
  \<comment> \<open>in the state at the end of the wait\<close>
  "takyon_commit timeout_ms w =
     (if \<not> e_attached (w_eng w) then - 1
      else if \<not> e_daemon (w_eng w) then - 3
      else if e_durable (w_eng w) < e_pushed (w_eng w) then - 2 else 0)"

definition takyon_start_vacuum :: "int \<Rightarrow> native \<Rightarrow> int \<times> native" where
  "takyon_start_vacuum off w =
     (if \<not> e_attached (w_eng w) then (- 1, w)
      else if off \<ge> int (length (w_mem w)) then (- 1, w)
      else if e_vacuum (w_eng w) then (- 1, w)
      else (0, eng (\<lambda>e. e\<lparr>e_vacuum := True\<rparr>) w))"

definition takyon_connect_shm :: "int \<Rightarrow> native \<Rightarrow> bool \<times> native" where
  \<comment> \<open>\<open>e_segment\<close> is what the operating system maps under the name, and whether this call created it\<close>
  "takyon_connect_shm n w =
     (let e = w_eng w in
      if e_attached e then
        (if int (length (w_mem w)) \<noteq> n then (False, w)
         else case readRegions (w_mem w) of
             Inl _ \<Rightarrow> (False, eng (\<lambda>e. e\<lparr>e_refs := e_refs e + 1\<rparr>) w)
           | Inr rg \<Rightarrow> (if is_ok (validateRegions rg n)
               then (True, eng (\<lambda>e. e\<lparr>e_refs := e_refs e + 1, e_regions := rg\<rparr>) w)
               else (False, eng (\<lambda>e. e\<lparr>e_refs := e_refs e + 1\<rparr>) w)))
      else case e_segment e of
          None \<Rightarrow> (False, w)
        | Some (created, m) \<Rightarrow>
            (if length m < RING_OFFSET then (False, w)
             else case readRegions m of
                 Inl _ \<Rightarrow> (False, w)
               | Inr rg \<Rightarrow> (if is_ok (validateRegions rg (int (length m)))
                   then (True, eng (\<lambda>e. e\<lparr>e_attached := True, e_refs := 1, e_daemon := \<not> created,
                          e_regions := rg\<rparr>) (w\<lparr>w_mem := m\<rparr>))
                   else (False, w))))"

definition takyon_disconnect_shm :: "native \<Rightarrow> native" where
  "takyon_disconnect_shm w =
     (if \<not> e_attached (w_eng w) then w
      else if e_refs (w_eng w) > 1 then eng (\<lambda>e. e\<lparr>e_refs := e_refs e - 1\<rparr>) w
      else eng (\<lambda>e. e\<lparr>e_attached := False, e_refs := 0, e_daemon := False\<rparr>) w)"

section \<open>The bridge\<close>

definition InitSharedMemory :: "int \<Rightarrow> (native, bool) action" where
  "InitSharedMemory n w =
     (if u32_of n = 0 then (Inl (RangeError (lit ''size must be between 1 and 4294967295 bytes'')), w)
      else map_prod Inr (\<lambda>w. w) (takyon_connect_shm (u32_of n) w))"

definition PushDelta :: "int \<Rightarrow> buffer \<Rightarrow> (native, int) action" where
  "PushDelta off d w =
     (if length d = 0 \<or> length d > MAX_DELTA_INLINE then (Inl (RangeError (lit ''data must be 1..48 bytes'')), w)
      else map_prod Inr (\<lambda>w. w) (takyon_write_delta (u32_of off) d w))"

definition NotifyArena :: "int \<Rightarrow> int \<Rightarrow> (native, int) action" where
  "NotifyArena off n w = map_prod Inr (\<lambda>w. w) (takyon_notify_arena (u32_of off) (u32_of n) w)"

definition InsertIndex :: "jstr \<Rightarrow> int \<Rightarrow> (native, int) action" where
  "InsertIndex k v w =
     (case CopyKey k of Inl e \<Rightarrow> (Inl e, w)
      | Inr key \<Rightarrow> map_prod Inr (\<lambda>w. w) (takyon_insert_index key (u32_of v) w))"

definition SearchIndex :: "jstr \<Rightarrow> (native, int) action" where
  "SearchIndex k w = (res_bind (CopyKey k) (\<lambda>key. Inr (takyon_search_index key w)), w)"

definition RemoveIndex :: "jstr \<Rightarrow> (native, int) action" where
  "RemoveIndex k w =
     (case CopyKey k of Inl e \<Rightarrow> (Inl e, w) | Inr key \<Rightarrow> map_prod Inr (\<lambda>w. w) (takyon_remove_index key w))"

definition bad_max :: js_error where
  "bad_max = RangeError (lit ''max_results must be 1..4096'')"

definition ScanPrefix :: "jstr \<Rightarrow> int \<Rightarrow> (native, int list) action" where
  "ScanPrefix k n w =
     (res_bind (CopyKey k) (\<lambda>key.
        if u32_of n = 0 \<or> u32_of n > 4096 then Inl bad_max
        else case takyon_scan_prefix key (u32_of n) w of
            None \<Rightarrow> Inl (Error (lit ''scan_prefix failed: engine not ready''))
          | Some out \<Rightarrow> Inr out), w)"

definition ScanRange :: "jstr \<Rightarrow> jstr \<Rightarrow> jstr \<Rightarrow> int \<Rightarrow> (native, int list) action" where
  "ScanRange k lo hi n w =
     (res_bind (CopyKey k) (\<lambda>key. res_bind (CopyBound lo) (\<lambda>l. res_bind (CopyBound hi) (\<lambda>h.
        if u32_of n = 0 \<or> u32_of n > 4096 then Inl bad_max
        else case takyon_scan_range key l h (u32_of n) w of
            None \<Rightarrow> Inl (Error (lit ''scan_range failed: engine not ready''))
          | Some out \<Rightarrow> Inr out))), w)"

definition Commit :: "int \<Rightarrow> (native, int) action" where
  "Commit t w = (if t < 0 then Inl (RangeError (lit ''timeoutMs must be >= 0'')) else Inr (takyon_commit t w), w)"

definition native_bindings :: "engine bindings" where
  "native_bindings =
     \<lparr>b_initSharedMemory = InitSharedMemory, b_pushDelta = PushDelta, b_notifyArena = NotifyArena,
      b_insert_index = InsertIndex, b_search_index = SearchIndex, b_remove_index = RemoveIndex,
      b_scan_prefix = Some ScanPrefix, b_scan_range = Some ScanRange, b_commit = Some Commit,
      b_ringStats = Some (\<lambda>w. (Inr (e_pressure (w_eng w)), w)),
      b_trigger_checkpoint = (\<lambda>w. map_prod Inr (\<lambda>w. w) (takyon_trigger_checkpoint w)),
      b_start_vacuum = (\<lambda>off w. map_prod Inr (\<lambda>w. w) (takyon_start_vacuum (u32_of off) w)),
      b_stop_vacuum = Some (\<lambda>w. (Inr 0, eng (\<lambda>e. e\<lparr>e_vacuum := False\<rparr>) w)),
      b_disconnect_shm = Some (\<lambda>w. (Inr 0, takyon_disconnect_shm w))\<rparr>"

section \<open>The engine keeps the contract\<close>

definition native_index :: "native \<Rightarrow> buffer \<rightharpoonup> int" where
  "native_index w = map_of (e_index (w_eng w))"

definition native_ready :: "regions \<Rightarrow> native \<Rightarrow> bool" where
  "native_ready rg w \<longleftrightarrow> e_attached (w_eng w) \<and> e_regions (w_eng w) = rg \<and> regions_u32 rg
     \<and> validateRegions rg (arenaBytes rg) = Inr () \<and> int (length (w_mem w)) = arenaBytes rg
     \<and> jm_ok (e_index (w_eng w)) \<and> list_all (\<lambda>(k, v). 0 \<le> v \<and> v < 2 ^ 32) (e_index (w_eng w))"

lemma eng_simps [simp]: "w_mem (eng f w) = w_mem w" "w_eng (eng f w) = f (w_eng w)"
  by (simp_all add: eng_def)

lemma CopyKey_ok [simp]: "key_bytes k \<Longrightarrow> CopyKey k = Inr (utf8_encode k)"
  by (simp add: CopyKey_def key_bytes_def MAX_KEY_LEN_def)

lemma CopyKey_bad: "\<not> key_bytes k \<Longrightarrow> \<exists>m. CopyKey k = Inl (RangeError m)"
  by (auto simp: CopyKey_def key_bytes_def MAX_KEY_LEN_def Let_def)

lemma CopyBound_ok: "k = [] \<or> key_bytes k \<Longrightarrow> CopyBound k = Inr (utf8_encode k)"
  by (auto simp: CopyBound_def key_bytes_def MAX_KEY_LEN_def)

lemma filter_scan_answer:
  assumes "jm_ok m"
  shows "scan_answer n P (map_of m) (take (nat n) (map snd (filter (\<lambda>(k, v). P k) m)))"
proof -
  define f where "f = filter (\<lambda>(k, v). P k) m"
  have d: "distinct (map fst f)" using assms by (simp add: distinct_map_filter f_def)
  have s: "set (map fst f) = {k \<in> dom (map_of m). P k}" by (auto simp: dom_map_of_conv_image_fst f_def)
  have "map_of m (fst q) = Some (snd q)" if "q \<in> set f" for q
  proof -
    from that have "q \<in> set m" by (simp add: f_def)
    with assms show ?thesis by simp
  qed
  then have v: "map snd f = map (\<lambda>k. the (map_of m k)) (map fst f)" by simp
  have "length (take (nat n) (map fst f)) = min (nat n) (card {k \<in> dom (map_of m). P k})"
    unfolding s [symmetric] distinct_card [OF d] by (simp add: min.commute)
  moreover have "set (take (nat n) (map fst f)) \<subseteq> {k \<in> dom (map_of m). P k}"
    unfolding s [symmetric] by (rule set_take_subset)
  moreover have "distinct (take (nat n) (map fst f))" using d by (rule distinct_take)
  moreover have "take (nat n) (map snd f) = map (\<lambda>k. the (map_of m k)) (take (nat n) (map fst f))"
    unfolding v by (rule take_map)
  ultimately show ?thesis unfolding scan_answer_def f_def [symmetric] by blast
qed

lemma validated:
  assumes "validateRegions rg (arenaBytes rg) = Inr ()" and "regions_u32 rg"
  shows "0 < recordStart rg" "recordStart rg + recordBytes rg \<le> stringStart rg" "8 < stringStart rg"
    "stringStart rg + 8 \<le> arenaBytes rg" "stringStart rg + stringBytes rg \<le> arenaBytes rg"
    "arenaBytes rg < 2 ^ 32" "stringDataStart rg = stringStart rg + 8" "8 \<le> stringBytes rg"
    "16 \<le> ringCapacity rg" "1024 < recordStart rg"
proof -
  have v: "16 \<le> ringCapacity rg" "recordBumpOffset rg + 8 \<le> recordStart rg"
    "recordStart rg + recordBytes rg \<le> artRoot rg" "artRoot rg + artBytes rg \<le> stringStart rg"
    "8 \<le> stringBytes rg" "stringStart rg + stringBytes rg \<le> arenaBytes rg"
    using assms(1) by (auto simp: validateRegions_def split: if_splits)
  have u: "0 \<le> recordBytes rg" "0 \<le> artBytes rg" "arenaBytes rg < 2 ^ 32"
    using assms(2) by (simp_all add: regions_u32_def)
  have "0 < recordBumpOffset rg" "1024 < recordBumpOffset rg"
    using v(1) by (simp_all add: recordBumpOffset_def ringBytes_def layout_consts)
  then show "0 < recordStart rg" "recordStart rg + recordBytes rg \<le> stringStart rg" "8 < stringStart rg"
    "stringStart rg + 8 \<le> arenaBytes rg" "stringStart rg + stringBytes rg \<le> arenaBytes rg"
    "arenaBytes rg < 2 ^ 32" "stringDataStart rg = stringStart rg + 8" "8 \<le> stringBytes rg"
    "16 \<le> ringCapacity rg" "1024 < recordStart rg"
    using v u by (simp_all add: stringDataStart_def)
qed

lemma bump_at_set:
  "0 \<le> a \<Longrightarrow> nat a + 4 \<le> length m \<Longrightarrow> 0 < v \<Longrightarrow> v < 2 ^ 32 \<Longrightarrow> bump_at a s (set_u32 (nat a) v m) = v"
  by (simp add: bump_at_def u32_set_same)

lemma take_set_u32: "n \<le> off \<Longrightarrow> off + 4 \<le> length m \<Longrightarrow> take n (set_u32 off v m) = take n m"
  using read_set_u32_other [of off m 0 n v] by (simp add: read_at_def)

lemma take_write_at: "n \<le> off \<Longrightarrow> off + length bs \<le> length m \<Longrightarrow> take n (write_at off bs m) = take n m"
  using read_write_below [of off bs m 0 n] by (simp add: read_at_def)

lemma allocString_frame:
  assumes rg: "e_regions (w_eng w) = rg" "validateRegions rg (arenaBytes rg) = Inr ()" "regions_u32 rg"
    and len: "int (length (w_mem w)) = arenaBytes rg" and low: "stringDataStart rg \<le> string_bump rg (w_mem w)"
    and a: "allocString src w = (r, w')"
  shows "w_eng w' = w_eng w \<and> strings_extended rg (w_mem w) (w_mem w')
    \<and> string_bump rg (w_mem w') \<le> max (string_bump rg (w_mem w)) (arenaBytes rg)"
proof -
  note v = validated [OF rg(2,3)]
  let ?b = "string_bump rg (w_mem w)" and ?s = "nat (stringStart rg)" and ?al = "(int (length src) + 7) div 8 * 8"
  have s4: "?s + 4 \<le> length (w_mem w)" and s8: "?s + 8 \<le> length (w_mem w)" using len v by linarith+
  have b32: "?b < 2 ^ 32" using u32_at_bound(2) [OF s4] v by (auto simp: bump_at_def Let_def)
  have b0: "0 < ?b" using low v by linarith
  have same: "strings_extended rg (w_mem w) (w_mem w)" by (simp add: strings_extended_def)
  have seeded: "strings_extended rg (w_mem w) (set_u32 ?s ?b (w_mem w)) \<and> string_bump rg (set_u32 ?s ?b (w_mem w)) = ?b"
  proof -
    have "bump_at (stringStart rg) (stringDataStart rg) (set_u32 ?s ?b (w_mem w)) = ?b"
      using bump_at_set [OF _ s4 b0 b32] v by simp
    moreover have "?s + 4 \<le> nat (stringDataStart rg)" using v by simp
    ultimately show ?thesis using s4 by (simp add: strings_extended_def take_set_u32 read_set_u32_other)
  qed
  show ?thesis
  proof (cases "?al = 0 \<or> ?al > stringBytes rg \<or> ?b + ?al > stringStart rg + stringBytes rg")
    case True
    then show ?thesis using a rg(1) same seeded by (auto simp: allocString_def Let_def split: if_splits)
  next
    case False
    define m1 where "m1 = set_u32 ?s (?b + ?al) (set_u32 ?s ?b (w_mem w))"
    have w': "w' = w\<lparr>w_mem := write_at (nat ?b) src m1\<rparr>"
      using a False rg(1) by (auto simp: allocString_def Let_def m1_def split: if_splits)
    have al: "int (length src) \<le> ?al" "0 < ?al" using False by linarith+
    have lm1: "length m1 = length (w_mem w)" using s4 by (simp add: m1_def)
    have fit: "nat ?b + length src \<le> length m1" using False al len v lm1 b0 by linarith
    have below: "?s + 8 \<le> nat ?b" using low v by linarith
    have e32: "?b + ?al < 2 ^ 32" using False v by linarith
    have bump: "bump_at (stringStart rg) (stringDataStart rg) (write_at (nat ?b) src m1) = ?b + ?al"
    proof -
      have "u32_at ?s (write_at (nat ?b) src m1) = u32_at ?s m1"
        using below fit by (simp add: u32_at_def read_write_below)
      also have "\<dots> = ?b + ?al" using b0 al e32 s4 by (simp add: m1_def u32_set_same)
      finally show ?thesis using b0 al by (simp add: bump_at_def)
    qed
    have "take ?s (write_at (nat ?b) src m1) = take ?s (w_mem w)"
      using below fit s4 by (simp add: take_write_at m1_def take_set_u32)
    moreover have "read_at (nat (stringDataStart rg)) (nat (?b - stringDataStart rg)) (write_at (nat ?b) src m1)
        = read_at (nat (stringDataStart rg)) (nat (?b - stringDataStart rg)) (w_mem w)"
    proof -
      have "nat (stringDataStart rg) + nat (?b - stringDataStart rg) \<le> nat ?b" using low v by linarith
      then have "read_at (nat (stringDataStart rg)) (nat (?b - stringDataStart rg)) (write_at (nat ?b) src m1)
          = read_at (nat (stringDataStart rg)) (nat (?b - stringDataStart rg)) m1"
        using fit by (simp add: read_write_below)
      also have "\<dots> = read_at (nat (stringDataStart rg)) (nat (?b - stringDataStart rg)) (w_mem w)"
      proof -
        have "?s + 4 \<le> nat (stringDataStart rg)" using v by simp
        then show ?thesis unfolding m1_def using s4
          by (subst read_set_u32_other; simp only: length_set_u32 simp_thms) (rule read_set_u32_other; simp)
      qed
      finally show ?thesis .
    qed
    moreover have "?b + ?al \<le> arenaBytes rg" using False v by linarith
    ultimately show ?thesis using w' lm1 fit bump al by (simp add: strings_extended_def)
  qed
qed

lemma push_frame:
  assumes "native_ready rg w" and "pushWithBackPressure d w = (r, w')"
  shows "native_ready rg w' \<and> native_index w' = native_index w \<and> w_mem w' = w_mem w \<and> e_leaf_room (w_eng w') = e_leaf_room (w_eng w)"
  using assms by (auto simp: pushWithBackPressure_def native_ready_def native_index_def split: if_splits)

lemma list_all_update: "list_all P m \<Longrightarrow> P (k, v) \<Longrightarrow> list_all P (AList.update k v m)"
  by (induction m) auto

lemma list_all_delete: "list_all P m \<Longrightarrow> list_all P (AList.delete k m)"
  by (auto simp: list_all_iff set_delete)

lemma art_insert_law:
  assumes "native_ready rg w" and "art_insert key v w = (r, w')" and "0 \<le> v" "v < 2 ^ 32"
  shows "native_ready rg w' \<and> w_mem w' = w_mem w
    \<and> (r = 0 \<and> native_index w' = (native_index w)(key \<mapsto> v) \<or> r = - 1 \<and> native_index w' = native_index w)"
  using assms by (auto simp: art_insert_def native_ready_def native_index_def list_all_update split: if_splits)

lemma allocString_ready:
  assumes "native_ready rg w" and "allocString src w = (r, w')"
  shows "native_ready rg w' \<and> native_index w' = native_index w"
proof -
  let ?b = "string_bump rg (w_mem w)" and ?s = "nat (stringStart rg)"
  have v: "?s + 4 \<le> length (w_mem w)" "e_regions (w_eng w) = rg"
    using assms(1) validated [of rg] by (simp_all add: native_ready_def) linarith
  have e: "w_eng w' = w_eng w" using assms(2) by (auto simp: allocString_def Let_def split: if_splits)
  have "length (w_mem w') = length (w_mem w)"
  proof (cases "r")
    case None
    then show ?thesis using assms(2) v by (auto simp: allocString_def Let_def split: if_splits)
  next
    case (Some off)
    let ?al = "(int (length src) + 7) div 8 * 8"
    have "?b + ?al \<le> stringStart rg + stringBytes rg" "0 \<le> ?b"
      using assms(2) Some v validated [of rg] assms(1) u32_at_bound(1) [of ?s "w_mem w"]
      by (auto simp: allocString_def Let_def native_ready_def bump_at_def split: if_splits)
    moreover have "stringStart rg + stringBytes rg \<le> int (length (w_mem w))"
      using assms(1) validated [of rg] by (simp add: native_ready_def)
    ultimately have "nat ?b + length src \<le> length (w_mem w)" by linarith
    then show ?thesis using assms(2) Some v by (auto simp: allocString_def Let_def split: if_splits)
  qed
  then show ?thesis using assms(1) e by (simp add: native_ready_def native_index_def)
qed

lemma insert_index_law:
  assumes "native_ready rg w" and "takyon_insert_index key v w = (r, w')" and "0 \<le> v" "v < 2 ^ 32"
  shows "native_ready rg w' \<and> native_index w' = (if r = 0 then (native_index w)(key \<mapsto> v) else native_index w)"
proof -
  have art: "native_ready rg w2 \<Longrightarrow> art_insert key v w2 = (r, w') \<Longrightarrow> native_index w2 = native_index w \<Longrightarrow> ?thesis" for w2
    using art_insert_law [of rg w2 key v r w'] assms(3,4) by auto
  show ?thesis
  proof (cases "e_daemon (w_eng w) \<and> length key \<noteq> 0 \<and> length key \<le> MAX_KEY_LEN \<and> v < int (length (w_mem w))
      \<and> int (length (e_ring (w_eng w))) < ringCapacity (e_regions (w_eng w))")
    case False
    then show ?thesis using assms art [of w]
      by (auto simp: takyon_insert_index_def split: if_splits)
  next
    case True
    obtain o1 w1 where a: "allocString key w = (o1, w1)" by (cases "allocString key w")
    note r1 = allocString_ready [OF assms(1) a]
    have att: "e_attached (w_eng w)" using assms(1) by (simp add: native_ready_def)
    show ?thesis
    proof (cases o1)
      case None
      then show ?thesis using assms True a r1 by (auto simp: takyon_insert_index_def split: if_splits)
    next
      case (Some off)
      obtain rc w2 where p: "pushWithBackPressure \<lparr>d_offset = off, d_size = int (length key), d_tag = 3,
          d_data = le_bytes 4 v\<rparr> w1 = (rc, w2)" by (rule prod.exhaust)
      have "native_ready rg w2" "native_index w2 = native_index w"
        using push_frame [OF conjunct1 [OF r1] p] r1 by simp_all
      then show ?thesis using assms(2) True a p Some art [of w2] att
        by (auto simp: takyon_insert_index_def split: if_splits)
    qed
  qed
qed

lemma insert_index_frame:
  assumes "native_ready rg w" and "stringDataStart rg \<le> string_bump rg (w_mem w)"
    and "takyon_insert_index key v w = (r, w')"
  shows "strings_extended rg (w_mem w) (w_mem w')
    \<and> string_bump rg (w_mem w') \<le> max (string_bump rg (w_mem w)) (arenaBytes rg)"
proof -
  have refl: "strings_extended rg m m" for m by (simp add: strings_extended_def)
  obtain o1 w1 where a: "allocString key w = (o1, w1)" by (cases "allocString key w")
  have f: "strings_extended rg (w_mem w) (w_mem w1)
      \<and> string_bump rg (w_mem w1) \<le> max (string_bump rg (w_mem w)) (arenaBytes rg)"
    using allocString_frame [OF _ _ _ _ assms(2) a] assms(1) by (simp add: native_ready_def)
  have r1: "native_ready rg w1" using allocString_ready [OF assms(1) a] by simp
  have art: "art_insert key v w2 = (r, w') \<Longrightarrow> w_mem w' = w_mem w2" for w2
    by (auto simp: art_insert_def split: if_splits)
  have push: "pushWithBackPressure d w1 = (rc, w2) \<Longrightarrow> w_mem w2 = w_mem w1" for d rc w2
    by (auto simp: pushWithBackPressure_def split: if_splits)
  show ?thesis
    using assms(3) a f refl
    by (auto simp: takyon_insert_index_def dest!: art push split: if_splits option.splits prod.splits)
qed

interpretation native: index_engine native_bindings "native_ready rg" native_index for rg
proof
  fix w :: native and k :: jstr and v :: int and r w'
  assume ready: "native_ready rg w"
  show "0 \<le> v \<and> v < 2 ^ 32" if "native_index w key = Some v" for key
  proof -
    have "(key, v) \<in> set (e_index (w_eng w))" using that by (simp only: native_index_def map_of_SomeD)
    moreover have "list_all (\<lambda>(k, v). 0 \<le> v \<and> v < 2 ^ 32) (e_index (w_eng w))"
      using ready by (simp only: native_ready_def)
    ultimately show ?thesis unfolding list_all_iff by blast
  qed
  show "finite (dom (native_index w))" by (simp add: native_index_def finite_dom_map_of)
  show "\<exists>m. b_insert_index native_bindings k v w = (Inl (RangeError m), w)" if "\<not> key_bytes k"
    using CopyKey_bad [OF that] by (auto simp: native_bindings_def InsertIndex_def)
  show "native_ready rg w' \<and> native_index w' =
      (if r = Inr 0 then (native_index w)(utf8_encode k \<mapsto> u32_of v) else native_index w)"
    if i: "b_insert_index native_bindings k v w = (r, w')"
  proof (cases "key_bytes k")
    case True
    obtain rc w2 where t: "takyon_insert_index (utf8_encode k) (u32_of v) w = (rc, w2)" by (rule prod.exhaust)
    then have "r = Inr rc" "w' = w2" using i True by (simp_all add: native_bindings_def InsertIndex_def)
    then show ?thesis using insert_index_law [OF ready t] by (simp add: u32_of_def)
  next
    case False
    then show ?thesis using i CopyKey_bad [OF False] ready by (auto simp: native_bindings_def InsertIndex_def)
  qed
next
  fix w :: native and k :: jstr and r w'
  assume ready: "native_ready rg w"
  have att: "e_attached (w_eng w)" "jm_ok (e_index (w_eng w))" using ready by (simp_all add: native_ready_def)
  show "\<exists>m. b_search_index native_bindings k w = (Inl (RangeError m), w)" if "\<not> key_bytes k"
    using CopyKey_bad [OF that] by (auto simp: native_bindings_def SearchIndex_def)
  show "\<exists>m. b_remove_index native_bindings k w = (Inl (RangeError m), w)" if "\<not> key_bytes k"
    using CopyKey_bad [OF that] by (auto simp: native_bindings_def RemoveIndex_def)
  show "b_search_index native_bindings k w = (Inr (case native_index w (utf8_encode k) of
      Some v \<Rightarrow> if v < 0x7FFFFFFF then v else - 1 | None \<Rightarrow> - 1), w)" if "key_bytes k"
    using that att by (auto simp: native_bindings_def SearchIndex_def takyon_search_index_def native_index_def
        key_bytes_def [of k] split: option.splits)
  show "native_ready rg w' \<and> (r = Inr 1 \<and> utf8_encode k \<in> dom (native_index w)
        \<and> native_index w' = (native_index w)(utf8_encode k := None)
      \<or> r = Inr 0 \<and> utf8_encode k \<notin> dom (native_index w) \<and> native_index w' = native_index w
      \<or> r = Inr (- 1) \<and> native_index w' = native_index w)"
    if "key_bytes k" "b_remove_index native_bindings k w = (r, w')"
    using that att ready
    by (auto simp: native_bindings_def RemoveIndex_def takyon_remove_index_def native_index_def
        native_ready_def jm_has_def list_all_delete key_bytes_def [of k] split: if_splits)
next
  fix w :: native and p :: jstr and n :: int and f
  assume "b_scan_prefix native_bindings = Some f" and p: "\<not> key_bytes p"
  then show "\<exists>m. f p n w = (Inl (RangeError m), w)"
    using CopyKey_bad [OF p] by (auto simp: native_bindings_def ScanPrefix_def)
next
  fix w :: native and p :: jstr and n :: int and f
  assume ready: "native_ready rg w" and f: "b_scan_prefix native_bindings = Some f" and p: "key_bytes p"
    and n: "1 \<le> n" "n \<le> 4096"
  have "u32_of n = n" using n by (simp add: u32_of_def)
  then have "f p n w = (Inr (takyon_scan (prefix (utf8_encode p)) n w), w)"
    using f p n ready by (auto simp: native_bindings_def ScanPrefix_def takyon_scan_prefix_def native_ready_def
        key_bytes_def [of p])
  moreover have "scan_answer n (prefix (utf8_encode p)) (native_index w) (takyon_scan (prefix (utf8_encode p)) n w)"
    unfolding takyon_scan_def native_index_def using ready by (intro filter_scan_answer) (simp add: native_ready_def)
  ultimately show "\<exists>out. f p n w = (Inr out, w) \<and> scan_answer n (prefix (utf8_encode p)) (native_index w) out" by blast
next
  fix w :: native and p lo hi :: jstr and n :: int and g
  assume ready: "native_ready rg w" and g: "b_scan_range native_bindings = Some g" and p: "key_bytes p"
    and lo: "lo = [] \<or> key_bytes lo" and hi: "hi = [] \<or> key_bytes hi" and n: "1 \<le> n" "n \<le> 4096"
  let ?P = "\<lambda>k. prefix (utf8_encode p) k \<and>
    suffix_between (utf8_encode lo) (utf8_encode hi) (drop (length (utf8_encode p)) k)"
  have sib: "suffixInBounds s l h = suffix_between l h s" for s l h
    by (auto simp: suffixInBounds_def suffix_between_def not_less)
  have u: "u32_of n = n" using n by (simp add: u32_of_def)
  have len: "length (utf8_encode lo) \<le> 256" "length (utf8_encode hi) \<le> 256"
    using lo hi by (auto simp: key_bytes_def)
  show "\<exists>out. g p lo hi n w = (Inr out, w) \<and> scan_answer n ?P (native_index w) out"
  proof (cases "utf8_encode lo \<noteq> [] \<and> utf8_encode hi \<noteq> [] \<and> utf8_encode lo > utf8_encode hi")
    case True
    then have "g p lo hi n w = (Inr [], w)"
      using g p n u len ready lo hi by (auto simp: native_bindings_def ScanRange_def takyon_scan_range_def
          native_ready_def CopyBound_ok key_bytes_def [of p])
    moreover have none: "{k \<in> dom (native_index w). ?P k} = {}" using True by (auto simp: suffix_between_def)
    have "scan_answer n ?P (native_index w) []" unfolding scan_answer_def none by simp
    ultimately show ?thesis by blast
  next
    case False
    then have "g p lo hi n w = (Inr (takyon_scan ?P n w), w)"
      using g p n u len ready lo hi by (auto simp: native_bindings_def ScanRange_def takyon_scan_range_def
          native_ready_def CopyBound_ok sib key_bytes_def [of p])
    moreover have "scan_answer n ?P (native_index w) (takyon_scan ?P n w)"
      unfolding takyon_scan_def native_index_def using ready by (intro filter_scan_answer) (simp add: native_ready_def)
    ultimately show ?thesis by blast
  qed
qed

interpretation native: arena_engine native_bindings "native_ready rg" native_index rg for rg
proof
  fix w :: native and m off n d k v r w'
  assume ready: "native_ready rg w"
  show "int (length (w_mem w)) = arenaBytes rg" "validateRegions rg (arenaBytes rg) = Inr () \<and> regions_u32 rg"
    using ready by (simp_all add: native_ready_def)
  show "native_ready rg (w\<lparr>w_mem := m\<rparr>) \<and> native_index (w\<lparr>w_mem := m\<rparr>) = native_index w"
    if "length m = length (w_mem w)" using ready that by (simp add: native_ready_def native_index_def)
  show "strings_extended rg (w_mem w) (w_mem w')
      \<and> string_bump rg (w_mem w') \<le> max (string_bump rg (w_mem w)) (arenaBytes rg)"
    if "stringDataStart rg \<le> string_bump rg (w_mem w)" "b_insert_index native_bindings k v w = (r, w')"
  proof (cases "CopyKey k")
    case (Inl e)
    then show ?thesis using that by (simp add: native_bindings_def InsertIndex_def strings_extended_def)
  next
    case (Inr key)
    obtain rc w2 where t: "takyon_insert_index key (u32_of v) w = (rc, w2)" by (rule prod.exhaust)
    then show ?thesis using that Inr insert_index_frame [OF ready _ t] by (simp add: native_bindings_def InsertIndex_def)
  qed
  show "native_ready rg w' \<and> native_index w' = native_index w \<and> w_mem w' = w_mem w"
    if "b_pushDelta native_bindings off d w = (r, w')"
    using that push_frame [OF ready] ready
    by (auto simp: native_bindings_def PushDelta_def takyon_write_delta_def map_prod_def split: if_splits prod.splits)
  show "native_ready rg w' \<and> native_index w' = native_index w \<and> w_mem w' = w_mem w"
    if "b_notifyArena native_bindings off n w = (r, w')"
    using that push_frame [OF ready] ready
    by (auto simp: native_bindings_def NotifyArena_def takyon_notify_arena_def map_prod_def split: if_splits prod.splits)
  show "fst (b_notifyArena native_bindings off 0 w) = Inr (- 1)"
    by (simp add: native_bindings_def NotifyArena_def takyon_notify_arena_def u32_of_def)
qed

section \<open>A small arena\<close>

text \<open>A 2576-byte mapping this process created itself: 16 ring slots, 64 bytes of records, 128 of strings.\<close>

definition small_regions :: regions where
  "small_regions = \<lparr>arenaBytes = 2576, ringCapacity = 16, recordStart = 2376, recordBytes = 64, artRoot = 2440,
     artBytes = 8, stringStart = 2448, stringBytes = 128\<rparr>"

definition small_engine :: "bool \<Rightarrow> engine" where
  "small_engine daemon = \<lparr>e_attached = True, e_refs = 1, e_daemon = daemon, e_regions = small_regions, e_ring = [],
     e_pushed = 0, e_durable = 0, e_index = [], e_leaf_room = 8, e_segment = None, e_vacuum = False,
     e_pressure = \<lparr>saturated_total = 0, saturated_wait_ns = 0, dropped_total = 0, durable_tail = 0\<rparr>\<rparr>"

definition small_world :: native where
  "small_world = \<lparr>w_mem = replicate 2576 0, w_eng = small_engine False\<rparr>"

lemma small_valid: "validateRegions small_regions (arenaBytes small_regions) = Inr ()" "regions_u32 small_regions"
  by (code_simp, code_simp)

lemma small_ready: "native_ready small_regions small_world"
  unfolding native_ready_def using small_valid by (simp add: small_world_def small_engine_def small_regions_def)

end
