(* ===== verification/Mirror.thy ===== *)
theory Mirror
  imports Engine Table
begin

text \<open>
  The primary-key mirror (\<open>client/relational/mirror.ts\<close>): a table's keys published into the engine's
  index under \<open>tbl:<table>:<pk>\<close>. The section states what it promises, a finite map from table and
  rendered key to an offset, and shows that every history of its methods is a history of that map.
\<close>

section \<open>Methods\<close>

definition mirror_offset_error :: "jsnum \<Rightarrow> js_error" where
  "mirror_offset_error off =
     Error (lit ''record offset must be a non-negative integer, got '' @ js_String (Num off))"

definition mirrorPk :: "'e bindings \<Rightarrow> jstr \<Rightarrow> jsval \<Rightarrow> jsnum \<Rightarrow> ('e world, unit) action" where
  "mirrorPk b table pkValue recordOffset =
     (if \<not> is_integer_num recordOffset \<or> num_lt recordOffset (Fin 0)
      then act_throw (mirror_offset_error recordOffset)
      else act_bind (act_res (encodePk pkValue)) (\<lambda>pk.
           act_bind (b_insert_index b (pkKey table pk) (num_int recordOffset)) (\<lambda>rc.
             if rc = - 2 then act_throw (BackpressureError (lit ''mirrorPk('' @ quoted table @ lit '', '' @ js_String pkValue
                 @ lit ''): the log ring stayed full, so this index binding is in shared memory but not in the log.'') (- 2))
             else if rc \<noteq> 0 then act_throw (Error (lit ''insert_index failed for PK '' @ quoted (js_String pkValue)))
             else act_return ())))"

definition lookupPk :: "'e bindings \<Rightarrow> jstr \<Rightarrow> jsval \<Rightarrow> ('e world, int option) action" where
  "lookupPk b table pkValue =
     act_bind (act_res (encodePk pkValue)) (\<lambda>pk.
     act_bind (b_search_index b (pkKey table pk)) (\<lambda>off. act_return (if off < 0 then None else Some off)))"

definition unmirrorPk :: "'e bindings \<Rightarrow> jstr \<Rightarrow> jsval \<Rightarrow> ('e world, bool) action" where
  "unmirrorPk b table pkValue =
     act_bind (act_res (encodePk pkValue)) (\<lambda>pk.
     act_bind (b_remove_index b (pkKey table pk)) (\<lambda>rc.
       if rc = 1 then act_return True
       else if rc = 0 then act_return False
       else act_throw (Error (lit ''remove_index failed for PK '' @ quoted (js_String pkValue)))))"

definition syncTable :: "'e bindings \<Rightarrow> table \<Rightarrow> (jstr \<Rightarrow> jsnum) \<Rightarrow> ('e world, unit) action" where
  "syncTable b t offsetOf =
     run_each (\<lambda>row. let pk = js_String (row_get row (primaryKeyName (schema_of t)))
                     in mirrorPk b (tableName (schema_of t)) (Str pk) (offsetOf pk)) (tbl_scan t None)"

definition table_prefix :: "jstr \<Rightarrow> jstr" where
  "table_prefix table = lit ''tbl:'' @ table @ lit '':''"

definition scanTable :: "'e bindings \<Rightarrow> jstr \<Rightarrow> int \<Rightarrow> ('e world, int list) action" where
  "scanTable b table maxResults =
     (case b_scan_prefix b of
        None \<Rightarrow> act_throw (Error (lit ''bridge has no scan_prefix (rebuild the addon)''))
      | Some f \<Rightarrow> f (table_prefix table) maxResults)"

definition scanRange :: "'e bindings \<Rightarrow> jstr \<Rightarrow> jstr \<Rightarrow> jstr \<Rightarrow> int \<Rightarrow> ('e world, int list) action" where
  "scanRange b table lo hi maxResults =
     (case b_scan_range b of
        None \<Rightarrow> act_throw (Error (lit ''bridge has no scan_range (rebuild the addon)''))
      | Some f \<Rightarrow> f (table_prefix table) lo hi maxResults)"

section \<open>The map it promises\<close>

definition offset_number :: "jsnum \<Rightarrow> bool" where
  "offset_number n \<longleftrightarrow> is_integer_num n \<and> 0 \<le> num_int n \<and> num_int n < 2 ^ 32"

lemma offset_number_guard: "offset_number n \<Longrightarrow> is_integer_num n \<and> \<not> num_lt n (Fin 0)"
  by (cases n) (auto simp: offset_number_def is_integer_num_def num_int_def)

datatype mirror_op = Publish jstr jsval jsnum | Withdraw jstr jsval | Find jstr jsval

datatype mirror_answer = Published | Withdrawn bool | Found "int option"

fun mirror_call :: "'e bindings \<Rightarrow> mirror_op \<Rightarrow> ('e world, mirror_answer) action" where
  "mirror_call b (Publish t v off) = act_bind (mirrorPk b t v off) (\<lambda>_. act_return Published)"
| "mirror_call b (Withdraw t v) = act_bind (unmirrorPk b t v) (\<lambda>d. act_return (Withdrawn d))"
| "mirror_call b (Find t v) = act_bind (lookupPk b t v) (\<lambda>o'. act_return (Found o'))"

fun mirror_run :: "'e bindings \<Rightarrow> mirror_op list \<Rightarrow> 'e world \<Rightarrow> mirror_answer res list \<times> 'e world" where
  "mirror_run b [] w = ([], w)"
| "mirror_run b (op # ops) w =
     (case mirror_call b op w of (r, w1) \<Rightarrow> case mirror_run b ops w1 of (rs, w2) \<Rightarrow> (r # rs, w2))"

type_synonym key_map = "jstr \<times> jstr \<rightharpoonup> int"

text \<open>What one call may answer and how it leaves the map. An exception leaves it as it was.\<close>

fun mirror_allows :: "key_map \<Rightarrow> mirror_op \<Rightarrow> mirror_answer res \<Rightarrow> key_map \<Rightarrow> bool" where
  "mirror_allows m (Publish t v off) r m' =
     (case r of Inr a \<Rightarrow> a = Published \<and> is_ok (encodePk v) \<and> m' = m((t, projr (encodePk v)) \<mapsto> num_int off)
      | Inl e \<Rightarrow> m' = m)"
| "mirror_allows m (Withdraw t v) r m' =
     (case r of Inr a \<Rightarrow> is_ok (encodePk v) \<and> a = Withdrawn ((t, projr (encodePk v)) \<in> dom m)
         \<and> m' = m((t, projr (encodePk v)) := None)
      | Inl e \<Rightarrow> m' = m)"
| "mirror_allows m (Find t v) r m' =
     (m' = m \<and> (case r of Inr a \<Rightarrow> is_ok (encodePk v)
         \<and> a = Found (case m (t, projr (encodePk v)) of Some off \<Rightarrow> if off < 0x7FFFFFFF then Some off else None | None \<Rightarrow> None)
       | Inl e \<Rightarrow> is_ok (encodePk v) \<longrightarrow> \<not> key_bytes (pkKey t (projr (encodePk v)))))"

inductive mirror_history :: "key_map \<Rightarrow> mirror_op list \<Rightarrow> mirror_answer res list \<Rightarrow> key_map \<Rightarrow> bool" where
  none: "mirror_history m [] [] m"
| call: "mirror_allows m op r m1 \<Longrightarrow> mirror_history m1 ops rs m2 \<Longrightarrow> mirror_history m (op # ops) (r # rs) m2"

inductive_simps mirror_history_simps:
  "mirror_history m [] rs m'" "mirror_history m (op # ops) rs m'"

fun mirror_op_ok :: "mirror_op \<Rightarrow> bool" where
  "mirror_op_ok (Publish t v off) = (is_identifier t \<and> well_formed (projr (encodePk v)) \<and> offset_number off)"
| "mirror_op_ok (Withdraw t v) = (is_identifier t \<and> well_formed (projr (encodePk v)))"
| "mirror_op_ok (Find t v) = (is_identifier t \<and> well_formed (projr (encodePk v)))"

definition key_view :: "('e world \<Rightarrow> (buffer \<rightharpoonup> int)) \<Rightarrow> 'e world \<Rightarrow> key_map" where
  "key_view idx w = (\<lambda>(t, k). if is_identifier t \<and> well_formed k then idx w (utf8_encode (pkKey t k)) else None)"

lemma ident_unit_ascii: "is_ident_char c \<Longrightarrow> ascii_unit c"
proof -
  assume "is_ident_char c"
  then have "c \<le> 122 \<or> c \<le> 90 \<or> c \<le> 57 \<or> c = 95" unfolding is_ident_char_def is_ident_start_def is_digit_def by blast
  then show ?thesis by (auto simp: ascii_unit_def word_le_def)
qed

lemma identifier_ascii: "is_identifier t \<Longrightarrow> list_all ascii_unit t"
  by (cases t) (auto simp: list_all_iff is_ident_char_def intro: ident_unit_ascii)

lemma plain_lit: "list_all plain_unit (lit s)"
proof -
  have "plain_unit (cu c)" for c
  proof -
    have "(of_char c :: nat) mod 65536 < 256" using of_char_bound [of c] by (rule le_less_trans [OF mod_less_eq_dividend])
    then have "unat (cu c) < 256" by (simp add: cu_def unat_of_nat take_bit_eq_mod)
    then have "uint (cu c) < 256" by (simp only: uint_nat)
    then show ?thesis by (simp add: plain_unit_def is_high_def is_low_def)
  qed
  then show ?thesis by (simp add: lit_def list_all_iff)
qed

lemma well_formed_append: "list_all plain_unit s \<Longrightarrow> well_formed (s @ t) \<longleftrightarrow> well_formed t"
proof (induction s)
  case (Cons c s)
  then show ?case using well_formed_append_plain [of c "[]" "s @ t"] by simp
qed simp

lemma identifier_plain: "is_identifier t \<Longrightarrow> list_all plain_unit t"
  using identifier_ascii [of t] by (auto simp: list_all_iff intro: ascii_plain)

lemma well_formed_pkKey: "is_identifier t \<Longrightarrow> well_formed (pkKey t k) \<longleftrightarrow> well_formed k"
  by (simp add: pkKey_def well_formed_append plain_lit identifier_plain)

lemma pkKey_bytes_eq:
  assumes "is_identifier t" "is_identifier t'" "well_formed k" "well_formed k'"
  shows "utf8_encode (pkKey t k) = utf8_encode (pkKey t' k') \<longleftrightarrow> t = t' \<and> k = k'"
proof -
  have "utf8_encode (pkKey t k) = utf8_encode (pkKey t' k') \<longleftrightarrow> pkKey t k = pkKey t' k'"
    using assms by (simp add: utf8_encode_inj well_formed_pkKey)
  then show ?thesis using pkKey_eq [OF assms(1,2)] by simp
qed

lemma key_view_cong: "idx w' = idx w \<Longrightarrow> key_view idx w' = key_view idx w"
  by (simp only: key_view_def)

context index_engine
begin

lemma view_after:
  assumes "is_identifier t" "well_formed k" and "idx w' = (idx w)(utf8_encode (pkKey t k) := x)"
  shows "key_view idx w' = (key_view idx w)((t, k) := x)"
  using assms by (auto simp: key_view_def fun_eq_iff pkKey_bytes_eq)

lemma mirrorPk_step:
  assumes "ready w" "is_identifier t" "well_formed (projr (encodePk v))" "offset_number off"
    and run: "mirrorPk b t v off w = (r, w')"
  shows "ready w' \<and> (case r of Inr u \<Rightarrow> is_ok (encodePk v)
      \<and> key_view idx w' = (key_view idx w)((t, projr (encodePk v)) \<mapsto> num_int off) | Inl e \<Rightarrow> key_view idx w' = key_view idx w)"
proof (cases "encodePk v")
  case (Inl e)
  then show ?thesis using run assms(1) offset_number_guard [OF assms(4)] by (auto simp: mirrorPk_def split: sum.splits)
next
  case (Inr k)
  obtain ri w1 where i: "b_insert_index b (pkKey t k) (num_int off) w = (ri, w1)" by (rule prod.exhaust)
  have u: "u32_of (num_int off) = num_int off" using assms(4) by (simp add: u32_of_def offset_number_def)
  have w': "w' = w1" "(\<exists>u. r = Inr u) \<longleftrightarrow> ri = Inr 0"
    using run i Inr offset_number_guard [OF assms(4)]
    by (auto simp: mirrorPk_def act_bind_def split: if_splits sum.splits)
  note law = insert_law [OF assms(1) i]
  show ?thesis
  proof (cases "ri = Inr 0")
    case True
    then have "key_view idx w' = (key_view idx w)((t, k) \<mapsto> num_int off)"
      using law w' u Inr assms(3) by (intro view_after [OF assms(2)]) simp_all
    then show ?thesis using True w' law Inr by auto
  next
    case False
    then have "key_view idx w' = key_view idx w" using law w' by (intro key_view_cong) simp
    then show ?thesis using False w' law by (auto split: sum.split)
  qed
qed

lemma unmirrorPk_step:
  assumes "ready w" "is_identifier t" "well_formed (projr (encodePk v))" and run: "unmirrorPk b t v w = (r, w')"
  shows "ready w' \<and> mirror_allows (key_view idx w) (Withdraw t v) (map_sum (\<lambda>e. e) Withdrawn r) (key_view idx w')"
proof (cases "encodePk v")
  case (Inl e)
  then show ?thesis using run assms(1) by (auto simp: unmirrorPk_def)
next
  case (Inr k)
  note k = this
  show ?thesis
  proof (cases "key_bytes (pkKey t k)")
    case False
    then obtain m where "b_remove_index b (pkKey t k) w = (Inl (RangeError m), w)"
      using remove_bad_key [OF assms(1)] by blast
    then show ?thesis using run k assms(1) by (auto simp: unmirrorPk_def act_bind_Inl)
  next
    case True
    obtain rc w1 where c: "b_remove_index b (pkKey t k) w = (rc, w1)" by (rule prod.exhaust)
    note law = remove_law [OF assms(1) True c]
    have dom: "(t, k) \<in> dom (key_view idx w) \<longleftrightarrow> utf8_encode (pkKey t k) \<in> dom (idx w)"
      using assms(2,3) k by (auto simp: key_view_def dom_def)
    note same = key_view_cong [of idx w1 w]
    have gone: "idx w1 = (idx w)(utf8_encode (pkKey t k) := None) \<Longrightarrow> key_view idx w1 = (key_view idx w)((t, k) := None)"
      using assms(2,3) k by (intro view_after) simp_all
    have unchanged: "key_view idx w (t, k) = None \<Longrightarrow> key_view idx w = (key_view idx w)((t, k) := None)"
      by (auto simp: fun_eq_iff)
    show ?thesis using law run k c dom same gone unchanged
      by (auto simp: unmirrorPk_def act_bind_def)
  qed
qed

lemma lookupPk_step:
  assumes "ready w" "is_identifier t" "well_formed (projr (encodePk v))" and run: "lookupPk b t v w = (r, w')"
  shows "ready w' \<and> mirror_allows (key_view idx w) (Find t v) (map_sum (\<lambda>e. e) Found r) (key_view idx w')"
proof (cases "encodePk v")
  case (Inl e)
  then show ?thesis using run assms(1) by (auto simp: lookupPk_def)
next
  case (Inr k)
  note k = this
  show ?thesis
  proof (cases "key_bytes (pkKey t k)")
    case False
    then obtain m where "b_search_index b (pkKey t k) w = (Inl (RangeError m), w)"
      using search_bad_key [OF assms(1)] by blast
    then show ?thesis using run k assms(1) False by (auto simp: lookupPk_def act_bind_Inl)
  next
    case True
    have "key_view idx w (t, k) = idx w (utf8_encode (pkKey t k))" using assms(2,3) k by (simp add: key_view_def)
    then show ?thesis using run k assms(1) search_law [OF assms(1) True] index_values [OF assms(1), of "utf8_encode (pkKey t k)"]
      by (fastforce simp: lookupPk_def act_bind_def split: option.splits if_splits)
  qed
qed

lemma mirror_call_step:
  assumes "ready w" "mirror_op_ok op" "mirror_call b op w = (r, w')"
  shows "ready w' \<and> mirror_allows (key_view idx w) op r (key_view idx w')"
proof (cases op)
  case (Publish t v off)
  obtain r1 w1 where c: "mirrorPk b t v off w = (r1, w1)" by (rule prod.exhaust)
  then have "w' = w1" "r = map_sum (\<lambda>e. e) (\<lambda>_. Published) r1"
    using assms(3) Publish by (auto simp: act_bind_def split: sum.splits)
  then show ?thesis using mirrorPk_step [OF assms(1) _ _ _ c] assms(2) Publish by (auto split: sum.splits)
next
  case (Withdraw t v)
  obtain r1 w1 where c: "unmirrorPk b t v w = (r1, w1)" by (rule prod.exhaust)
  then have "w' = w1" "r = map_sum (\<lambda>e. e) Withdrawn r1"
    using assms(3) Withdraw by (auto simp: act_bind_def split: sum.splits)
  then show ?thesis using unmirrorPk_step [OF assms(1) _ _ c] assms(2) Withdraw by simp
next
  case (Find t v)
  obtain r1 w1 where c: "lookupPk b t v w = (r1, w1)" by (rule prod.exhaust)
  then have "w' = w1" "r = map_sum (\<lambda>e. e) Found r1"
    using assms(3) Find by (auto simp: act_bind_def split: sum.splits)
  then show ?thesis using lookupPk_step [OF assms(1) _ _ c] assms(2) Find by simp
qed

lemma mirror_run_history:
  assumes "ready w" "list_all mirror_op_ok ops" "mirror_run b ops w = (rs, w')"
  shows "ready w' \<and> mirror_history (key_view idx w) ops rs (key_view idx w')"
  using assms
proof (induction ops arbitrary: w rs w')
  case (Cons op ops)
  obtain r w1 where c: "mirror_call b op w = (r, w1)" by (rule prod.exhaust)
  obtain rs1 w2 where d: "mirror_run b ops w1 = (rs1, w2)" by (rule prod.exhaust)
  have r1: "ready w1" and a: "mirror_allows (key_view idx w) op r (key_view idx w1)"
    using mirror_call_step [OF Cons.prems(1) _ c] Cons.prems(2) by simp_all
  then have "ready w2 \<and> mirror_history (key_view idx w1) ops rs1 (key_view idx w2)"
    using Cons.IH [OF r1 _ d] Cons.prems(2) by simp
  moreover have "rs = r # rs1" "w' = w2" using Cons.prems(3) c d by simp_all
  ultimately show ?case using mirror_history.call [where m = "key_view idx w", OF a] by blast
qed (simp add: mirror_history.none)

end

lemma utf8_append_ascii:
  "list_all ascii_unit s \<Longrightarrow> utf8_encode (s @ t) = utf8_encode s @ utf8_encode t"
  using utf8_ascii [of s t] utf8_ascii [of s "[]"] by simp

lemma ascii_lit_key [simp]:
  "list_all ascii_unit (lit ''tbl:'')" "list_all ascii_unit (lit '':'')" "list_all ascii_unit (lit ''idx:'')"
  "list_all ascii_unit (lit ''__catalog__:'')"
  by code_simp+

lemma table_prefix_ascii: "is_identifier t \<Longrightarrow> list_all ascii_unit (table_prefix t)"
  by (simp add: table_prefix_def identifier_ascii)

lemma pkKey_table_prefix: "pkKey t k = table_prefix t @ k"
  by (simp add: pkKey_def table_prefix_def)

lemma utf8_ascii_inj: "list_all ascii_unit s \<Longrightarrow> list_all ascii_unit t \<Longrightarrow> utf8_encode s = utf8_encode t \<Longrightarrow> s = t"
  using utf8_encode_inj [of s t] well_formed_plain ascii_plain by (metis list_all_iff)

lemma utf8_ascii_bytes: "list_all ascii_unit s \<Longrightarrow> utf8_encode s = map (\<lambda>c. word_of_int (uint c)) s"
  using utf8_ascii [of s "[]"] by simp

lemma ascii_colon_byte:
  assumes "ascii_unit c" and "(word_of_int (uint c) :: byte8) = 58"
  shows "c = 58"
proof -
  have "uint c < 128" using assms(1) by (simp add: ascii_unit_def)
  then have "uint (word_of_int (uint c) :: byte8) = uint c" by (intro uint_byte_id) simp_all
  then have "uint c = 58" using assms(2) by simp
  then show ?thesis by (simp add: word_uint_eq_iff)
qed

lemma identifier_bytes:
  assumes "is_identifier t"
  shows "utf8_encode (table_prefix t @ k) = utf8_encode (lit ''tbl:'') @ utf8_encode t @ 58 # utf8_encode k"
    and "58 \<notin> set (utf8_encode t)"
proof -
  have colon: "utf8_encode (lit '':'') = [58]" by code_simp
  show "utf8_encode (table_prefix t @ k) = utf8_encode (lit ''tbl:'') @ utf8_encode t @ 58 # utf8_encode k"
    using identifier_ascii [OF assms] by (simp add: table_prefix_def utf8_append_ascii colon)
  have "c \<noteq> 58" if "c \<in> set t" for c
    using assms that by (cases t) (auto simp: is_ident_start_def is_ident_char_def is_digit_def list_all_iff)
  then show "58 \<notin> set (utf8_encode t)"
    using identifier_ascii [OF assms] ascii_colon_byte unfolding utf8_ascii_bytes [OF identifier_ascii [OF assms]] list_all_iff
    by (metis (no_types, lifting) imageE list.set_map)
qed

lemma table_prefix_matches:
  assumes "is_identifier t" "is_identifier t'"
  shows "prefix (utf8_encode (table_prefix t)) (utf8_encode (pkKey t' k)) \<longleftrightarrow> t = t'"
proof
  assume "prefix (utf8_encode (table_prefix t)) (utf8_encode (pkKey t' k))"
  then obtain r where "utf8_encode t' @ 58 # utf8_encode k = (utf8_encode t @ 58 # []) @ r"
    using identifier_bytes(1) [OF assms(1), of "[]"] identifier_bytes(1) [OF assms(2), of k]
    by (auto simp: prefix_def pkKey_table_prefix)
  then have "utf8_encode t' = utf8_encode t"
    using split_at_sep [OF identifier_bytes(2) [OF assms(2)] identifier_bytes(2) [OF assms(1)]] by simp
  then show "t = t'" using utf8_ascii_inj identifier_ascii assms by metis
next
  assume "t = t'"
  then show "prefix (utf8_encode (table_prefix t)) (utf8_encode (pkKey t' k))"
    using identifier_bytes(1) [OF assms(1), of "[]"] identifier_bytes(1) [OF assms(1), of k]
    by (simp add: pkKey_table_prefix)
qed

section \<open>Properties\<close>



text \<open>Listing a table: below the cap, \<open>scanTable\<close> returns the offsets of exactly the index entries
  under the table's prefix, which holds every key of that table and none of another one.\<close>

theorem scan_table_isolates:
  assumes "native_ready rg w" and "is_identifier t" and "is_identifier t'" and "key_bytes (table_prefix t)"
    and "1 \<le> n" "n \<le> 4096"
    and "card {k \<in> dom (native_index w). prefix (utf8_encode (table_prefix t)) k} \<le> nat n"
  shows "\<exists>out. scanTable native_bindings t n w = (Inr out, w)
    \<and> set out = {v. \<exists>key. native_index w key = Some v \<and> prefix (utf8_encode (table_prefix t)) key}
    \<and> (prefix (utf8_encode (table_prefix t)) (utf8_encode (pkKey t' k)) \<longleftrightarrow> t = t')"
proof -
  obtain f where f: "b_scan_prefix native_bindings = Some f" by (simp add: native_bindings_def)
  obtain out where "f (table_prefix t) n w = (Inr out, w)"
    "scan_answer n (prefix (utf8_encode (table_prefix t))) (native_index w) out"
    using native.prefix_law [OF assms(1) f assms(4,5,6)] by blast
  then show ?thesis
    using native.complete_scan [OF assms(1) _ assms(7)] table_prefix_matches [OF assms(2,3)] f
    by (auto simp: scanTable_def)
qed

theorem scan_table_isolates_witness:
  "\<exists>out. scanTable native_bindings (lit ''t'') 4096 small_world = (Inr out, small_world)
    \<and> (prefix (utf8_encode (table_prefix (lit ''t''))) (utf8_encode (pkKey (lit ''u'') [])) \<longleftrightarrow> lit ''t'' = lit ''u'')"
proof -
  have a: "is_identifier (lit ''t'')" "is_identifier (lit ''u'')" "key_bytes (table_prefix (lit ''t''))" by code_simp+
  have "card {k \<in> dom (native_index small_world). prefix (utf8_encode (table_prefix (lit ''t''))) k} \<le> nat 4096"
    by (simp add: native_index_def small_world_def small_engine_def)
  from scan_table_isolates [OF small_ready a _ _ this, of "[]"] show ?thesis by auto
qed

definition byte_table_columns :: "column_def list" where
  "byte_table_columns = [\<lparr>col_name = lit ''id'', col_type = TBytes, nullable = None, primaryKey = Some True, unique = None, defaultValue = Undefined\<rparr>]"

text \<open>Bulk publishing renders keys with \<open>String\<close>, lookups with \<open>encodePk\<close>. For a byte key the two differ:
  after \<open>syncTable\<close> of a table with one such row, \<open>lookupPk\<close> of that row's own key finds nothing,
  while the comma-separated text is found.\<close>

theorem sync_loses_byte_keys:
  "case new_RelationalTable (lit ''t'') byte_table_columns of Inl e \<Rightarrow> False
   | Inr t0 \<Rightarrow>
     (case tbl_insert [lit ''id'' \<mapsto> Bytes 0 [1, 2]] t0 of (r0, t1) \<Rightarrow>
      case syncTable native_bindings t1 (\<lambda>_. Fin 2376) small_world of (r1, w1) \<Rightarrow>
        is_ok r0 \<and> is_ok r1
        \<and> fst (lookupPk native_bindings (lit ''t'') (Bytes 0 [1, 2]) w1) = Inr None
        \<and> fst (lookupPk native_bindings (lit ''t'') (Str (lit ''1,2'')) w1) = Inr (Some 2376))"
  by code_simp

end
