(* ===== verification/SecondaryNative.thy ===== *)
theory SecondaryNative
  imports Mirror
begin

text \<open>
  Secondary indexes in the engine (\<open>client/relational/secondary_native.ts\<close>): one index entry per row
  under \<open>idx:<table>:<column>:<value>\<close>, a separator and the primary key. The order-preserving number
  encodings, the methods, the set of entries they maintain, and what range scans return.
\<close>

section \<open>Encodings\<close>

definition SECONDARY_SEP :: jstr where
  "SECONDARY_SEP = [0x1F]"

function hex_str :: "int \<Rightarrow> jstr" where
  \<comment> \<open>\<open>n.toString(16)\<close> for \<open>0 \<le> n\<close>\<close>
  "hex_str n = (if n < 16 then [hex_digit n] else hex_str (n div 16) @ [hex_digit (n mod 16)])"
  by pat_completeness auto
termination
  by (relation "measure nat") auto

declare hex_str.simps [simp del]

definition padStart :: "nat \<Rightarrow> jstr \<Rightarrow> jstr" where
  "padStart n s = replicate (n - length s) 48 @ s"

definition padU32Hex :: "jsnum \<Rightarrow> jstr res" where
  "padU32Hex value =
     (if \<not> is_integer_num value \<or> num_lt value (Fin 0) \<or> num_lt (Fin 0xffffffff) value
      then Inl (Error (lit ''u32 out of range: '' @ js_String (Num value)))
      else Inr (padStart 8 (hex_str (num_int value mod 2 ^ 32))))"

definition MAX_SAFE_INTEGER :: int where
  "MAX_SAFE_INTEGER = 2 ^ 53 - 1"

definition padI64Hex16 :: "jsnum \<Rightarrow> jstr res" where
  "padI64Hex16 value =
     (if \<not> is_integer_num value \<or> \<bar>num_int value\<bar> > MAX_SAFE_INTEGER
      then Inl (Error (lit ''int out of safe range: '' @ js_String (Num value)))
      else Inr (padStart 16 (hex_str (and (xor (num_int value) 0x8000000000000000) 0xFFFFFFFFFFFFFFFF))))"

definition HI_SENTINEL :: jstr where
  "HI_SENTINEL = [0xFFFF]"

fun encodeValue :: "jsval \<Rightarrow> jstr res" where
  "encodeValue (Str s) = Inr s"
| "encodeValue (Num n) = Inr (js_String (Num n))"
| "encodeValue (Bool b) = Inr (js_String (Bool b))"
| "encodeValue v = Inl (Error (lit ''unsupported secondary value type: '' @ typeof v))"

definition entryKey :: "jstr \<Rightarrow> jstr \<Rightarrow> jstr \<Rightarrow> jstr \<Rightarrow> jstr" where
  "entryKey table column value pk =
     lit ''idx:'' @ table @ lit '':'' @ column @ lit '':'' @ value @ SECONDARY_SEP @ pk"

definition valuePrefix :: "jstr \<Rightarrow> jstr \<Rightarrow> jstr \<Rightarrow> jstr" where
  "valuePrefix table column value =
     lit ''idx:'' @ table @ lit '':'' @ column @ lit '':'' @ value @ SECONDARY_SEP"

section \<open>Methods\<close>

record native_secondary_index =
  si_table :: jstr
  si_column :: jstr
  si_unique :: bool

definition new_NativeSecondaryIndex :: "jstr \<Rightarrow> jstr \<Rightarrow> bool \<Rightarrow> native_secondary_index res" where
  "new_NativeSecondaryIndex table column unq =
     (if table = [] \<or> column = [] then Inl (Error (lit ''table and column are required''))
      else Inr \<lparr>si_table = table, si_column = column, si_unique = unq\<rparr>)"

definition no_scan :: "string \<Rightarrow> js_error" where
  "no_scan name = Error (lit ''bridge has no '' @ lit name @ lit '' (rebuild the addon)'')"

definition si_lookup :: "'e bindings \<Rightarrow> native_secondary_index \<Rightarrow> jsval \<Rightarrow> ('e world, int list) action" where
  "si_lookup b i value =
     (case b_scan_prefix b of
        None \<Rightarrow> act_throw (no_scan ''scan_prefix'')
      | Some scan \<Rightarrow> act_bind (act_res (encodeValue value)) (\<lambda>v.
          scan (valuePrefix (si_table i) (si_column i) v) 4096))"

definition si_add :: "'e bindings \<Rightarrow> native_secondary_index \<Rightarrow> jsval \<Rightarrow> jsval \<Rightarrow> jsnum \<Rightarrow> ('e world, unit) action" where
  "si_add b i value pk recordOffset =
     (if \<not> is_integer_num recordOffset \<or> num_lt recordOffset (Fin 0)
      then act_throw (mirror_offset_error recordOffset)
      else act_bind (act_res (encodeValue value)) (\<lambda>v.
        act_bind (if si_unique i
                  then act_bind (si_lookup b i value) (\<lambda>found.
                         if 0 < length found
                         then act_throw (Error (lit ''UNIQUE violation on '' @ quoted (si_column i)))
                         else act_return ())
                  else act_return ()) (\<lambda>_.
        act_bind (b_insert_index b (entryKey (si_table i) (si_column i) v (js_String pk)) (num_int recordOffset))
          (\<lambda>rc. if rc \<noteq> 0 then act_throw (Error (lit ''insert_index failed for secondary '' @ quoted (si_column i)))
                else act_return ()))))"

definition si_lookupRange ::
  "'e bindings \<Rightarrow> native_secondary_index \<Rightarrow> jsval \<Rightarrow> jsval \<Rightarrow> int \<Rightarrow> ('e world, int list) action" where
  "si_lookupRange b i lo hi maxResults =
     (case b_scan_range b of
        None \<Rightarrow> act_throw (no_scan ''scan_range'')
      | Some scan \<Rightarrow>
          act_bind (act_res (encodeValue lo)) (\<lambda>loV. act_bind (act_res (encodeValue hi)) (\<lambda>hiV.
          let loBound = (if loV = [] then [] else loV @ SECONDARY_SEP);
              hiBound = (if hiV = [] then [] else hiV @ SECONDARY_SEP @ HI_SENTINEL)
          in scan (secondaryPrefix (si_table i) (si_column i)) loBound hiBound maxResults)))"

definition si_remove :: "'e bindings \<Rightarrow> native_secondary_index \<Rightarrow> jsval \<Rightarrow> jsval \<Rightarrow> ('e world, bool) action" where
  "si_remove b i value pk =
     act_bind (act_res (encodeValue value)) (\<lambda>v.
     act_bind (b_remove_index b (entryKey (si_table i) (si_column i) v (js_String pk))) (\<lambda>rc.
       if rc = 1 then act_return True
       else if rc = 0 then act_return False
       else act_throw (Error (lit ''remove_index failed for secondary '' @ quoted (si_column i)))))"

definition si_lookupNumericRange ::
  "'e bindings \<Rightarrow> native_secondary_index \<Rightarrow> jsnum \<Rightarrow> jsnum \<Rightarrow> int \<Rightarrow> ('e world, int list) action" where
  "si_lookupNumericRange b i lo hi maxResults =
     (case b_scan_range b of
        None \<Rightarrow> act_throw (no_scan ''scan_range'')
      | Some scan \<Rightarrow>
          if \<not> is_integer_num lo \<or> \<not> is_integer_num hi \<or> num_lt hi lo
          then act_throw (Error (lit ''invalid numeric range ['' @ js_String (Num lo) @ lit '', '' @ js_String (Num hi) @ lit '']''))
          else act_bind (act_res (padU32Hex lo)) (\<lambda>l. act_bind (act_res (padU32Hex hi)) (\<lambda>h.
            scan (secondaryPrefix (si_table i) (si_column i)) (l @ SECONDARY_SEP) (h @ SECONDARY_SEP @ HI_SENTINEL)
              maxResults)))"

definition si_cardinality :: "'e bindings \<Rightarrow> native_secondary_index \<Rightarrow> int \<Rightarrow> ('e world, int) action" where
  "si_cardinality b i maxResults =
     (case b_scan_prefix b of
        None \<Rightarrow> act_throw (no_scan ''scan_prefix'')
      | Some scan \<Rightarrow> act_bind (scan (secondaryPrefix (si_table i) (si_column i)) maxResults) (\<lambda>out.
          act_return (int (length out))))"

section \<open>Order of the number encodings\<close>

fun hex_fixed :: "nat \<Rightarrow> int \<Rightarrow> jstr" where
  "hex_fixed 0 v = []"
| "hex_fixed (Suc n) v = hex_fixed n (v div 16) @ [hex_digit (v mod 16)]"

lemma length_hex_fixed [simp]: "length (hex_fixed n v) = n"
  by (induction n arbitrary: v) simp_all

lemma hex_fixed_zero: "hex_fixed n 0 = replicate n 48"
  by (induction n) (simp_all add: hex_digit_def replicate_append_same)

lemma hex_str_fixed: "0 \<le> v \<Longrightarrow> v < 16 ^ Suc n \<Longrightarrow> padStart (Suc n) (hex_str v) = hex_fixed (Suc n) v"
proof (induction n arbitrary: v)
  case 0
  then show ?case by (subst hex_str.simps) (simp add: padStart_def)
next
  case (Suc n)
  show ?case
  proof (cases "v < 16")
    case True
    then show ?thesis using Suc.prems
      by (subst hex_str.simps) (simp add: padStart_def hex_fixed_zero hex_digit_def replicate_append_same)
  next
    case False
    have "v div 16 < 16 ^ Suc n" using Suc.prems(2) by simp
    then have "padStart (Suc n) (hex_str (v div 16)) = hex_fixed (Suc n) (v div 16)"
      using Suc.IH [of "v div 16"] Suc.prems(1) by simp
    moreover have "padStart (Suc (Suc n)) (hex_str v) = padStart (Suc n) (hex_str (v div 16)) @ [hex_digit (v mod 16)]"
      using False by (subst hex_str.simps) (simp add: padStart_def)
    ultimately show ?thesis by simp
  qed
qed

lemma hex_str_pad: "0 < n \<Longrightarrow> 0 \<le> v \<Longrightarrow> v < 16 ^ n \<Longrightarrow> padStart n (hex_str v) = hex_fixed n v"
  using hex_str_fixed [of v "n - 1"] by simp

lemma hex_digit_less:
  assumes "0 \<le> a" "a < 16" "0 \<le> b" "b < 16"
  shows "hex_digit a < hex_digit b \<longleftrightarrow> a < b" and "hex_digit a = hex_digit b \<longleftrightarrow> a = b"
  using assms by (auto simp: word_less_def uint_hex_digit hex_digit_inj)

lemma snoc_less:
  fixes a b :: "'a :: linorder"
  shows "length xs = length ys \<Longrightarrow> xs @ [a] < ys @ [b] \<longleftrightarrow> xs < ys \<or> xs = ys \<and> a < b"
  by (induction xs ys rule: list_induct2) auto

lemma div_mod_less:
  fixes u v :: int
  shows "u < v \<longleftrightarrow> u div 16 < v div 16 \<or> u div 16 = v div 16 \<and> u mod 16 < v mod 16"
    and "u = v \<longleftrightarrow> u div 16 = v div 16 \<and> u mod 16 = v mod 16"
proof -
  have pack: "16 * a + r < 16 * b + s \<longleftrightarrow> a < b \<or> a = b \<and> r < s"
    if "0 \<le> r" "r < 16" "0 \<le> s" "s < 16" for a b r s :: int
    using that by linarith
  show "u < v \<longleftrightarrow> u div 16 < v div 16 \<or> u div 16 = v div 16 \<and> u mod 16 < v mod 16"
    using pack [of "u mod 16" "v mod 16" "u div 16" "v div 16"] by simp
  show "u = v \<longleftrightarrow> u div 16 = v div 16 \<and> u mod 16 = v mod 16"
    by (metis div_mult_mod_eq)
qed

lemma hex_fixed_less:
  assumes "0 \<le> u" "u < 16 ^ n" "0 \<le> v" "v < 16 ^ n"
  shows "(hex_fixed n u < hex_fixed n v \<longleftrightarrow> u < v) \<and> (hex_fixed n u = hex_fixed n v \<longleftrightarrow> u = v)"
  using assms
proof (induction n arbitrary: u v)
  case (Suc n)
  have d: "(hex_fixed n (u div 16) < hex_fixed n (v div 16) \<longleftrightarrow> u div 16 < v div 16)
      \<and> (hex_fixed n (u div 16) = hex_fixed n (v div 16) \<longleftrightarrow> u div 16 = v div 16)"
    using Suc.prems by (intro Suc.IH) simp_all
  have m: "0 \<le> u mod 16" "u mod 16 < 16" "0 \<le> v mod 16" "v mod 16 < 16" by simp_all
  show ?case unfolding div_mod_less(1) [of u v] div_mod_less(2) [of u v] hex_fixed.simps
    using d by (simp add: snoc_less hex_digit_less [OF m])
qed simp

definition u32_number :: "jsnum \<Rightarrow> bool" where
  "u32_number n \<longleftrightarrow> is_integer_num n \<and> 0 \<le> num_int n \<and> num_int n < 2 ^ 32"

definition safe_integer :: "jsnum \<Rightarrow> bool" where
  "safe_integer n \<longleftrightarrow> is_integer_num n \<and> \<bar>num_int n\<bar> \<le> MAX_SAFE_INTEGER"

lemma integer_num_lt:
  assumes "is_integer_num a" "is_integer_num b"
  shows "num_lt a b \<longleftrightarrow> num_int a < num_int b"
proof -
  have "num_val a = of_int (num_int a)" "num_val b = of_int (num_int b)"
    using assms unfolding is_integer_num_def num_int_def by metis+
  then have "num_val a < num_val b \<longleftrightarrow> num_int a < num_int b" by simp
  moreover have "is_finite_num a" "is_finite_num b" using assms by (simp_all add: is_integer_num_def)
  then have "num_lt a b \<longleftrightarrow> num_val a < num_val b" by (cases a; cases b) simp_all
  ultimately show ?thesis by simp
qed

lemma padU32Hex_eq:
  "padU32Hex n = (if u32_number n then Inr (hex_fixed 8 (num_int n))
     else Inl (Error (lit ''u32 out of range: '' @ js_String (Num n))))"
proof -
  have f: "is_integer_num (Fin 0)" "is_integer_num (Fin 0xffffffff)" "num_int (Fin 0) = 0" "num_int (Fin 0xffffffff) = 0xffffffff"
    by (simp_all add: is_integer_num_def num_int_def)
  have g: "is_integer_num n \<Longrightarrow> \<not> num_lt n (Fin 0) \<and> \<not> num_lt (Fin 0xffffffff) n \<longleftrightarrow> 0 \<le> num_int n \<and> num_int n < 2 ^ 32"
    using integer_num_lt [of n "Fin 0"] integer_num_lt [of "Fin 0xffffffff" n] f by auto
  have h: "u32_number n \<Longrightarrow> padStart 8 (hex_str (num_int n mod 2 ^ 32)) = hex_fixed 8 (num_int n)"
    using hex_str_pad [of 8 "num_int n"] by (simp add: u32_number_def)
  show ?thesis using g h by (auto simp: padU32Hex_def u32_number_def)
qed

lemma biased:
  assumes "\<bar>v\<bar> \<le> MAX_SAFE_INTEGER"
  shows "and (xor v 0x8000000000000000) 0xFFFFFFFFFFFFFFFF = v + 2 ^ 63"
proof -
  have b: "- (2 ^ 53) < v" "v < 2 ^ 53" using assms by (simp_all add: MAX_SAFE_INTEGER_def abs_le_iff)
  have f: "xor v 0x8000000000000000 = flip_bit 63 v"
    by (simp add: flip_bit_eq_xor push_bit_eq_mult)
  have m: "and x 0xFFFFFFFFFFFFFFFF = x mod 2 ^ 64" for x :: int
    using take_bit_eq_mask [of 64 x] by (simp add: take_bit_eq_mod mask_eq_exp_minus_1)
  show ?thesis
  proof (cases "0 \<le> v")
    case True
    then have "\<not> bit v 63" using b by (simp add: bit_iff_odd)
    then have "flip_bit 63 v = v + 2 ^ 63" by (simp add: flip_bit_eq_if set_bit_eq)
    then show ?thesis using b True unfolding f m by simp
  next
    case False
    have "v div 2 ^ 63 = - 1" by (rule int_div_pos_eq [of _ _ _ "v + 2 ^ 63"]) (use b False in simp_all)
    then have "bit v 63" by (simp add: bit_iff_odd)
    then have "flip_bit 63 v = v - 2 ^ 63" by (simp add: flip_bit_eq_if unset_bit_eq)
    moreover have "(v - 2 ^ 63) mod 2 ^ 64 = (v + 2 ^ 63) mod 2 ^ 64"
      using mod_add_self2 [of "v - 2 ^ 63" "2 ^ 64 :: int"] by (simp add: algebra_simps)
    ultimately show ?thesis using b False unfolding f m by simp
  qed
qed

lemma padI64Hex16_eq:
  "padI64Hex16 n = (if safe_integer n then Inr (hex_fixed 16 (num_int n + 2 ^ 63))
     else Inl (Error (lit ''int out of safe range: '' @ js_String (Num n))))"
proof -
  have "padStart 16 (hex_str (num_int n + 2 ^ 63)) = hex_fixed 16 (num_int n + 2 ^ 63)" if "safe_integer n"
    using hex_str_pad [of 16 "num_int n + 2 ^ 63"] that
    by (simp add: safe_integer_def MAX_SAFE_INTEGER_def abs_le_iff)
  then show ?thesis by (auto simp: padI64Hex16_def safe_integer_def biased)
qed

section \<open>Entries as bytes\<close>

definition sep_byte :: byte8 where
  "sep_byte = 0x1F"

definition sec_value :: "jstr \<Rightarrow> bool" where
  \<comment> \<open>an indexed text that cannot be confused with the separator\<close>
  "sec_value v \<longleftrightarrow> well_formed v \<and> 0x1F \<notin> set v"

definition index_prefix :: "jstr \<Rightarrow> jstr \<Rightarrow> buffer" where
  "index_prefix t c = utf8_encode (secondaryPrefix t c)"

lemma low_byte_scalar: "scalar n \<Longrightarrow> x \<in> set (utf8_scalar n) \<Longrightarrow> uint x < 0x80 \<Longrightarrow> n = uint x"
proof -
  assume n: "scalar n" and x: "x \<in> set (utf8_scalar n)" and low: "uint x < 0x80"
  have n0: "0 \<le> n" "n < 0x110000" using n by (simp_all add: scalar_def)
  have hi: "0x80 \<le> uint (word_of_int v :: byte8)" if "0x80 \<le> v" "v < 256" for v
    using that uint_byte_id [of v] by simp
  have m: "0x80 \<le> uint (word_of_int (0x80 + v mod 64) :: byte8)" for v using mod64 [of v] by simp
  show "n = uint x"
  proof (cases "n < 0x80")
    case True
    then have "x = word_of_int n" using x by (simp add: utf8_scalar_def)
    then show ?thesis using True n0 uint_byte_id [of n] by simp
  next
    case False
    consider "n < 0x800" | "0x800 \<le> n" "n < 0x10000" | "0x10000 \<le> n" by linarith
    then have "0x80 \<le> uint x"
    proof cases
      case 1
      have "x = word_of_int (0xC0 + n div 64) \<or> x = word_of_int (0x80 + n mod 64)"
        using x False 1 unfolding utf8_scalar_def by simp
      moreover have "0x80 \<le> uint (word_of_int (0xC0 + n div 64) :: byte8)" using 1 n0 by (intro hi) simp_all
      ultimately show ?thesis using m by blast
    next
      case 2
      have "x = word_of_int (0xE0 + n div 4096) \<or> x = word_of_int (0x80 + n div 64 mod 64) \<or> x = word_of_int (0x80 + n mod 64)"
        using x False 2 unfolding utf8_scalar_def by simp
      moreover have "0x80 \<le> uint (word_of_int (0xE0 + n div 4096) :: byte8)" using 2 n0 by (intro hi) simp_all
      ultimately show ?thesis using m by blast
    next
      case 3
      have "x = word_of_int (0xF0 + n div 262144) \<or> x = word_of_int (0x80 + n div 4096 mod 64)
          \<or> x = word_of_int (0x80 + n div 64 mod 64) \<or> x = word_of_int (0x80 + n mod 64)"
        using x False 3 unfolding utf8_scalar_def by simp
      moreover have "0x80 \<le> uint (word_of_int (0xF0 + n div 262144) :: byte8)" using 3 n0 by (intro hi) simp_all
      ultimately show ?thesis using m by blast
    qed
    then show ?thesis using low by simp
  qed
qed

lemma low_scalar_unit: "n \<in> set (scalars s) \<Longrightarrow> n < 0x80 \<Longrightarrow> word_of_int n \<in> set s"
proof (induction s rule: scalars.induct)
  case (2 c)
  then show ?case by (auto split: if_splits)
next
  case (3 c d cs)
  then show ?case by (auto simp: is_high_def is_low_def split: if_splits)
qed simp

lemma low_byte_unit:
  assumes "x \<in> set (utf8_encode s)" and "uint x < 0x80"
  shows "word_of_int (uint x) \<in> set s"
proof -
  obtain n where n: "n \<in> set (scalars s)" "x \<in> set (utf8_scalar n)" using assms(1) by (auto simp: utf8_encode_def)
  moreover have "scalar n" using n scalars_scalar [of s] by (simp add: list_all_iff)
  ultimately show ?thesis using low_byte_scalar low_scalar_unit assms(2) by metis
qed

lemma sec_value_bytes: "sec_value v \<Longrightarrow> sep_byte \<notin> set (utf8_encode v)"
  using low_byte_unit [of sep_byte v] by (auto simp: sec_value_def sep_byte_def)

lemma plain_sep: "plain_unit 0x1F" "utf8_encode SECONDARY_SEP = [sep_byte]" "ascii_unit 0x1F"
  by (code_simp, code_simp, code_simp)

lemma utf8_append_sep: "utf8_encode (v @ SECONDARY_SEP @ p) = utf8_encode v @ sep_byte # utf8_encode p"
proof -
  have "utf8_encode (v @ 0x1F # p) = utf8_encode (v @ [0x1F]) @ utf8_encode p"
    by (rule utf8_append_plain [OF plain_sep(1)])
  moreover have "scalars (v @ [0x1F]) = scalars v @ scalars [0x1F]"
    by (rule scalars_append_plain [OF plain_sep(1)])
  then have "utf8_encode (v @ [0x1F]) = utf8_encode v @ [sep_byte]"
    using plain_sep(2) by (simp add: utf8_encode_def SECONDARY_SEP_def)
  ultimately show ?thesis by (simp add: SECONDARY_SEP_def)
qed

lemma secondaryPrefix_ascii: "is_identifier t \<Longrightarrow> is_identifier c \<Longrightarrow> list_all ascii_unit (secondaryPrefix t c)"
  by (simp add: secondaryPrefix_def identifier_ascii)

lemma prefix_bytes:
  "is_identifier t \<Longrightarrow> is_identifier c \<Longrightarrow> utf8_encode (secondaryPrefix t c @ s) = index_prefix t c @ utf8_encode s"
  unfolding index_prefix_def by (rule utf8_append_ascii [OF secondaryPrefix_ascii])

lemma entryKey_bytes:
  assumes "is_identifier t" "is_identifier c"
  shows "utf8_encode (entryKey t c v p) = index_prefix t c @ utf8_encode v @ sep_byte # utf8_encode p"
    and "utf8_encode (valuePrefix t c v) = index_prefix t c @ utf8_encode v @ [sep_byte]"
proof -
  have "entryKey t c v p = secondaryPrefix t c @ v @ SECONDARY_SEP @ p" for v p
    by (simp add: entryKey_def secondaryPrefix_def)
  then show "utf8_encode (entryKey t c v p) = index_prefix t c @ utf8_encode v @ sep_byte # utf8_encode p" for v p
    by (simp add: prefix_bytes [OF assms] utf8_append_sep)
  from this [of v "[]"] show "utf8_encode (valuePrefix t c v) = index_prefix t c @ utf8_encode v @ [sep_byte]"
    by (simp add: entryKey_def valuePrefix_def)
qed

lemma entryKey_bytes_eq:
  assumes "is_identifier t" "is_identifier c" "sec_value v" "sec_value v'" "well_formed p" "well_formed p'"
  shows "utf8_encode (entryKey t c v p) = utf8_encode (entryKey t c v' p') \<longleftrightarrow> v = v' \<and> p = p'"
  using split_at_sep [OF sec_value_bytes [OF assms(3)] sec_value_bytes [OF assms(4)], of "utf8_encode p" "utf8_encode p'"]
    utf8_encode_inj assms(3-6)
  by (auto simp: entryKey_bytes [OF assms(1,2)] sec_value_def)

lemma valuePrefix_matches:
  assumes "is_identifier t" "is_identifier c" "sec_value v" "sec_value v'"
  shows "prefix (utf8_encode (valuePrefix t c v)) (utf8_encode (entryKey t c v' p)) \<longleftrightarrow> v = v'"
proof
  assume "prefix (utf8_encode (valuePrefix t c v)) (utf8_encode (entryKey t c v' p))"
  then obtain r where "utf8_encode v' @ sep_byte # utf8_encode p = utf8_encode v @ sep_byte # r"
    by (auto simp: entryKey_bytes [OF assms(1,2)] prefix_def)
  then have "utf8_encode v' = utf8_encode v"
    using split_at_sep [OF sec_value_bytes [OF assms(4)] sec_value_bytes [OF assms(3)]] by blast
  then show "v = v'" using utf8_encode_inj assms(3,4) by (auto simp: sec_value_def)
qed (simp add: entryKey_bytes [OF assms(1,2)])

section \<open>The set of entries it maintains\<close>

type_synonym entry_map = "jstr \<times> jstr \<rightharpoonup> int"

datatype sec_op = AddEntry jsval jsval jsnum | RemoveEntry jsval jsval | LookupValue jsval

datatype sec_answer = Added | Dropped bool | Offsets "int list"

fun sec_call :: "'e bindings \<Rightarrow> native_secondary_index \<Rightarrow> sec_op \<Rightarrow> ('e world, sec_answer) action" where
  "sec_call b i (AddEntry v p off) = act_bind (si_add b i v p off) (\<lambda>_. act_return Added)"
| "sec_call b i (RemoveEntry v p) = act_bind (si_remove b i v p) (\<lambda>d. act_return (Dropped d))"
| "sec_call b i (LookupValue v) = act_bind (si_lookup b i v) (\<lambda>out. act_return (Offsets out))"

fun sec_run :: "'e bindings \<Rightarrow> native_secondary_index \<Rightarrow> sec_op list \<Rightarrow> 'e world \<Rightarrow> sec_answer res list \<times> 'e world" where
  "sec_run b i [] w = ([], w)"
| "sec_run b i (op # ops) w =
     (case sec_call b i op w of (r, w1) \<Rightarrow> case sec_run b i ops w1 of (rs, w2) \<Rightarrow> (r # rs, w2))"

definition rendered :: "jsval \<Rightarrow> jstr" where
  "rendered v = projr (encodeValue v)"

definition holders :: "entry_map \<Rightarrow> jstr \<Rightarrow> jstr set" where
  "holders m v = {p. (v, p) \<in> dom m}"

text \<open>What one call may answer and how it leaves the entries; a lookup is complete up to its cap.\<close>

fun sec_allows :: "native_secondary_index \<Rightarrow> entry_map \<Rightarrow> sec_op \<Rightarrow> sec_answer res \<Rightarrow> entry_map \<Rightarrow> bool" where
  "sec_allows i m (AddEntry v p off) r m' =
     (case r of Inr a \<Rightarrow> a = Added \<and> is_ok (encodeValue v) \<and> (si_unique i \<longrightarrow> holders m (rendered v) = {})
         \<and> m' = m((rendered v, js_String p) \<mapsto> num_int off)
      | Inl e \<Rightarrow> m' = m)"
| "sec_allows i m (RemoveEntry v p) r m' =
     (case r of Inr a \<Rightarrow> is_ok (encodeValue v) \<and> a = Dropped ((rendered v, js_String p) \<in> dom m)
         \<and> m' = m((rendered v, js_String p) := None)
      | Inl e \<Rightarrow> m' = m)"
| "sec_allows i m (LookupValue v) r m' =
     (m' = m \<and> (case r of Inr a \<Rightarrow> is_ok (encodeValue v)
         \<and> (\<exists>out. a = Offsets out \<and> (card (holders m (rendered v)) \<le> 4096 \<longrightarrow>
              set out = {off. \<exists>p. m (rendered v, p) = Some off} \<and> length out = card (holders m (rendered v))))
       | Inl e \<Rightarrow> is_ok (encodeValue v) \<longrightarrow> \<not> key_bytes (valuePrefix (si_table i) (si_column i) (rendered v))))"

inductive sec_history ::
  "native_secondary_index \<Rightarrow> entry_map \<Rightarrow> sec_op list \<Rightarrow> sec_answer res list \<Rightarrow> entry_map \<Rightarrow> bool" for i where
  none: "sec_history i m [] [] m"
| call: "sec_allows i m op r m1 \<Longrightarrow> sec_history i m1 ops rs m2 \<Longrightarrow> sec_history i m (op # ops) (r # rs) m2"

inductive_cases sec_history_ConsE: "sec_history i m (op # ops) rs m'"

fun sec_op_ok :: "sec_op \<Rightarrow> bool" where
  "sec_op_ok (AddEntry v p off) = (sec_value (rendered v) \<and> well_formed (js_String p) \<and> offset_number off)"
| "sec_op_ok (RemoveEntry v p) = (sec_value (rendered v) \<and> well_formed (js_String p))"
| "sec_op_ok (LookupValue v) = sec_value (rendered v)"

definition sec_index_ok :: "native_secondary_index \<Rightarrow> bool" where
  "sec_index_ok i \<longleftrightarrow> is_identifier (si_table i) \<and> is_identifier (si_column i)"

definition sec_key :: "native_secondary_index \<Rightarrow> jstr \<Rightarrow> jstr \<Rightarrow> buffer" where
  "sec_key i v p = utf8_encode (entryKey (si_table i) (si_column i) v p)"

definition sec_view :: "native_secondary_index \<Rightarrow> (buffer \<rightharpoonup> int) \<Rightarrow> entry_map" where
  "sec_view i m = (\<lambda>(v, p). if sec_value v \<and> well_formed p then m (sec_key i v p) else None)"

definition sec_clean :: "native_secondary_index \<Rightarrow> (buffer \<rightharpoonup> int) \<Rightarrow> bool" where
  \<comment> \<open>every index key of this column is the key of an entry\<close>
  "sec_clean i m \<longleftrightarrow> (\<forall>k\<in>dom m. prefix (index_prefix (si_table i) (si_column i)) k \<longrightarrow>
     (\<exists>v p. sec_value v \<and> well_formed p \<and> k = sec_key i v p))"

lemma sec_view_eq: "sec_value v \<Longrightarrow> well_formed p \<Longrightarrow> sec_view i m (v, p) = m (sec_key i v p)"
  by (simp add: sec_view_def)

lemma sec_key_eq:
  "sec_index_ok i \<Longrightarrow> sec_value v \<Longrightarrow> sec_value v' \<Longrightarrow> well_formed p \<Longrightarrow> well_formed p' \<Longrightarrow>
   sec_key i v p = sec_key i v' p' \<longleftrightarrow> v = v' \<and> p = p'"
  by (simp add: sec_key_def sec_index_ok_def entryKey_bytes_eq)

lemma sec_view_upd:
  assumes "sec_index_ok i" "sec_value v" "well_formed p"
  shows "sec_view i (m(sec_key i v p := x)) = (sec_view i m)((v, p) := x)"
  using assms by (auto simp: sec_view_def fun_eq_iff sec_key_eq)

lemma sec_clean_upd:
  "sec_clean i m \<Longrightarrow> sec_value v \<Longrightarrow> well_formed p \<Longrightarrow> sec_clean i (m(sec_key i v p := x))"
  by (auto simp: sec_clean_def dom_def)

lemma sec_matches:
  assumes i: "sec_index_ok i" and v: "sec_value v" and c: "sec_clean i m"
  shows "{k \<in> dom m. prefix (utf8_encode (valuePrefix (si_table i) (si_column i) v)) k}
    = sec_key i v ` holders (sec_view i m) v"
proof -
  have ids: "is_identifier (si_table i)" "is_identifier (si_column i)" using i by (simp_all add: sec_index_ok_def)
  have pre: "prefix (index_prefix (si_table i) (si_column i)) (utf8_encode (valuePrefix (si_table i) (si_column i) v))"
    by (simp add: entryKey_bytes [OF ids])
  have "\<exists>p. k = sec_key i v p \<and> p \<in> holders (sec_view i m) v"
    if k: "k \<in> dom m" "prefix (utf8_encode (valuePrefix (si_table i) (si_column i) v)) k" for k
  proof -
    obtain v' p where e: "sec_value v'" "well_formed p" "k = sec_key i v' p"
      using c k pre prefix_order.trans unfolding sec_clean_def by blast
    then have "v' = v" using valuePrefix_matches [OF ids v e(1)] k(2) by (simp add: sec_key_def)
    then show ?thesis using e k(1) v by (auto simp: holders_def dom_def sec_view_eq)
  qed
  moreover have "sec_key i v p \<in> dom m \<and> prefix (utf8_encode (valuePrefix (si_table i) (si_column i) v)) (sec_key i v p)"
    if "p \<in> holders (sec_view i m) v" for p
    using that valuePrefix_matches [OF ids v v]
    by (auto simp: holders_def sec_view_def sec_key_def dom_def split: if_splits)
  ultimately show ?thesis by blast
qed

lemma sec_holders_wf: "p \<in> holders (sec_view i m) v \<Longrightarrow> well_formed p \<and> sec_value v"
  by (auto simp: holders_def sec_view_def dom_def split: if_splits)

lemma sec_card:
  assumes "sec_index_ok i" "sec_value v" "sec_clean i m"
  shows "card {k \<in> dom m. prefix (utf8_encode (valuePrefix (si_table i) (si_column i) v)) k}
    = card (holders (sec_view i m) v)"
proof -
  have "inj_on (sec_key i v) (holders (sec_view i m) v)"
    using sec_key_eq [OF assms(1,2,2)] sec_holders_wf by (auto intro!: inj_onI)
  then show ?thesis unfolding sec_matches [OF assms] by (rule card_image)
qed

lemma sec_offsets:
  assumes "sec_index_ok i" "sec_value v" "sec_clean i m"
  shows "{off. \<exists>k. m k = Some off \<and> prefix (utf8_encode (valuePrefix (si_table i) (si_column i) v)) k}
    = {off. \<exists>p. sec_view i m (v, p) = Some off}"
proof -
  have mem: "k \<in> sec_key i v ` holders (sec_view i m) v \<longleftrightarrow>
      k \<in> dom m \<and> prefix (utf8_encode (valuePrefix (si_table i) (si_column i) v)) k" for k
    unfolding sec_matches [OF assms, symmetric] by simp
  have view: "p \<in> holders (sec_view i m) v \<Longrightarrow> sec_view i m (v, p) = m (sec_key i v p)" for p
    using sec_holders_wf sec_view_eq by metis
  show ?thesis
  proof (intro equalityI subsetI; clarify)
    fix off k assume "m k = Some off" "prefix (utf8_encode (valuePrefix (si_table i) (si_column i) v)) k"
    then obtain p where "p \<in> holders (sec_view i m) v" "k = sec_key i v p" using mem [of k] by auto
    then show "\<exists>p. sec_view i m (v, p) = Some off" using view \<open>m k = Some off\<close> by metis
  next
    fix off p assume a: "sec_view i m (v, p) = Some off"
    then have p: "p \<in> holders (sec_view i m) v" by (auto simp: holders_def)
    then have "m (sec_key i v p) = Some off" using view a by metis
    then show "\<exists>k. m k = Some off \<and> prefix (utf8_encode (valuePrefix (si_table i) (si_column i) v)) k"
      using mem [of "sec_key i v p"] p by blast
  qed
qed

context index_engine
begin

lemma si_lookup_step:
  assumes "ready w" "b_scan_prefix b = Some f" "sec_index_ok i" "sec_value (rendered v)" "sec_clean i (idx w)"
    and run: "si_lookup b i v w = (r, w')"
  shows "w' = w \<and> sec_allows i (sec_view i (idx w)) (LookupValue v) (map_sum (\<lambda>e. e) Offsets r) (sec_view i (idx w))
    \<and> (r = Inr [] \<longrightarrow> holders (sec_view i (idx w)) (rendered v) = {})"
proof (cases "encodeValue v")
  case (Inl e)
  then show ?thesis using run assms(2) by (auto simp: si_lookup_def)
next
  case (Inr t)
  then have t: "rendered v = t" by (simp add: rendered_def)
  let ?p = "valuePrefix (si_table i) (si_column i) t"
  have scan: "f ?p 4096 w = (r, w')" using run assms(2) Inr by (simp add: si_lookup_def)
  show ?thesis
  proof (cases "key_bytes ?p")
    case True
    obtain out where o: "f ?p 4096 w = (Inr out, w)" "scan_answer 4096 (prefix (utf8_encode ?p)) (idx w) out"
      using prefix_law [OF assms(1,2) True, of 4096] by auto
    note c = sec_card [OF assms(3,4,5), unfolded t] and m = sec_matches [OF assms(3,4,5), unfolded t]
    have "card (holders (sec_view i (idx w)) t) \<le> 4096 \<longrightarrow>
        set out = {off. \<exists>p. sec_view i (idx w) (t, p) = Some off} \<and> length out = card (holders (sec_view i (idx w)) t)"
      using complete_scan [OF assms(1) o(2)] sec_offsets [OF assms(3,4,5), unfolded t] c by simp
    moreover have "out = [] \<longrightarrow> holders (sec_view i (idx w)) t = {}"
      using empty_scan [OF o(2) _ assms(1)] m by auto
    ultimately show ?thesis using o(1) scan Inr t by auto
  next
    case False
    then show ?thesis using scan Inr t prefix_bad_key [OF assms(1,2) False, of 4096] by auto
  qed
qed

lemma insert_entry:
  assumes "ready w" "sec_index_ok i" "sec_value v" "well_formed p" "sec_clean i (idx w)" "0 \<le> n" "n < 2 ^ 32"
    and run: "b_insert_index b (entryKey (si_table i) (si_column i) v p) n w = (r, w')"
  shows "ready w' \<and> sec_clean i (idx w')
    \<and> sec_view i (idx w') = (if r = Inr 0 then (sec_view i (idx w))((v, p) \<mapsto> n) else sec_view i (idx w))"
proof -
  have "ready w' \<and> idx w' = (if r = Inr 0 then (idx w)(sec_key i v p \<mapsto> n) else idx w)"
    using insert_law [OF assms(1) run] assms(6,7) by (simp add: sec_key_def u32_of_def)
  then show ?thesis using sec_view_upd [OF assms(2,3,4)] sec_clean_upd [OF assms(5,3,4)] assms(5) by auto
qed

lemma si_add_step:
  assumes "ready w" "b_scan_prefix b = Some f" "sec_index_ok i" "sec_op_ok (AddEntry v p off)" "sec_clean i (idx w)"
    and run: "si_add b i v p off w = (r, w')"
  shows "ready w' \<and> sec_clean i (idx w')
    \<and> sec_allows i (sec_view i (idx w)) (AddEntry v p off) (map_sum (\<lambda>e. e) (\<lambda>_. Added) r) (sec_view i (idx w'))"
proof (cases "encodeValue v")
  case (Inl e)
  then show ?thesis using run assms(1,4,5) offset_number_guard [of off] by (auto simp: si_add_def)
next
  case (Inr t)
  then have t: "rendered v = t" "sec_value t" using assms(4) by (simp_all add: rendered_def)
  have g: "is_integer_num off" "\<not> num_lt off (Fin 0)" "0 \<le> num_int off" "num_int off < 2 ^ 32"
    using assms(4) offset_number_guard [of off] by (simp_all add: offset_number_def)
  obtain rl wl where l: "si_lookup b i v w = (rl, wl)" by (rule prod.exhaust)
  have wl: "wl = w" "rl = Inr [] \<Longrightarrow> holders (sec_view i (idx w)) t = {}"
    using si_lookup_step [OF assms(1,2,3) _ assms(5) l] t by simp_all
  obtain ri wi where c: "b_insert_index b (entryKey (si_table i) (si_column i) t (js_String p)) (num_int off) w = (ri, wi)"
    by (rule prod.exhaust)
  have e: "ready wi \<and> sec_clean i (idx wi) \<and> sec_view i (idx wi)
      = (if ri = Inr 0 then (sec_view i (idx w))((t, js_String p) \<mapsto> num_int off) else sec_view i (idx w))"
    using insert_entry [OF assms(1,3) t(2) _ assms(5) g(3,4) c] assms(4) by simp
  show ?thesis
  proof (cases "si_unique i \<and> rl \<noteq> Inr []")
    case True
    then show ?thesis using run Inr g l wl assms(1,5) by (auto simp: si_add_def act_bind_def split: sum.splits if_splits)
  next
    case False
    then have "w' = wi \<and> (\<exists>u. r = Inr u) = (ri = Inr 0)"
      using run Inr g l wl c by (auto simp: si_add_def act_bind_def split: sum.splits if_splits)
    then show ?thesis using e False wl(2) t Inr by (cases r) auto
  qed
qed

lemma si_remove_step:
  assumes "ready w" "sec_index_ok i" "sec_op_ok (RemoveEntry v p)" "sec_clean i (idx w)"
    and run: "si_remove b i v p w = (r, w')"
  shows "ready w' \<and> sec_clean i (idx w')
    \<and> sec_allows i (sec_view i (idx w)) (RemoveEntry v p) (map_sum (\<lambda>e. e) Dropped r) (sec_view i (idx w'))"
proof (cases "encodeValue v")
  case (Inl e)
  then show ?thesis using run assms(1,4) by (auto simp: si_remove_def)
next
  case (Inr t)
  then have t: "rendered v = t" "sec_value t" "well_formed (js_String p)" using assms(3) by (simp_all add: rendered_def)
  let ?k = "entryKey (si_table i) (si_column i) t (js_String p)"
  show ?thesis
  proof (cases "key_bytes ?k")
    case False
    then obtain m where "b_remove_index b ?k w = (Inl (RangeError m), w)" using remove_bad_key [OF assms(1)] by blast
    then show ?thesis using run Inr assms(1,4) t by (auto simp: si_remove_def act_bind_Inl)
  next
    case True
    obtain rc w1 where c: "b_remove_index b ?k w = (rc, w1)" by (rule prod.exhaust)
    note law = remove_law [OF assms(1) True c, folded sec_key_def]
    have dom: "(t, js_String p) \<in> dom (sec_view i (idx w)) \<longleftrightarrow> sec_key i t (js_String p) \<in> dom (idx w)"
      using sec_view_eq [OF t(2,3)] by (auto simp: dom_def)
    have upd: "idx w1 = (idx w)(sec_key i t (js_String p) := None) \<Longrightarrow> sec_clean i (idx w1)
        \<and> sec_view i (idx w1) = (sec_view i (idx w))((t, js_String p) := None)"
      using sec_view_upd [OF assms(2) t(2,3)] sec_clean_upd [OF assms(4) t(2,3)] by simp
    have same: "sec_view i (idx w) (t, js_String p) = None \<Longrightarrow>
        sec_view i (idx w) = (sec_view i (idx w))((t, js_String p) := None)" by (auto simp: fun_eq_iff)
    show ?thesis using law run Inr c dom upd same t assms(4) by (auto simp: si_remove_def act_bind_def)
  qed
qed

lemma sec_call_step:
  assumes "ready w" "b_scan_prefix b = Some f" "sec_index_ok i" "sec_op_ok op" "sec_clean i (idx w)"
    and "sec_call b i op w = (r, w')"
  shows "ready w' \<and> sec_clean i (idx w') \<and> sec_allows i (sec_view i (idx w)) op r (sec_view i (idx w'))"
proof (cases op)
  case (AddEntry v p off)
  obtain r1 w1 where c: "si_add b i v p off w = (r1, w1)" by (rule prod.exhaust)
  then have "w' = w1" "r = map_sum (\<lambda>e. e) (\<lambda>_. Added) r1"
    using assms(6) AddEntry by (auto simp: act_bind_def split: sum.splits)
  then show ?thesis using si_add_step [OF assms(1,2,3) _ assms(5) c] assms(4) AddEntry by simp
next
  case (RemoveEntry v p)
  obtain r1 w1 where c: "si_remove b i v p w = (r1, w1)" by (rule prod.exhaust)
  then have "w' = w1" "r = map_sum (\<lambda>e. e) Dropped r1"
    using assms(6) RemoveEntry by (auto simp: act_bind_def split: sum.splits)
  then show ?thesis using si_remove_step [OF assms(1,3) _ assms(5) c] assms(4) RemoveEntry by simp
next
  case (LookupValue v)
  obtain r1 w1 where c: "si_lookup b i v w = (r1, w1)" by (rule prod.exhaust)
  then have "w' = w1" "r = map_sum (\<lambda>e. e) Offsets r1"
    using assms(6) LookupValue by (auto simp: act_bind_def split: sum.splits)
  then show ?thesis using si_lookup_step [OF assms(1,2,3) _ assms(5) c] assms(1,4,5) LookupValue by simp
qed

lemma sec_run_history:
  assumes "b_scan_prefix b = Some f" "sec_index_ok i"
  shows "ready w \<Longrightarrow> sec_clean i (idx w) \<Longrightarrow> list_all sec_op_ok ops \<Longrightarrow> sec_run b i ops w = (rs, w') \<Longrightarrow>
    ready w' \<and> sec_clean i (idx w') \<and> sec_history i (sec_view i (idx w)) ops rs (sec_view i (idx w'))"
proof (induction ops arbitrary: w rs w')
  case (Cons op ops)
  obtain r w1 where c: "sec_call b i op w = (r, w1)" by (rule prod.exhaust)
  obtain rs1 w2 where d: "sec_run b i ops w1 = (rs1, w2)" by (rule prod.exhaust)
  have s: "ready w1" "sec_clean i (idx w1)" and a: "sec_allows i (sec_view i (idx w)) op r (sec_view i (idx w1))"
    using sec_call_step [OF Cons.prems(1) assms(1,2) _ Cons.prems(2) c] Cons.prems(3) by simp_all
  have "ready w2 \<and> sec_clean i (idx w2) \<and> sec_history i (sec_view i (idx w1)) ops rs1 (sec_view i (idx w2))"
    using Cons.IH [OF s _ d] Cons.prems(3) by simp
  moreover have "rs = r # rs1" "w' = w2" using Cons.prems(4) c d by simp_all
  ultimately show ?case using sec_history.call [OF a] by blast
qed (simp add: sec_history.none)

end

section \<open>Numeric ranges\<close>

definition below_sentinel :: "jstr \<Rightarrow> bool" where
  "below_sentinel p \<longleftrightarrow> utf8_encode p \<le> utf8_encode HI_SENTINEL"

definition padded_view :: "entry_map \<Rightarrow> bool" where
  \<comment> \<open>every value is a 32-bit number in its padded form, every key below the sentinel\<close>
  "padded_view m \<longleftrightarrow> (\<forall>(v, p)\<in>dom m. (\<exists>n. 0 \<le> n \<and> n < 2 ^ 32 \<and> v = hex_fixed 8 n) \<and> below_sentinel p)"

lemma hex_digit_ascii: "0 \<le> d \<Longrightarrow> d < 16 \<Longrightarrow> ascii_unit (hex_digit d) \<and> hex_digit d \<noteq> 0x1F"
proof -
  assume d: "0 \<le> d" "d < 16"
  have "uint (hex_digit d) \<noteq> 31 \<and> uint (hex_digit d) < 128" unfolding uint_hex_digit [OF d] using d by simp
  then show ?thesis by (auto simp: ascii_unit_def)
qed

lemma hex_fixed_ascii: "list_all (\<lambda>c. ascii_unit c \<and> c \<noteq> 0x1F) (hex_fixed n v)"
proof (induction n arbitrary: v)
  case (Suc n)
  have "ascii_unit (hex_digit (v mod 16)) \<and> hex_digit (v mod 16) \<noteq> 0x1F" by (rule hex_digit_ascii) simp_all
  then show ?case using Suc by simp
qed simp

lemma hex_fixed_sec_value: "sec_value (hex_fixed n v)"
proof -
  have "list_all plain_unit (hex_fixed n v)" "0x1F \<notin> set (hex_fixed n v)"
    using hex_fixed_ascii [of n v] ascii_plain by (auto simp: list_all_iff)
  then show ?thesis by (simp add: sec_value_def well_formed_plain)
qed

definition unit_byte :: "code_unit \<Rightarrow> byte8" where
  "unit_byte c = word_of_int (uint c)"

lemma unit_byte_less:
  "ascii_unit c \<Longrightarrow> ascii_unit d \<Longrightarrow> (unit_byte c < unit_byte d \<longleftrightarrow> c < d) \<and> (unit_byte c = unit_byte d \<longleftrightarrow> c = d)"
proof -
  assume "ascii_unit c" "ascii_unit d"
  then have "uint (unit_byte c) = uint c" "uint (unit_byte d) = uint d"
    unfolding unit_byte_def ascii_unit_def by (subst uint_byte_id; simp)+
  then show ?thesis by (auto simp: word_less_def word_uint_eq_iff)
qed

lemma map_unit_byte_less:
  "length s = length t \<Longrightarrow> list_all ascii_unit s \<Longrightarrow> list_all ascii_unit t \<Longrightarrow>
   (map unit_byte s < map unit_byte t \<longleftrightarrow> s < t) \<and> (map unit_byte s = map unit_byte t \<longleftrightarrow> s = t)"
  by (induction s t rule: list_induct2) (auto simp: unit_byte_less)

lemma append_less:
  fixes xs ys us vs :: "'a :: linorder list"
  shows "length xs = length ys \<Longrightarrow> xs @ us < ys @ vs \<longleftrightarrow> xs < ys \<or> xs = ys \<and> us < vs"
  by (induction xs ys rule: list_induct2) auto

lemma Nil_less_iff: "[] < xs \<longleftrightarrow> [] \<noteq> (xs :: 'a :: linorder list)"
  by (cases xs) auto

lemma append_le:
  fixes xs ys us vs :: "'a :: linorder list"
  assumes "length xs = length ys"
  shows "xs @ us \<le> ys @ vs \<longleftrightarrow> xs < ys \<or> xs = ys \<and> us \<le> vs"
  using append_less [OF assms] assms by (auto simp: le_less)

lemma hex_fixed_bytes: "utf8_encode (hex_fixed n v) = map unit_byte (hex_fixed n v)"
  using utf8_ascii_bytes [of "hex_fixed n v"] hex_fixed_ascii [of n v] by (simp add: unit_byte_def list_all_iff)

lemma hex_bytes_less:
  assumes "0 \<le> u" "u < 16 ^ n" "0 \<le> v" "v < 16 ^ n"
  shows "(utf8_encode (hex_fixed n u) < utf8_encode (hex_fixed n v) \<longleftrightarrow> u < v)
    \<and> (utf8_encode (hex_fixed n u) = utf8_encode (hex_fixed n v) \<longleftrightarrow> u = v)"
proof -
  have a: "list_all ascii_unit (hex_fixed n u)" for u using hex_fixed_ascii [of n u] by (auto simp: list_all_iff)
  show ?thesis unfolding hex_fixed_bytes
    using map_unit_byte_less [OF _ a a, of u v] hex_fixed_less [OF assms] by simp
qed

text \<open>Where an entry lies with respect to the bounds of a numeric range.\<close>

lemma numeric_bounds:
  assumes "0 \<le> lo" "lo < 2 ^ 32" "0 \<le> hi" "hi < 2 ^ 32" "0 \<le> n" "n < 2 ^ 32"
  shows "suffix_between (utf8_encode (hex_fixed 8 lo @ SECONDARY_SEP)) (utf8_encode (hex_fixed 8 hi @ SECONDARY_SEP @ HI_SENTINEL))
      (utf8_encode (hex_fixed 8 n) @ sep_byte # utf8_encode p) \<longleftrightarrow> lo \<le> n \<and> (n < hi \<or> n = hi \<and> below_sentinel p)"
proof -
  have b: "lo < 16 ^ 8" "hi < 16 ^ 8" "n < 16 ^ 8" using assms by simp_all
  have len: "length (utf8_encode (hex_fixed 8 v)) = 8" for v by (simp add: hex_fixed_bytes)
  have l: "utf8_encode (hex_fixed 8 lo @ SECONDARY_SEP) = utf8_encode (hex_fixed 8 lo) @ [sep_byte]"
    using utf8_append_sep [of "hex_fixed 8 lo" "[]"] by simp
  have h: "utf8_encode (hex_fixed 8 hi @ SECONDARY_SEP @ HI_SENTINEL)
      = utf8_encode (hex_fixed 8 hi) @ sep_byte # utf8_encode HI_SENTINEL" by (rule utf8_append_sep)
  have "utf8_encode (hex_fixed 8 lo) @ [sep_byte] \<le> utf8_encode (hex_fixed 8 n) @ sep_byte # utf8_encode p \<longleftrightarrow> lo \<le> n"
    using hex_bytes_less [OF assms(1) b(1) assms(5) b(3)] by (subst append_le) (auto simp: len le_less Nil_less_iff)
  moreover have "utf8_encode (hex_fixed 8 n) @ sep_byte # utf8_encode p
      \<le> utf8_encode (hex_fixed 8 hi) @ sep_byte # utf8_encode HI_SENTINEL \<longleftrightarrow> n < hi \<or> n = hi \<and> below_sentinel p"
    using hex_bytes_less [OF assms(5) b(3) assms(3) b(2)] by (subst append_le) (auto simp: len below_sentinel_def)
  ultimately show ?thesis unfolding suffix_between_def l h by simp
qed

definition in_range :: "int \<Rightarrow> int \<Rightarrow> jstr \<times> jstr \<Rightarrow> bool" where
  "in_range lo hi e \<longleftrightarrow> (\<exists>n. lo \<le> n \<and> n \<le> hi \<and> fst e = hex_fixed 8 n)"

lemma range_matches:
  assumes i: "sec_index_ok i" and c: "sec_clean i m" and p: "padded_view (sec_view i m)"
    and lo: "0 \<le> lo" "lo < 2 ^ 32" and hi: "0 \<le> hi" "hi < 2 ^ 32"
  shows "{k \<in> dom m. prefix (index_prefix (si_table i) (si_column i)) k
      \<and> suffix_between (utf8_encode (hex_fixed 8 lo @ SECONDARY_SEP)) (utf8_encode (hex_fixed 8 hi @ SECONDARY_SEP @ HI_SENTINEL))
          (drop (length (index_prefix (si_table i) (si_column i))) k)}
    = (\<lambda>(v, q). sec_key i v q) ` {e \<in> dom (sec_view i m). in_range lo hi e}" (is "?K = _")
proof -
  have ids: "is_identifier (si_table i)" "is_identifier (si_column i)" using i by (simp_all add: sec_index_ok_def)
  have key: "sec_key i v q = index_prefix (si_table i) (si_column i) @ utf8_encode v @ sep_byte # utf8_encode q" for v q
    by (simp add: sec_key_def entryKey_bytes [OF ids])
  have dom: "sec_key i v q \<in> dom m \<longleftrightarrow> (v, q) \<in> dom (sec_view i m)" if "sec_value v" "well_formed q" for v q
    using that by (auto simp: dom_def sec_view_eq)
  have wf: "(v, q) \<in> dom (sec_view i m) \<Longrightarrow> sec_value v \<and> well_formed q" for v q
    by (auto simp: sec_view_def dom_def split: if_splits)
  have mem: "sec_key i v q \<in> ?K \<longleftrightarrow> in_range lo hi (v, q)" if e: "(v, q) \<in> dom (sec_view i m)" for v q
  proof -
    obtain n where n: "0 \<le> n" "n < 2 ^ 32" "v = hex_fixed 8 n" and q: "below_sentinel q"
      using p e unfolding padded_view_def by fastforce
    have "hex_fixed 8 n = hex_fixed 8 n' \<Longrightarrow> lo \<le> n' \<Longrightarrow> n' \<le> hi \<Longrightarrow> n = n'" for n'
      using hex_fixed_less [of n 8 n'] n lo hi by simp
    then have "in_range lo hi (v, q) \<longleftrightarrow> lo \<le> n \<and> n \<le> hi" using n(3) by (auto simp: in_range_def)
    moreover have "sec_key i v q \<in> ?K \<longleftrightarrow> lo \<le> n \<and> n \<le> hi"
      using dom wf [OF e] e numeric_bounds [OF lo hi n(1,2), of q] q n(3) by (auto simp: key)
    ultimately show ?thesis by simp
  qed
  show ?thesis
  proof (intro equalityI subsetI)
    fix k assume k: "k \<in> ?K"
    then obtain v q where e: "sec_value v" "well_formed q" "k = sec_key i v q" using c unfolding sec_clean_def by blast
    then have "(v, q) \<in> dom (sec_view i m)" using dom k by simp
    then show "k \<in> (\<lambda>(v, q). sec_key i v q) ` {e \<in> dom (sec_view i m). in_range lo hi e}"
      using mem k e(3) by blast
  qed (use mem in auto)
qed

lemma hex_digit_nonzero: "0 \<notin> set (hex_fixed n v)"
proof (induction n arbitrary: v)
  case (Suc n)
  have "0 \<le> v mod 16" "v mod 16 < 16" by simp_all
  then have "uint (hex_digit (v mod 16)) \<noteq> 0" by (subst uint_hex_digit) auto
  then have "hex_digit (v mod 16) \<noteq> 0" by auto
  then show ?case using Suc by simp
qed simp

context index_engine
begin

lemma numeric_range_exact:
  assumes "ready w" "b_scan_range b = Some g" "sec_index_ok i" "sec_clean i (idx w)"
    and p: "padded_view (sec_view i (idx w))" and lo: "u32_number lo" and hi: "u32_number hi" "num_int lo \<le> num_int hi"
    and n: "1 \<le> n" "n \<le> 4096"
    and pre: "key_bytes (secondaryPrefix (si_table i) (si_column i))"
    and cap: "card {e \<in> dom (sec_view i (idx w)). in_range (num_int lo) (num_int hi) e} \<le> nat n"
  shows "\<exists>out. si_lookupNumericRange b i lo hi n w = (Inr out, w)
    \<and> set out = {off. \<exists>e. sec_view i (idx w) e = Some off \<and> in_range (num_int lo) (num_int hi) e}
    \<and> length out = card {e \<in> dom (sec_view i (idx w)). in_range (num_int lo) (num_int hi) e}"
proof -
  let ?l = "hex_fixed 8 (num_int lo) @ SECONDARY_SEP" and ?h = "hex_fixed 8 (num_int hi) @ SECONDARY_SEP @ HI_SENTINEL"
  let ?E = "{e \<in> dom (sec_view i (idx w)). in_range (num_int lo) (num_int hi) e}"
  have lb: "0 \<le> num_int lo" "num_int lo < 2 ^ 32" and hb: "0 \<le> num_int hi" "num_int hi < 2 ^ 32"
    using lo hi by (simp_all add: u32_number_def)
  have kb: "key_bytes ?l" "key_bytes ?h"
  proof -
    have nul: "x \<noteq> 0" if "x \<in> set (utf8_encode (hex_fixed 8 v))" for x v
    proof
      assume "x = 0"
      then have "0 \<in> set (hex_fixed 8 v)" using that low_byte_unit [of x "hex_fixed 8 v"] by simp
      then show False using hex_digit_nonzero [of 8 v] by simp
    qed
    have len: "length (utf8_encode (hex_fixed 8 v)) = 8" for v by (simp add: hex_fixed_bytes)
    have sent: "utf8_encode HI_SENTINEL = [0xEF, 0xBF, 0xBF]" by code_simp
    have l: "utf8_encode ?l = utf8_encode (hex_fixed 8 (num_int lo)) @ [sep_byte]"
      using utf8_append_sep [of "hex_fixed 8 (num_int lo)" "[]"] by simp
    show "key_bytes ?l" unfolding key_bytes_def l using nul by (auto simp: len sep_byte_def)
    show "key_bytes ?h" unfolding key_bytes_def utf8_append_sep sent using nul by (auto simp: len sep_byte_def)
  qed
  have call: "si_lookupNumericRange b i lo hi n = g (secondaryPrefix (si_table i) (si_column i)) ?l ?h n"
    using assms(2) lo hi integer_num_lt [of hi lo]
    by (simp add: si_lookupNumericRange_def padU32Hex_eq u32_number_def)
  let ?P = "\<lambda>k. prefix (index_prefix (si_table i) (si_column i)) k
      \<and> suffix_between (utf8_encode ?l) (utf8_encode ?h) (drop (length (index_prefix (si_table i) (si_column i))) k)"
  obtain out where o: "g (secondaryPrefix (si_table i) (si_column i)) ?l ?h n w = (Inr out, w)"
    "scan_answer n ?P (idx w) out"
    using range_law [OF assms(1,2) pre disjI2 [OF kb(1)] disjI2 [OF kb(2)] n] by (auto simp: index_prefix_def)
  note m = range_matches [OF assms(3,4) p lb hb]
  have view: "sec_view i (idx w) (v, q) = idx w (sec_key i v q)" if "(v, q) \<in> dom (sec_view i (idx w))" for v q
    using that by (auto simp: sec_view_def dom_def split: if_splits)
  have inj: "inj_on (\<lambda>(v, q). sec_key i v q) ?E"
  proof (rule inj_onI, clarify)
    fix v q v' q' x x'
    assume "sec_view i (idx w) (v, q) = Some x" "sec_view i (idx w) (v', q') = Some x'" and k: "sec_key i v q = sec_key i v' q'"
    then have "sec_value v" "well_formed q" "sec_value v'" "well_formed q'" by (auto simp: sec_view_def split: if_splits)
    then show "v = v' \<and> q = q'" using k sec_key_eq [OF assms(3)] by blast
  qed
  have card: "card {k \<in> dom (idx w). ?P k} = card ?E" unfolding m by (rule card_image [OF inj])
  have "set out = {off. \<exists>k. idx w k = Some off \<and> ?P k}" "length out = card ?E"
    using complete_scan [OF assms(1) o(2)] card cap by simp_all
  moreover have "{off. \<exists>k. idx w k = Some off \<and> ?P k}
      = {off. \<exists>e. sec_view i (idx w) e = Some off \<and> in_range (num_int lo) (num_int hi) e}"
  proof -
    have "{off. \<exists>k. idx w k = Some off \<and> ?P k} = (\<lambda>k. the (idx w k)) ` {k \<in> dom (idx w). ?P k}" by force
    also have "\<dots> = (\<lambda>(v, q). the (idx w (sec_key i v q))) ` ?E" unfolding m image_image by (simp add: case_prod_unfold)
    also have "\<dots> = (\<lambda>e. the (sec_view i (idx w) e)) ` ?E"
    proof (rule image_cong [OF refl])
      fix e assume "e \<in> ?E"
      then show "(case e of (v, q) \<Rightarrow> the (idx w (sec_key i v q))) = the (sec_view i (idx w) e)"
        using view [of "fst e" "snd e"] by (simp add: case_prod_unfold)
    qed
    also have "\<dots> = {off. \<exists>e. sec_view i (idx w) e = Some off \<and> in_range (num_int lo) (num_int hi) e}" by force
    finally show ?thesis .
  qed
  ultimately show ?thesis using o(1) call by simp
qed

end

section \<open>Properties\<close>


definition ex_index :: "bool \<Rightarrow> native_secondary_index" where
  "ex_index u = \<lparr>si_table = lit ''t'', si_column = lit ''c'', si_unique = u\<rparr>"

definition ex_sec_ops :: "sec_op list" where
  "ex_sec_ops = [AddEntry (Str (lit ''v'')) (Str (lit ''p'')) (Fin 2376), AddEntry (Str (lit ''v'')) (Str (lit ''q'')) (Fin 2384),
     LookupValue (Str (lit ''v''))]"

lemma small_index_empty: "native_index small_world = Map.empty"
  by (simp add: native_index_def small_world_def small_engine_def)

lemma small_index_start:
  "sec_clean (ex_index u) (native_index small_world)" "sec_view (ex_index u) (native_index small_world) = Map.empty"
  by (simp_all add: sec_clean_def sec_view_def small_index_empty fun_eq_iff)


lemma unique_history:
  "sec_history i m ops rs m' \<Longrightarrow> si_unique i \<Longrightarrow> (\<And>v p q. (v, p) \<in> dom m \<Longrightarrow> (v, q) \<in> dom m \<Longrightarrow> p = q) \<Longrightarrow>
   (v, p) \<in> dom m' \<Longrightarrow> (v, q) \<in> dom m' \<Longrightarrow> p = q"
proof (induction arbitrary: v p q rule: sec_history.induct)
  case (call m op r m1 ops rs m2)
  have "x = y" if "(u, x) \<in> dom m1" "(u, y) \<in> dom m1" for u x y
    using call.hyps(1) call.prems(1,2) that
    by (cases op) (auto simp: holders_def dom_def split: sum.splits if_splits)
  then show ?case using call.IH [OF call.prems(1)] call.prems(3,4) by blast
qed



text \<open>Numeric ranges: over entries stored in the padded form, with keys below the sentinel, and under the
  cap, \<open>lookupNumericRange\<close> returns exactly the offsets whose number lies between the bounds, both
  included.\<close>

theorem numeric_range_returns_interval:
  assumes "native_ready rg w" and "sec_index_ok i" and "sec_clean i (native_index w)"
    and "padded_view (sec_view i (native_index w))" and "u32_number lo" and "u32_number hi"
    and "num_int lo \<le> num_int hi" and "1 \<le> n" and "n \<le> 4096"
    and "key_bytes (secondaryPrefix (si_table i) (si_column i))"
    and "card {e \<in> dom (sec_view i (native_index w)). in_range (num_int lo) (num_int hi) e} \<le> nat n"
  shows "\<exists>out. si_lookupNumericRange native_bindings i lo hi n w = (Inr out, w)
    \<and> set out = {off. \<exists>e. sec_view i (native_index w) e = Some off \<and> in_range (num_int lo) (num_int hi) e}
    \<and> length out = card {e \<in> dom (sec_view i (native_index w)). in_range (num_int lo) (num_int hi) e}"
proof -
  have "b_scan_range native_bindings = Some ScanRange" by (simp add: native_bindings_def)
  from native.numeric_range_exact [OF assms(1) this assms(2-11)] show ?thesis .
qed

definition one_entry_world :: "jstr \<Rightarrow> native" where
  "one_entry_world p = eng (\<lambda>e. e\<lparr>e_index := [(sec_key (ex_index False) (hex_fixed 8 7) p, 2376)]\<rparr>) small_world"

theorem numeric_range_returns_interval_witness:
  "\<exists>out. si_lookupNumericRange native_bindings (ex_index False) (Fin 5) (Fin 9) 10 (one_entry_world (lit ''p''))
      = (Inr out, one_entry_world (lit ''p'')) \<and> 2376 \<in> set out"
proof -
  let ?i = "ex_index False" and ?w = "one_entry_world (lit ''p'')" and ?v = "hex_fixed 8 7"
  have ok: "sec_index_ok ?i" by code_simp
  have wf: "sec_value ?v" "well_formed (lit ''p'')" by (rule hex_fixed_sec_value, code_simp)
  have ready: "native_ready small_regions ?w"
    using small_ready by (simp add: one_entry_world_def native_ready_def)
  have idx: "native_index ?w = Map.empty(sec_key ?i ?v (lit ''p'') \<mapsto> 2376)"
    by (simp add: native_index_def one_entry_world_def)
  have clean: "sec_clean ?i (native_index ?w)"
    unfolding idx by (rule sec_clean_upd [OF _ wf]) (simp add: sec_clean_def)
  have view: "sec_view ?i (native_index ?w) = [(?v, lit ''p'') \<mapsto> 2376]"
    unfolding idx sec_view_upd [OF ok wf] by (simp add: sec_view_def fun_eq_iff)
  have "below_sentinel (lit ''p'')" by code_simp
  then have padded: "padded_view (sec_view ?i (native_index ?w))"
    unfolding view padded_view_def by (auto intro: exI [of _ 7])
  have dom: "{e \<in> dom (sec_view ?i (native_index ?w)). in_range (num_int (Fin 5)) (num_int (Fin 9)) e} \<subseteq> {(?v, lit ''p'')}"
    unfolding view by auto
  have card: "card {e \<in> dom (sec_view ?i (native_index ?w)). in_range (num_int (Fin 5)) (num_int (Fin 9)) e} \<le> nat 10"
    using card_mono [OF _ dom] by simp
  have nums: "u32_number (Fin 5)" "u32_number (Fin 9)" "num_int (Fin 5) \<le> num_int (Fin 9)"
    "key_bytes (secondaryPrefix (si_table ?i) (si_column ?i))" by code_simp+
  have "in_range (num_int (Fin 5)) (num_int (Fin 9)) (?v, lit ''p'')"
    unfolding in_range_def num_int_def by (auto intro!: exI [of _ 7])
  then show ?thesis
    using numeric_range_returns_interval [OF ready ok clean padded nums(1-3) _ _ nums(4) card] unfolding view
    by fastforce
qed

text \<open>The padded encodings have a fixed width and keep the order of the numbers, over all 32-bit integers and
  all safe integers.\<close>

theorem padded_numbers_keep_order:
  assumes "u32_number a" and "u32_number b" and "safe_integer c" and "safe_integer d"
  shows "(\<exists>s t. padU32Hex a = Inr s \<and> padU32Hex b = Inr t \<and> length s = 8 \<and> (s < t \<longleftrightarrow> num_lt a b)
      \<and> (s = t \<longleftrightarrow> num_int a = num_int b))
    \<and> (\<exists>s t. padI64Hex16 c = Inr s \<and> padI64Hex16 d = Inr t \<and> length s = 16 \<and> (s < t \<longleftrightarrow> num_lt c d)
      \<and> (s = t \<longleftrightarrow> num_int c = num_int d))"
proof
  have "num_int a < 16 ^ 8" "num_int b < 16 ^ 8" "0 \<le> num_int a" "0 \<le> num_int b"
    using assms(1,2) by (simp_all add: u32_number_def)
  then show "\<exists>s t. padU32Hex a = Inr s \<and> padU32Hex b = Inr t \<and> length s = 8 \<and> (s < t \<longleftrightarrow> num_lt a b)
      \<and> (s = t \<longleftrightarrow> num_int a = num_int b)"
    using hex_fixed_less [of "num_int a" 8 "num_int b"] integer_num_lt [of a b] assms(1,2)
    by (simp add: padU32Hex_eq u32_number_def)
next
  have b: "0 \<le> num_int c + 2 ^ 63" "num_int c + 2 ^ 63 < 16 ^ 16" "0 \<le> num_int d + 2 ^ 63" "num_int d + 2 ^ 63 < 16 ^ 16"
    using assms(3,4) by (simp_all add: safe_integer_def MAX_SAFE_INTEGER_def abs_le_iff)
  show "\<exists>s t. padI64Hex16 c = Inr s \<and> padI64Hex16 d = Inr t \<and> length s = 16 \<and> (s < t \<longleftrightarrow> num_lt c d)
      \<and> (s = t \<longleftrightarrow> num_int c = num_int d)"
    using hex_fixed_less [OF b] integer_num_lt [of c d] assms(3,4)
    by (simp add: padI64Hex16_eq safe_integer_def)
qed

theorem padded_numbers_keep_order_witness:
  "\<exists>s t. padI64Hex16 (Fin (- 5)) = Inr s \<and> padI64Hex16 (Fin 3) = Inr t \<and> s < t"
proof -
  have "u32_number (Fin 1)" "u32_number (Fin 2)" "safe_integer (Fin (- 5))" "safe_integer (Fin 3)" by code_simp+
  from padded_numbers_keep_order [OF this] show ?thesis by auto
qed

text \<open>Values that contain the separator share entries: the key of value \<open>a SEP b\<close> for \<open>p\<close> is the key of value \<open>a\<close>
  for \<open>b SEP p\<close>, so after adding the first a lookup of \<open>a\<close> returns its offset.\<close>

theorem separator_values_collide:
  "entryKey t c (a @ SECONDARY_SEP @ x) p = entryKey t c a (x @ SECONDARY_SEP @ p)
   \<and> fst (si_lookup native_bindings (ex_index False) (Str (lit ''a''))
        (snd (si_add native_bindings (ex_index False) (Str (lit ''a'' @ SECONDARY_SEP @ lit ''x'')) (Str (lit ''p'')) (Fin 2376)
          small_world))) = Inr [2376]"
proof
  show "entryKey t c (a @ SECONDARY_SEP @ x) p = entryKey t c a (x @ SECONDARY_SEP @ p)" by (simp add: entryKey_def)
  show "fst (si_lookup native_bindings (ex_index False) (Str (lit ''a''))
        (snd (si_add native_bindings (ex_index False) (Str (lit ''a'' @ SECONDARY_SEP @ lit ''x'')) (Str (lit ''p'')) (Fin 2376)
          small_world))) = Inr [2376]" by code_simp
qed

text \<open>The sentinel U+FFFF is not above every text: in UTF-8 order the characters beyond the first plane are above
  it, so an entry at the upper bound whose key starts with one is missing from the range.\<close>

theorem sentinel_drops_astral_keys:
  "fst (si_lookupNumericRange native_bindings (ex_index False) (Fin 7) (Fin 7) 10 (one_entry_world (lit ''p''))) = Inr [2376]
   \<and> fst (si_lookupNumericRange native_bindings (ex_index False) (Fin 7) (Fin 7) 10 (one_entry_world [0xD83D, 0xDE00])) = Inr []"
  by code_simp

end
