(* ===== verification/Arena.thy ===== *)
theory Arena
  imports Engine
begin

text \<open>
  The shared bump allocators as the SDK drives them: a 32-bit word read through a \<open>Uint32Array\<close>, seeded
  with a compare-and-exchange and advanced with \<open>Atomics.add\<close>. The lemmas say that an allocation
  hands out fresh bytes and leaves every earlier one alone; the engine's own string allocations have
  the same frame, so the two compose.
\<close>

section \<open>Bump words\<close>

definition u32_view :: "int \<Rightarrow> buffer \<Rightarrow> unit res" where
  \<comment> \<open>\<open>new Uint32Array(buffer, off, 1)\<close>\<close>
  "u32_view off m =
     (if off mod 4 \<noteq> 0 then Inl (RangeError (lit ''start offset of Uint32Array should be a multiple of 4''))
      else if off < 0 \<or> off + 4 > int (length m) then Inl (RangeError (lit ''Invalid typed array length: 1''))
      else Inr ())"

definition atomic_seed :: "int \<Rightarrow> int \<Rightarrow> buffer \<Rightarrow> buffer" where
  \<comment> \<open>\<open>Atomics.compareExchange(word, 0, 0, seed)\<close>\<close>
  "atomic_seed off seed m = (if u32_at (nat off) m = 0 then set_u32 (nat off) seed m else m)"

definition atomic_add :: "int \<Rightarrow> int \<Rightarrow> buffer \<Rightarrow> int \<times> buffer" where
  \<comment> \<open>\<open>Atomics.add(word, 0, n)\<close>: the old value; the word wraps at 32 bits\<close>
  "atomic_add off n m = (u32_at (nat off) m, set_u32 (nat off) (u32_at (nat off) m + n) m)"

definition bump_alloc :: "int \<Rightarrow> int \<Rightarrow> int \<Rightarrow> buffer \<Rightarrow> int \<times> buffer" where
  "bump_alloc off seed n m = atomic_add off n (atomic_seed off seed m)"

lemma u32_at_zeros: "u32_at off (replicate n 0) = 0"
proof -
  have "le_value (replicate k 0) = 0" for k by (induction k) simp_all
  then show ?thesis by (simp add: u32_at_def read_at_def)
qed

lemma u32_view_ok: "u32_view off m = Inr u \<longleftrightarrow> off mod 4 = 0 \<and> 0 \<le> off \<and> off + 4 \<le> int (length m)"
  by (auto simp: u32_view_def)

lemma set_u32_mod: "set_u32 off v m = set_u32 off (v mod 2 ^ 32) m"
proof -
  have "le_bytes 4 v = le_bytes 4 (v mod 2 ^ 32)"
    by (rule le_value_inj) (simp_all add: le_value_le_bytes)
  then show ?thesis by (simp add: set_u32_def)
qed

lemma u32_set_wrap: "off + 4 \<le> length m \<Longrightarrow> u32_at off (set_u32 off v m) = v mod 2 ^ 32"
  by (subst set_u32_mod) (simp add: u32_set_same)

lemma bump_alloc_result:
  assumes "0 \<le> off" "nat off + 4 \<le> length m" "0 < seed" "seed < 2 ^ 32" and a: "bump_alloc off seed n m = (pos, m')"
  shows "pos = bump_at off seed m" "length m' = length m" "u32_at (nat off) m' = (pos + n) mod 2 ^ 32"
    "\<And>a k. a + k \<le> nat off \<or> nat off + 4 \<le> a \<Longrightarrow> read_at a k m' = read_at a k m"
proof -
  let ?s = "atomic_seed off seed m"
  have s: "length ?s = length m" "u32_at (nat off) ?s = bump_at off seed m"
    using assms(1-4) by (auto simp: atomic_seed_def bump_at_def u32_set_same)
  have m': "pos = u32_at (nat off) ?s" "m' = set_u32 (nat off) (pos + n) ?s"
    using a by (auto simp: bump_alloc_def atomic_add_def)
  show "pos = bump_at off seed m" using m' s by simp
  show "length m' = length m" using m'(2) s assms(2) by simp
  show "u32_at (nat off) m' = (pos + n) mod 2 ^ 32" using m'(2) s assms(2) by (simp add: u32_set_wrap)
  show "read_at a k m' = read_at a k m" if "a + k \<le> nat off \<or> nat off + 4 \<le> a" for a k
    using that m'(2) s assms(2) by (simp add: read_set_u32_other atomic_seed_def)
qed

section \<open>The string region\<close>

definition strings_ok :: "regions \<Rightarrow> buffer \<Rightarrow> bool" where
  \<comment> \<open>the bump word is unused or behind the words it manages\<close>
  "strings_ok rg m \<longleftrightarrow> stringDataStart rg \<le> string_bump rg m"

lemma strings_extended_refl [simp]: "strings_extended rg m m"
  by (simp add: strings_extended_def)

lemma read_at_mono:
  assumes "read_at a n m' = read_at a n m" and "a \<le> b" and "b + k \<le> a + n"
  shows "read_at b k m' = read_at b k m"
proof -
  have "read_at b k x = take k (drop (b - a) (read_at a n x))" for x
    using assms(2,3) by (simp add: read_at_def drop_take min_def)
  then show ?thesis using assms(1) by simp
qed

lemma strings_extended_read:
  assumes "strings_extended rg m m'" and "int a + int k \<le> stringStart rg \<or> stringDataStart rg \<le> int a \<and> int a + int k \<le> string_bump rg m"
    and "0 \<le> stringStart rg"
  shows "read_at a k m' = read_at a k m"
  using assms(2)
proof
  assume a: "int a + int k \<le> stringStart rg"
  have "read_at 0 (nat (stringStart rg)) m' = read_at 0 (nat (stringStart rg)) m"
    using assms(1) by (simp add: strings_extended_def read_at_def)
  then show ?thesis by (rule read_at_mono) (use a in simp_all)
next
  assume a: "stringDataStart rg \<le> int a \<and> int a + int k \<le> string_bump rg m"
  have "read_at (nat (stringDataStart rg)) (nat (string_bump rg m - stringDataStart rg)) m'
      = read_at (nat (stringDataStart rg)) (nat (string_bump rg m - stringDataStart rg)) m"
    using assms(1) by (simp add: strings_extended_def)
  then show ?thesis
    by (rule read_at_mono; use a assms(3) in \<open>unfold stringDataStart_def, linarith\<close>)
qed

lemma strings_extended_ok: "strings_extended rg m m' \<Longrightarrow> strings_ok rg m \<Longrightarrow> strings_ok rg m'"
  by (simp add: strings_extended_def strings_ok_def)

lemma strings_extended_trans:
  assumes "strings_extended rg m1 m2" "strings_extended rg m2 m3" "strings_ok rg m1"
  shows "strings_extended rg m1 m3"
proof -
  have "read_at (nat (stringDataStart rg)) (nat (string_bump rg m1 - stringDataStart rg)) m3
      = read_at (nat (stringDataStart rg)) (nat (string_bump rg m1 - stringDataStart rg)) m2"
    by (rule read_at_mono [of "nat (stringDataStart rg)" "nat (string_bump rg m2 - stringDataStart rg)"])
      (use assms in \<open>auto simp: strings_extended_def strings_ok_def\<close>)
  then show ?thesis using assms by (simp add: strings_extended_def)
qed

text \<open>Allocating and filling bytes of the string region.\<close>

lemma string_alloc_frame:
  assumes v: "validateRegions rg (arenaBytes rg) = Inr ()" "regions_u32 rg" and len: "int (length m) = arenaBytes rg"
    and ok: "strings_ok rg m" and a: "bump_alloc (stringStart rg) (stringDataStart rg) (int (length bs)) m = (pos, m1)"
    and fit: "pos + int (length bs) \<le> int (length m)"
  shows "strings_extended rg m (write_at (nat pos) bs m1)" "strings_ok rg (write_at (nat pos) bs m1)"
    "string_bump rg (write_at (nat pos) bs m1) = pos + int (length bs)" "stringDataStart rg \<le> pos"
    "length (write_at (nat pos) bs m1) = length m" "pos = string_bump rg m"
proof -
  note vv = validated [OF v]
  let ?s = "nat (stringStart rg)"
  have s4: "?s + 4 \<le> length m" using vv len by linarith
  note r = bump_alloc_result [OF _ s4 _ _ a]
  have pre: "0 \<le> stringStart rg" "0 < stringDataStart rg" "stringDataStart rg < 2 ^ 32" using vv by simp_all
  note r = r [OF pre]
  have pos: "pos = string_bump rg m" "stringDataStart rg \<le> pos" using r(1) ok by (simp_all add: strings_ok_def)
  have small: "pos + int (length bs) < 2 ^ 32" using fit len vv by linarith
  have fit': "nat pos + length bs \<le> length m1" using fit pos(2) pre r(2) by linarith
  have below: "?s + 8 \<le> nat pos" using pos(2) vv by linarith
  have word: "u32_at ?s (write_at (nat pos) bs m1) = pos + int (length bs)"
  proof -
    have "u32_at ?s (write_at (nat pos) bs m1) = u32_at ?s m1" using below fit' by (simp add: u32_at_def read_write_below)
    also have "\<dots> = pos + int (length bs)" using r(3) small pos(2) pre by simp
    finally show ?thesis .
  qed
  show b: "string_bump rg (write_at (nat pos) bs m1) = pos + int (length bs)"
    using word pos(2) pre unfolding bump_at_def Let_def by simp
  have "take ?s (write_at (nat pos) bs m1) = take ?s m"
    using below fit' r(4) [of 0 ?s] by (simp add: take_write_at read_at_def)
  moreover have "read_at (nat (stringDataStart rg)) (nat (string_bump rg m - stringDataStart rg)) (write_at (nat pos) bs m1)
      = read_at (nat (stringDataStart rg)) (nat (string_bump rg m - stringDataStart rg)) m"
  proof -
    have "nat (stringDataStart rg) + nat (string_bump rg m - stringDataStart rg) \<le> nat pos"
      using pos pre by (simp flip: pos(1))
    moreover have "?s + 4 \<le> nat (stringDataStart rg)" using vv by simp
    ultimately show ?thesis using fit' r(4) by (simp add: read_write_below)
  qed
  ultimately show e: "strings_extended rg m (write_at (nat pos) bs m1)"
    using b pos fit' r(2) by (simp add: strings_extended_def)
  show "strings_ok rg (write_at (nat pos) bs m1)" by (rule strings_extended_ok [OF e ok])
  show "stringDataStart rg \<le> pos" "pos = string_bump rg m" using pos by simp_all
  show "length (write_at (nat pos) bs m1) = length m" using fit' r(2) by simp
qed

lemma bump_alloc_extended:
  assumes v: "validateRegions rg (arenaBytes rg) = Inr ()" "regions_u32 rg" and len: "int (length m) = arenaBytes rg"
    and ok: "strings_ok rg m" and a: "bump_alloc (stringStart rg) (stringDataStart rg) n m = (pos, m1)"
    and n: "0 \<le> n" "string_bump rg m + n < 2 ^ 32"
  shows "strings_extended rg m m1" "string_bump rg m1 = pos + n" "pos = string_bump rg m"
proof -
  note vv = validated [OF v]
  let ?s = "nat (stringStart rg)"
  have s4: "?s + 4 \<le> length m" using vv len by linarith
  have pre: "0 \<le> stringStart rg" "0 < stringDataStart rg" "stringDataStart rg < 2 ^ 32" using vv by simp_all
  note r = bump_alloc_result [OF pre(1) s4 pre(2,3) a]
  show pos: "pos = string_bump rg m" using r(1) .
  have p: "stringDataStart rg \<le> pos" using ok r(1) by (simp add: strings_ok_def)
  have "u32_at ?s m1 = pos + n" using r(3) n pos p pre by simp
  then show b: "string_bump rg m1 = pos + n" using p pre n unfolding bump_at_def Let_def by simp
  have "take ?s m1 = take ?s m" using r(4) [of 0 ?s] by (simp add: read_at_def)
  moreover have "read_at (nat (stringDataStart rg)) k m1 = read_at (nat (stringDataStart rg)) k m" for k
    by (rule r(4), rule disjI2) (use vv in simp)
  ultimately show "strings_extended rg m m1" using b pos n r(2) by (simp add: strings_extended_def)
qed

end
