(* ===== verification/CatalogRecord.thy ===== *)
theory CatalogRecord
  imports Arena Mirror
begin

text \<open>
  Table descriptors in the engine (\<open>client/relational/catalog_record.ts\<close>): the fixed-width record
  codec and the store that keeps records in the string region under \<open>__catalog__:<table>\<close> keys. The
  codec round-trips every descriptor whose names fit, and the store behaves as a map from table
  names to descriptors.
\<close>

section \<open>The record codec\<close>

definition CATALOG_REC_MAGIC :: int where "CATALOG_REC_MAGIC = 0x54434154"
definition CATALOG_REC_VERSION :: int where "CATALOG_REC_VERSION = 1"
definition CATALOG_PREFIX :: jstr where "CATALOG_PREFIX = lit ''__catalog__:''"
definition CATALOG_HEADER_LEN :: nat where "CATALOG_HEADER_LEN = 8"
definition TABLE_FIELD_LEN :: nat where "TABLE_FIELD_LEN = 65"
definition COLUMN_REC_LEN :: nat where "COLUMN_REC_LEN = 67"

lemmas catalog_consts = CATALOG_REC_MAGIC_def CATALOG_REC_VERSION_def CATALOG_HEADER_LEN_def TABLE_FIELD_LEN_def
  COLUMN_REC_LEN_def

fun TYPE_TO_BYTE :: "relational_type \<Rightarrow> int" where
  \<comment> \<open>a missing entry is \<open>undefined\<close>, stored as 0\<close>
  "TYPE_TO_BYTE TBool = 0"
| "TYPE_TO_BYTE TInt8 = 1"
| "TYPE_TO_BYTE TInt16 = 2"
| "TYPE_TO_BYTE TInt32 = 3"
| "TYPE_TO_BYTE TInt64 = 4"
| "TYPE_TO_BYTE TUint8 = 5"
| "TYPE_TO_BYTE TUint16 = 6"
| "TYPE_TO_BYTE TUint32 = 7"
| "TYPE_TO_BYTE TFloat32 = 8"
| "TYPE_TO_BYTE TFloat64 = 9"
| "TYPE_TO_BYTE TString = 10"
| "TYPE_TO_BYTE TBytes = 11"
| "TYPE_TO_BYTE TTimestampMs = 12"
| "TYPE_TO_BYTE (UnknownType _) = 0"

definition BYTE_TO_TYPE :: "relational_type list" where
  "BYTE_TO_TYPE = [TBool, TInt8, TInt16, TInt32, TInt64, TUint8, TUint16, TUint32, TFloat32, TFloat64, TString, TBytes,
     TTimestampMs]"

definition name_error :: js_error where
  "name_error = Error (lit ''table name must be 1..64 chars'')"

definition catalogRecordKey :: "jstr \<Rightarrow> jstr res" where
  "catalogRecordKey table =
     (if table = [] \<or> length table > 64 then Inl name_error else Inr (CATALOG_PREFIX @ table))"

definition catalogEncodedLen :: "nat \<Rightarrow> nat" where
  "catalogEncodedLen colCount = CATALOG_HEADER_LEN + TABLE_FIELD_LEN + colCount * COLUMN_REC_LEN"

definition flagsOf :: "column_def \<Rightarrow> int" where
  "flagsOf c = (let f = 0;
                    f = (if flag (nullable c) then or f 0x01 else f);
                    f = (if flag (primaryKey c) then or f 0x02 else f);
                    f = (if flag (unique c) then or f 0x04 else f)
                in f)"

definition typed_set :: "nat \<Rightarrow> buffer \<Rightarrow> buffer \<Rightarrow> buffer res" where
  \<comment> \<open>\<open>out.set(bytes, off)\<close>\<close>
  "typed_set off bs m = (if off + length bs > length m then Inl (RangeError (lit ''offset is out of bounds''))
     else Inr (write_at off bs m))"

definition byte_set :: "nat \<Rightarrow> int \<Rightarrow> buffer \<Rightarrow> buffer" where
  \<comment> \<open>\<open>out[i] = v\<close>\<close>
  "byte_set i v m = m[i := word_of_int v]"

fun encode_columns :: "column_def list \<Rightarrow> nat \<Rightarrow> buffer \<Rightarrow> buffer res" where
  "encode_columns [] off out = Inr out"
| "encode_columns (c # cs) off out =
     (let nbytes = utf8_encode (col_name c) in
      if length nbytes = 0 \<or> length nbytes > 64 then Inl (Error (lit ''invalid column name '' @ quoted (col_name c)))
      else res_bind (typed_set (off + 1) nbytes (byte_set off (int (length nbytes)) out)) (\<lambda>out.
           encode_columns cs (off + COLUMN_REC_LEN)
             (byte_set (off + 66) (flagsOf c) (byte_set (off + 65) (TYPE_TO_BYTE (col_type c)) out))))"

definition encodeCatalogRecord :: "jstr \<Rightarrow> column_def list \<Rightarrow> buffer res" where
  "encodeCatalogRecord table cols =
     (if table = [] \<or> length table > 64 then Inl name_error
      else if length cols = 0 \<or> length cols > 32 then Inl (Error (lit ''column count must be 1..32''))
      else let out = replicate (catalogEncodedLen (length cols)) 0;
               out = write_at 0 (le_bytes 4 CATALOG_REC_MAGIC) out;
               out = write_at 4 (le_bytes 2 CATALOG_REC_VERSION) out;
               out = write_at 6 (le_bytes 2 (int (length cols))) out;
               tbytes = utf8_encode table
           in res_bind (typed_set 9 tbytes (byte_set 8 (int (length tbytes)) out))
                (encode_columns cols (CATALOG_HEADER_LEN + TABLE_FIELD_LEN)))"

record decoded_catalog_column =
  dc_name :: jstr
  dc_type :: relational_type
  dc_nullable :: bool
  dc_primaryKey :: bool
  dc_unique :: bool

record decoded_catalog =
  dc_table :: jstr
  dc_columns :: "decoded_catalog_column list"

definition byte_get :: "buffer \<Rightarrow> nat \<Rightarrow> int" where
  "byte_get m i = uint (m ! i)"

fun decode_columns :: "buffer \<Rightarrow> nat \<Rightarrow> nat \<Rightarrow> decoded_catalog_column list res" where
  "decode_columns buf 0 off = Inr []"
| "decode_columns buf (Suc n) off =
     (let nlen = nat (byte_get buf off) in
      if nlen = 0 \<or> nlen > 64 then Inl (Error (lit ''bad catalog column name''))
      else if list_ex (\<lambda>j. byte_get buf j \<noteq> 0) [off + 1 + nlen..<off + 65] then Inl (Error (lit ''catalog padding corrupt''))
      else let tbyte = nat (byte_get buf (off + 65)) in
           if tbyte \<ge> length BYTE_TO_TYPE then Inl (Error (lit ''bad catalog column type''))
           else let flags = byte_get buf (off + 66) in
                if and flags 0xf8 \<noteq> 0 then Inl (Error (lit ''bad catalog flags''))
                else res_bind (decode_columns buf n (off + COLUMN_REC_LEN)) (\<lambda>rest.
                  Inr (\<lparr>dc_name = utf8_decode (read_at (off + 1) nlen buf), dc_type = BYTE_TO_TYPE ! tbyte,
                        dc_nullable = (and flags 0x01 \<noteq> 0), dc_primaryKey = (and flags 0x02 \<noteq> 0),
                        dc_unique = (and flags 0x04 \<noteq> 0)\<rparr> # rest)))"

definition decodeCatalogRecord :: "buffer \<Rightarrow> decoded_catalog res" where
  "decodeCatalogRecord buf =
     (if length buf < CATALOG_HEADER_LEN + TABLE_FIELD_LEN then Inl (Error (lit ''catalog payload too short''))
      else if le_value (read_at 0 4 buf) \<noteq> CATALOG_REC_MAGIC then Inl (Error (lit ''bad catalog magic''))
      else if le_value (read_at 4 2 buf) \<noteq> CATALOG_REC_VERSION then Inl (Error (lit ''bad catalog version''))
      else let count = nat (le_value (read_at 6 2 buf)) in
        if count = 0 \<or> count > 32 then Inl (Error (lit ''bad catalog column count''))
        else if length buf < catalogEncodedLen count then Inl (Error (lit ''catalog payload truncated''))
        else let tlen = nat (byte_get buf 8) in
          if tlen = 0 \<or> tlen > 64 then Inl (Error (lit ''bad catalog table name''))
          else let table = utf8_decode (read_at 9 tlen buf) in
            res_bind (decode_columns buf count (CATALOG_HEADER_LEN + TABLE_FIELD_LEN)) (\<lambda>cols.
              Inr \<lparr>dc_table = table, dc_columns = cols\<rparr>))"

section \<open>The store\<close>

record catalog_record_store =
  cs_bumpOffset :: int
  cs_dataStart :: int

definition new_CatalogRecordStore :: "buffer \<Rightarrow> int option \<Rightarrow> int option \<Rightarrow> catalog_record_store res" where
  "new_CatalogRecordStore memory bumpOffset dataStart =
     res_bind (case (bumpOffset, dataStart) of
         (Some bo, Some ds) \<Rightarrow> Inr (bo, ds)
       | _ \<Rightarrow> res_bind (readRegions memory) (\<lambda>regions.
           Inr (case bumpOffset of Some bo \<Rightarrow> bo | None \<Rightarrow> stringStart regions,
                case dataStart of Some ds \<Rightarrow> ds | None \<Rightarrow> stringDataStart regions))) (\<lambda>(bo, ds).
     if bo + 4 > int (length memory) \<or> ds > int (length memory)
     then Inl (Error (lit ''catalog arena geometry exceeds shared memory''))
     else Inr \<lparr>cs_bumpOffset = bo, cs_dataStart = ds\<rparr>)"

definition set_mem :: "buffer \<Rightarrow> ('e world, unit) action" where
  "set_mem m w = (Inr (), w\<lparr>w_mem := m\<rparr>)"

definition cs_save :: "'e bindings \<Rightarrow> catalog_record_store \<Rightarrow> jstr \<Rightarrow> column_def list \<Rightarrow> ('e world, int) action" where
  "cs_save b st table cols =
     act_bind (act_res (encodeCatalogRecord table cols)) (\<lambda>payload.
     act_bind (\<lambda>w. (u32_view (cs_bumpOffset st) (w_mem w), w)) (\<lambda>_ w.
       case bump_alloc (cs_bumpOffset st) (cs_dataStart st) (int (length payload)) (w_mem w) of (pos, m1) \<Rightarrow>
       if pos + int (length payload) > int (length m1)
       then (Inl (Error (lit ''out of string arena memory for catalog record'')), w\<lparr>w_mem := m1\<rparr>)
       else act_bind (set_mem (write_at (nat pos) payload m1)) (\<lambda>_.
            act_bind (b_notifyArena b pos (int (length payload))) (\<lambda>rc.
              if rc \<noteq> 0 then act_throw (Error (lit ''notifyArena failed for catalog record: ring full or arena not mapped''))
              else act_bind (act_res (catalogRecordKey table)) (\<lambda>key.
                   act_bind (b_insert_index b key pos) (\<lambda>rc.
                     if rc = - 2 then act_throw (BackpressureError (lit ''catalog record '' @ quoted table
                       @ lit '': the log ring stayed full, so this record is in shared memory but not in the log.'') (- 2))
                     else if rc \<noteq> 0 then act_throw (Error (lit ''insert_index failed for catalog record '' @ quoted table))
                     else act_return pos)))) w))"

definition cs_load :: "'e bindings \<Rightarrow> jstr \<Rightarrow> ('e world, decoded_catalog option) action" where
  "cs_load b table =
     act_bind (act_res (catalogRecordKey table)) (\<lambda>key.
     act_bind (b_search_index b key) (\<lambda>off w.
       if off < 0 then (Inr None, w)
       else let m = w_mem w; len = int (length m); o' = nat off in
         (if off + int CATALOG_HEADER_LEN > len
          then Inl (Error (lit ''catalog record '' @ quoted table @ lit '' offset out of range''))
          else if le_value (read_at o' 4 m) \<noteq> CATALOG_REC_MAGIC
          then Inl (Error (lit ''bad catalog magic for '' @ quoted table))
          else if le_value (read_at (o' + 4) 2 m) \<noteq> CATALOG_REC_VERSION
          then Inl (Error (lit ''bad catalog version for '' @ quoted table))
          else let count = nat (le_value (read_at (o' + 6) 2 m)); total = catalogEncodedLen count in
            if off + int total > len then Inl (Error (lit ''catalog record '' @ quoted table @ lit '' truncated''))
            else res_bind (decodeCatalogRecord (read_at o' total m)) (\<lambda>dec.
              if dc_table dec \<noteq> table then Inl (Error (lit ''catalog key/content mismatch for '' @ quoted table))
              else Inr (Some dec)), w)))"

section \<open>Round trip\<close>

definition catalog_name :: "jstr \<Rightarrow> bool" where
  \<comment> \<open>a name that fits the fixed field and survives the text codec\<close>
  "catalog_name s \<longleftrightarrow> s \<noteq> [] \<and> well_formed s \<and> hd s \<noteq> 0xFEFF \<and> length (utf8_encode s) \<le> 64"

fun catalog_column :: "column_def \<Rightarrow> bool" where
  "catalog_column c = (catalog_name (col_name c) \<and> known_type (col_type c))"

definition decoded_column :: "column_def \<Rightarrow> decoded_catalog_column" where
  "decoded_column c = \<lparr>dc_name = col_name c, dc_type = col_type c, dc_nullable = flag (nullable c),
     dc_primaryKey = flag (primaryKey c), dc_unique = flag (unique c)\<rparr>"

definition decoded_table :: "jstr \<Rightarrow> column_def list \<Rightarrow> decoded_catalog" where
  "decoded_table t cols = \<lparr>dc_table = t, dc_columns = map decoded_column cols\<rparr>"

definition name_field :: "jstr \<Rightarrow> buffer" where
  "name_field s = word_of_int (int (length (utf8_encode s))) # utf8_encode s @ replicate (64 - length (utf8_encode s)) 0"

definition column_record :: "column_def \<Rightarrow> buffer" where
  "column_record c = name_field (col_name c) @ [word_of_int (TYPE_TO_BYTE (col_type c)), word_of_int (flagsOf c)]"

definition catalog_bytes :: "jstr \<Rightarrow> column_def list \<Rightarrow> buffer" where
  "catalog_bytes t cols = le_bytes 4 CATALOG_REC_MAGIC @ le_bytes 2 CATALOG_REC_VERSION @ le_bytes 2 (int (length cols))
     @ name_field t @ concat (map column_record cols)"

lemma length_name_field: "length (utf8_encode s) \<le> 64 \<Longrightarrow> length (name_field s) = 65"
  by (simp add: name_field_def)

lemma length_column_record: "length (utf8_encode (col_name c)) \<le> 64 \<Longrightarrow> length (column_record c) = 67"
  by (simp add: column_record_def length_name_field)

lemma write_at_split:
  "length bs = length z \<Longrightarrow> off = length a \<Longrightarrow> write_at off bs (a @ z @ r) = a @ bs @ r"
  by (simp add: write_at_def)

lemma byte_set_split: "off = length a \<Longrightarrow> byte_set off v (a @ z # r) = a @ word_of_int v # r"
  by (simp add: byte_set_def list_update_append)

lemma zeros_split: "n \<le> k \<Longrightarrow> replicate k (0::byte8) = replicate n 0 @ replicate (k - n) 0"
  by (simp flip: replicate_add)

lemma encode_one:
  assumes "length n \<le> 64" and "off = length a"
  shows "typed_set (off + 1) n (byte_set off (int (length n)) (a @ replicate 67 0 @ r))
    = Inr (a @ word_of_int (int (length n)) # n @ replicate (64 - length n) 0 @ replicate 2 0 @ r)"
proof -
  have z: "replicate 67 (0::byte8) = 0 # replicate (length n) 0 @ replicate (64 - length n) 0 @ replicate 2 0"
  proof -
    have "replicate 67 (0::byte8) = replicate (Suc (length n + (64 - length n) + 2)) 0" using assms(1) by simp
    then show ?thesis by (simp only: replicate_Suc replicate_add append_assoc)
  qed
  have "byte_set off (int (length n)) (a @ replicate 67 0 @ r)
      = (a @ [word_of_int (int (length n))]) @ replicate (length n) 0 @ replicate (64 - length n) 0 @ replicate 2 0 @ r"
    using byte_set_split [OF assms(2)] unfolding z by simp
  moreover have "write_at (off + 1) n ((a @ [word_of_int (int (length n))]) @ replicate (length n) 0
      @ (replicate (64 - length n) 0 @ replicate 2 0 @ r))
      = (a @ [word_of_int (int (length n))]) @ n @ (replicate (64 - length n) 0 @ replicate 2 0 @ r)"
    by (rule write_at_split) (simp_all add: assms(2))
  ultimately show ?thesis using assms(2) by (simp add: typed_set_def)
qed

lemma encode_columns_ok:
  "list_all (\<lambda>c. col_name c \<noteq> [] \<and> length (utf8_encode (col_name c)) \<le> 64) cs \<Longrightarrow>
   encode_columns cs (length a) (a @ replicate (67 * length cs) 0) = Inr (a @ concat (map column_record cs))"
proof (induction cs arbitrary: a)
  case (Cons c cs)
  let ?n = "utf8_encode (col_name c)" and ?k = "replicate (67 * length cs) (0::byte8)"
  have n: "?n \<noteq> []" "length ?n \<le> 64" using Cons.prems by simp_all
  have out: "a @ replicate (67 * length (c # cs)) 0 = a @ replicate 67 0 @ ?k" by (simp add: replicate_add)
  let ?b = "a @ word_of_int (int (length ?n)) # ?n @ replicate (64 - length ?n) 0"
  have lb: "length ?b = length a + 65" using n(2) by simp
  have t: "byte_set (length a + 65) v (?b @ [x, y] @ r) = ?b @ [word_of_int v, y] @ r" for v x y r
    using byte_set_split [of "length a + 65" ?b v x "y # r"] lb by simp
  have f: "byte_set (length a + 66) v (?b @ [x, y] @ r) = ?b @ [x, word_of_int v] @ r" for v x y r
    using byte_set_split [of "length a + 66" "?b @ [x]" v y r] lb by simp
  have rec: "a @ column_record c = ?b @ [word_of_int (TYPE_TO_BYTE (col_type c)), word_of_int (flagsOf c)]"
    by (simp add: column_record_def name_field_def)
  have "encode_columns (c # cs) (length a) (a @ replicate (67 * length (c # cs)) 0)
      = encode_columns cs (length a + 67) (byte_set (length a + 66) (flagsOf c)
          (byte_set (length a + 65) (TYPE_TO_BYTE (col_type c)) (?b @ [0, 0] @ ?k)))"
    unfolding out encode_columns.simps using n encode_one [OF n(2) refl, of a ?k]
    by (simp add: catalog_consts numeral_2_eq_2 Let_def)
  also have "\<dots> = encode_columns cs (length (a @ column_record c)) ((a @ column_record c) @ ?k)"
    unfolding t f rec using lb by simp
  also have "\<dots> = Inr ((a @ column_record c) @ concat (map column_record cs))"
    by (rule Cons.IH) (use Cons.prems in simp)
  finally show ?case by simp
qed simp

lemma encode_catalog_bytes:
  assumes "t \<noteq> []" "length t \<le> 64" "length (utf8_encode t) \<le> 64" "cols \<noteq> []" "length cols \<le> 32"
    and "list_all (\<lambda>c. col_name c \<noteq> [] \<and> length (utf8_encode (col_name c)) \<le> 64) cols"
  shows "encodeCatalogRecord t cols = Inr (catalog_bytes t cols)"
proof -
  let ?k = "replicate (67 * length cols) (0::byte8)" and ?n = "utf8_encode t"
  let ?h = "le_bytes 4 CATALOG_REC_MAGIC @ le_bytes 2 CATALOG_REC_VERSION @ le_bytes 2 (int (length cols))"
  have "replicate (catalogEncodedLen (length cols)) (0::byte8)
      = replicate 4 0 @ replicate 2 0 @ replicate 2 0 @ replicate 65 0 @ ?k"
    by (simp add: catalogEncodedLen_def catalog_consts flip: replicate_add)
  moreover have "write_at 0 (le_bytes 4 v) (replicate 4 0 @ r) = le_bytes 4 v @ r" for v r
    using write_at_split [of "le_bytes 4 v" "replicate 4 0" 0 "[]" r] by simp
  moreover have "write_at 4 (le_bytes 2 v) (le_bytes 4 u @ replicate 2 0 @ r) = le_bytes 4 u @ le_bytes 2 v @ r" for u v r
    by (rule write_at_split) simp_all
  moreover have "write_at 6 (le_bytes 2 x) (le_bytes 4 u @ le_bytes 2 v @ replicate 2 0 @ r)
      = le_bytes 4 u @ le_bytes 2 v @ le_bytes 2 x @ r" for u v x r
    using write_at_split [of "le_bytes 2 x" "replicate 2 0" 6 "le_bytes 4 u @ le_bytes 2 v" r] by simp
  moreover have "typed_set 9 ?n (byte_set 8 (int (length ?n)) (?h @ replicate 65 0 @ ?k)) = Inr (?h @ name_field t @ ?k)"
  proof -
    have z: "replicate 65 (0::byte8) = 0 # replicate (length ?n) 0 @ replicate (64 - length ?n) 0"
    proof -
      have "replicate 65 (0::byte8) = replicate (Suc (length ?n + (64 - length ?n))) 0" using assms(3) by simp
      then show ?thesis by (simp only: replicate_Suc replicate_add)
    qed
    have "byte_set 8 (int (length ?n)) (?h @ replicate 65 0 @ ?k)
        = (?h @ [word_of_int (int (length ?n))]) @ replicate (length ?n) 0 @ replicate (64 - length ?n) 0 @ ?k"
      using byte_set_split [of 8 ?h "int (length ?n)" 0] unfolding z by simp
    moreover have "write_at 9 ?n ((?h @ [word_of_int (int (length ?n))]) @ replicate (length ?n) 0 @ (replicate (64 - length ?n) 0 @ ?k))
        = (?h @ [word_of_int (int (length ?n))]) @ ?n @ (replicate (64 - length ?n) 0 @ ?k)"
      by (rule write_at_split) simp_all
    ultimately show ?thesis using assms(3) by (simp add: typed_set_def name_field_def)
  qed
  moreover have "encode_columns cols 73 ((?h @ name_field t) @ ?k) = Inr ((?h @ name_field t) @ concat (map column_record cols))"
    using encode_columns_ok [OF assms(6), of "?h @ name_field t"] length_name_field [OF assms(3)] by simp
  ultimately show ?thesis using assms(1,2,4,5)
    by (simp add: encodeCatalogRecord_def Let_def catalog_bytes_def catalog_consts)
qed

lemma type_byte: "known_type t \<Longrightarrow> 0 \<le> TYPE_TO_BYTE t \<and> TYPE_TO_BYTE t < 13 \<and> BYTE_TO_TYPE ! nat (TYPE_TO_BYTE t) = t"
  by (cases t) (simp_all add: BYTE_TO_TYPE_def)

lemma flag_bits:
  "0 \<le> flagsOf c \<and> flagsOf c < 8 \<and> and (flagsOf c) 0xf8 = 0 \<and> (and (flagsOf c) 0x01 \<noteq> 0 \<longleftrightarrow> flag (nullable c))
   \<and> (and (flagsOf c) 0x02 \<noteq> 0 \<longleftrightarrow> flag (primaryKey c)) \<and> (and (flagsOf c) 0x04 \<noteq> 0 \<longleftrightarrow> flag (unique c))"
  by (cases "flag (nullable c)"; cases "flag (primaryKey c)"; cases "flag (unique c)") (simp_all add: flagsOf_def)

lemma byte_get_at: "off = length a \<Longrightarrow> byte_get (a @ x # r) off = uint x"
  by (simp add: byte_get_def nth_append)

lemma read_at_split: "off = length a \<Longrightarrow> n = length b \<Longrightarrow> read_at off n (a @ b @ r) = b"
  by (simp add: read_at_def)

lemma catalog_name_decode: "catalog_name s \<Longrightarrow> utf8_decode (utf8_encode s) = s"
  by (cases s) (auto simp: catalog_name_def utf8_decode_encode)

lemma name_field_reads:
  assumes "catalog_name s" and "off = length a"
  shows "nat (byte_get (a @ name_field s @ r) off) = length (utf8_encode s)"
    and "read_at (off + 1) (length (utf8_encode s)) (a @ name_field s @ r) = utf8_encode s"
    and "\<not> list_ex (\<lambda>j. byte_get (a @ name_field s @ r) j \<noteq> 0) [off + 1 + length (utf8_encode s)..<off + 65]"
proof -
  let ?n = "utf8_encode s"
  have n: "length ?n \<le> 64" using assms(1) by (simp add: catalog_name_def)
  have "uint (word_of_int (int (length ?n)) :: byte8) = int (length ?n)" using n by (intro uint_byte_id) simp_all
  then show "nat (byte_get (a @ name_field s @ r) off) = length ?n"
    using byte_get_at [OF assms(2)] by (simp add: name_field_def)
  show "read_at (off + 1) (length ?n) (a @ name_field s @ r) = ?n"
    using read_at_split [of "off + 1" "a @ [word_of_int (int (length ?n))]" "length ?n" ?n] assms(2)
    by (simp add: name_field_def)
  have "byte_get (a @ name_field s @ r) j = 0" if "off + 1 + length ?n \<le> j" "j < off + 65" for j
  proof -
    have e: "a @ name_field s @ r = (a @ word_of_int (int (length ?n)) # ?n) @ replicate (64 - length ?n) 0 @ r"
      by (simp add: name_field_def)
    have "(a @ name_field s @ r) ! j = (replicate (64 - length ?n) 0 @ r) ! (j - (off + 1 + length ?n))"
      unfolding e using that(1) assms(2) by (subst nth_append) simp
    also have "\<dots> = 0"
    proof -
      have "j - (off + 1 + length ?n) < 64 - length ?n" using that n by linarith
      then show ?thesis by (simp add: nth_append)
    qed
    finally show ?thesis by (simp add: byte_get_def)
  qed
  then show "\<not> list_ex (\<lambda>j. byte_get (a @ name_field s @ r) j \<noteq> 0) [off + 1 + length ?n..<off + 65]"
    by (auto simp: list_ex_iff)
qed

lemma decode_columns_ok:
  "list_all catalog_column cs \<Longrightarrow>
   decode_columns (a @ concat (map column_record cs) @ r) (length cs) (length a) = Inr (map decoded_column cs)"
proof (induction cs arbitrary: a)
  case (Cons c cs)
  let ?s = "col_name c" and ?rest = "concat (map column_record cs) @ r"
  let ?t = "word_of_int (TYPE_TO_BYTE (col_type c)) :: byte8" and ?f = "word_of_int (flagsOf c) :: byte8"
  have s: "catalog_name ?s" "known_type (col_type c)" using Cons.prems by simp_all
  have n: "0 < length (utf8_encode ?s)" "length (utf8_encode ?s) \<le> 64" using s(1) by (auto simp: catalog_name_def)
  let ?buf = "a @ name_field ?s @ [?t, ?f] @ ?rest"
  have buf: "a @ concat (map column_record (c # cs)) @ r = ?buf" by (simp add: column_record_def)
  note name = name_field_reads [OF s(1) refl, of a "[?t, ?f] @ ?rest"]
  have l: "length (a @ name_field ?s) = length a + 65" using length_name_field [OF n(2)] by simp
  have t: "byte_get ?buf (length a + 65) = TYPE_TO_BYTE (col_type c)"
  proof -
    have "uint ?t = TYPE_TO_BYTE (col_type c)" using type_byte [OF s(2)] by (intro uint_byte_id) simp_all
    then show ?thesis using byte_get_at [of "length a + 65" "a @ name_field ?s" ?t] l by simp
  qed
  have f: "byte_get ?buf (length a + 66) = flagsOf c"
  proof -
    have "uint ?f = flagsOf c" using flag_bits [of c] by (intro uint_byte_id) simp_all
    then show ?thesis using byte_get_at [of "length a + 66" "(a @ name_field ?s) @ [?t]" ?f] l by simp
  qed
  have len: "length (a @ column_record c) = length a + 67" using length_column_record [OF n(2)] by simp
  have rec: "decode_columns ?buf (length cs) (length a + 67) = Inr (map decoded_column cs)"
  proof -
    have e: "?buf = (a @ column_record c) @ concat (map column_record cs) @ r" by (simp add: column_record_def)
    have "decode_columns ((a @ column_record c) @ concat (map column_record cs) @ r) (length cs) (length (a @ column_record c))
        = Inr (map decoded_column cs)" by (rule Cons.IH) (use Cons.prems in simp)
    then show ?thesis by (subst e) (simp only: len)
  qed
  have "length BYTE_TO_TYPE = 13" by (simp add: BYTE_TO_TYPE_def)
  then have tb: "nat (TYPE_TO_BYTE (col_type c)) < length BYTE_TO_TYPE" using type_byte [OF s(2)] by linarith
  show ?case
    unfolding buf length_Cons decode_columns.simps COLUMN_REC_LEN_def rec name t f Let_def
    using n tb type_byte [OF s(2)] flag_bits [of c] catalog_name_decode [OF s(1)] name(3)
    by (simp add: decoded_column_def)
qed simp

lemma decode_catalog_bytes:
  assumes "catalog_name t" "cols \<noteq> []" "length cols \<le> 32" "list_all catalog_column cols"
  shows "decodeCatalogRecord (catalog_bytes t cols) = Inr (decoded_table t cols)"
proof -
  let ?h = "le_bytes 4 CATALOG_REC_MAGIC @ le_bytes 2 CATALOG_REC_VERSION @ le_bytes 2 (int (length cols))"
  let ?r = "concat (map column_record cols)"
  have n: "0 < length (utf8_encode t)" "length (utf8_encode t) \<le> 64" using assms(1) by (auto simp: catalog_name_def)
  have buf: "catalog_bytes t cols = ?h @ name_field t @ ?r" by (simp add: catalog_bytes_def)
  have lc: "length ?r = length cols * 67"
    using assms(4)
  proof (induction cols)
    case (Cons c cs)
    then show ?case using length_column_record [of c] by (simp add: catalog_name_def)
  qed simp
  have len: "length (catalog_bytes t cols) = catalogEncodedLen (length cols)"
    using length_name_field [OF n(2)] lc by (simp add: buf catalogEncodedLen_def catalog_consts)
  have r: "le_value (read_at 0 4 (catalog_bytes t cols)) = CATALOG_REC_MAGIC"
    "le_value (read_at 4 2 (catalog_bytes t cols)) = CATALOG_REC_VERSION"
    "le_value (read_at 6 2 (catalog_bytes t cols)) = int (length cols)"
  proof -
    have "read_at 0 4 (catalog_bytes t cols) = le_bytes 4 CATALOG_REC_MAGIC"
      "read_at 4 2 (catalog_bytes t cols) = le_bytes 2 CATALOG_REC_VERSION"
      "read_at 6 2 (catalog_bytes t cols) = le_bytes 2 (int (length cols))"
      unfolding catalog_bytes_def by (simp_all add: read_at_def numeral_2_eq_2)
    then show "le_value (read_at 0 4 (catalog_bytes t cols)) = CATALOG_REC_MAGIC"
      "le_value (read_at 4 2 (catalog_bytes t cols)) = CATALOG_REC_VERSION"
      "le_value (read_at 6 2 (catalog_bytes t cols)) = int (length cols)"
      using assms(3) by (simp_all add: le_value_le_bytes catalog_consts)
  qed
  have name: "nat (byte_get (catalog_bytes t cols) 8) = length (utf8_encode t)"
    "read_at 9 (length (utf8_encode t)) (catalog_bytes t cols) = utf8_encode t"
    using name_field_reads(1,2) [OF assms(1), of 8 ?h ?r] by (simp_all add: buf)
  have cols: "decode_columns (catalog_bytes t cols) (length cols) 73 = Inr (map decoded_column cols)"
    using decode_columns_ok [OF assms(4), of "?h @ name_field t" "[]"] length_name_field [OF n(2)] by (simp add: buf)
  show ?thesis
    unfolding decodeCatalogRecord_def len r nat_int Let_def name
    using n assms(2,3) cols catalog_name_decode [OF assms(1)]
    by (simp add: catalogEncodedLen_def catalog_consts decoded_table_def)
qed

section \<open>The map the store promises\<close>

definition catalog_size :: "column_def list \<Rightarrow> nat" where
  "catalog_size cols = catalogEncodedLen (length cols)"

definition catalog_key :: "jstr \<Rightarrow> buffer" where
  "catalog_key t = utf8_encode (CATALOG_PREFIX @ t)"

definition storable :: "jstr \<Rightarrow> column_def list \<Rightarrow> bool" where
  "storable t cols \<longleftrightarrow> catalog_name t \<and> length t \<le> 64 \<and> key_bytes (CATALOG_PREFIX @ t) \<and> cols \<noteq> [] \<and> length cols \<le> 32
     \<and> list_all catalog_column cols"

definition store_of :: "regions \<Rightarrow> catalog_record_store" where
  "store_of rg = \<lparr>cs_bumpOffset = stringStart rg, cs_dataStart = stringDataStart rg\<rparr>"

lemma storable_encode: "storable t cols \<Longrightarrow> encodeCatalogRecord t cols = Inr (catalog_bytes t cols)"
proof -
  assume s: "storable t cols"
  have c: "list_all (\<lambda>c. col_name c \<noteq> [] \<and> length (utf8_encode (col_name c)) \<le> 64) cols"
    using s by (auto simp: storable_def catalog_name_def list_all_iff)
  show ?thesis by (rule encode_catalog_bytes) (use s c in \<open>auto simp: storable_def catalog_name_def\<close>)
qed

lemma length_catalog_bytes: "storable t cols \<Longrightarrow> length (catalog_bytes t cols) = catalog_size cols"
proof -
  assume s: "storable t cols"
  have "list_all (\<lambda>c. length (utf8_encode (col_name c)) \<le> 64) cols"
    using s by (auto simp: storable_def catalog_name_def list_all_iff)
  then have "length (concat (map column_record cols)) = length cols * 67"
    by (induction cols) (simp_all add: length_column_record)
  then show ?thesis using s length_name_field [of t]
    by (simp add: catalog_bytes_def catalog_size_def catalogEncodedLen_def catalog_consts storable_def catalog_name_def)
qed

lemma catalog_key_eq: "well_formed s \<Longrightarrow> well_formed t \<Longrightarrow> catalog_key s = catalog_key t \<longleftrightarrow> s = t"
proof -
  assume a: "well_formed s" "well_formed t"
  have "list_all plain_unit CATALOG_PREFIX" by code_simp
  then have "well_formed (CATALOG_PREFIX @ s)" "well_formed (CATALOG_PREFIX @ t)" using a by (simp_all add: well_formed_append)
  then show ?thesis by (simp add: catalog_key_def utf8_encode_inj)
qed

definition catalog_holds ::
  "regions \<Rightarrow> (buffer \<rightharpoonup> int) \<Rightarrow> buffer \<Rightarrow> jstr \<Rightarrow> column_def list \<Rightarrow> bool" where
  \<comment> \<open>the index leads to the record's bytes, below the bump word\<close>
  "catalog_holds rg idx m t cols \<longleftrightarrow>
     (\<exists>pos. idx (catalog_key t) = Some (int pos) \<and> int pos < 0x7FFFFFFF \<and> stringDataStart rg \<le> int pos
       \<and> int pos + int (catalog_size cols) \<le> string_bump rg m \<and> pos + catalog_size cols \<le> length m
       \<and> read_at pos (catalog_size cols) m = catalog_bytes t cols)"

lemma catalog_holds_extended:
  assumes "catalog_holds rg idx m t cols" "strings_extended rg m m'" "idx' (catalog_key t) = idx (catalog_key t)" "0 \<le> stringStart rg"
  shows "catalog_holds rg idx' m' t cols"
proof -
  obtain pos where p: "idx (catalog_key t) = Some (int pos)" "int pos < 0x7FFFFFFF" "stringDataStart rg \<le> int pos"
    "int pos + int (catalog_size cols) \<le> string_bump rg m" "pos + catalog_size cols \<le> length m"
    "read_at pos (catalog_size cols) m = catalog_bytes t cols"
    using assms(1) by (auto simp: catalog_holds_def)
  have "read_at pos (catalog_size cols) m' = catalog_bytes t cols"
    using strings_extended_read [OF assms(2) disjI2 assms(4), of pos "catalog_size cols"] p by simp
  moreover have "string_bump rg m \<le> string_bump rg m'" "length m' = length m" using assms(2) by (simp_all add: strings_extended_def)
  ultimately show ?thesis using p assms(3) unfolding catalog_holds_def by (intro exI [of _ pos]) simp
qed

lemma catalog_header:
  assumes "length cols \<le> 32"
  shows "le_value (read_at 0 4 (catalog_bytes t cols)) = CATALOG_REC_MAGIC"
    "le_value (read_at 4 2 (catalog_bytes t cols)) = CATALOG_REC_VERSION"
    "le_value (read_at 6 2 (catalog_bytes t cols)) = int (length cols)"
proof -
  have "read_at 0 4 (catalog_bytes t cols) = le_bytes 4 CATALOG_REC_MAGIC"
    "read_at 4 2 (catalog_bytes t cols) = le_bytes 2 CATALOG_REC_VERSION"
    "read_at 6 2 (catalog_bytes t cols) = le_bytes 2 (int (length cols))"
    unfolding catalog_bytes_def by (simp_all add: read_at_def numeral_2_eq_2)
  then show "le_value (read_at 0 4 (catalog_bytes t cols)) = CATALOG_REC_MAGIC"
    "le_value (read_at 4 2 (catalog_bytes t cols)) = CATALOG_REC_VERSION"
    "le_value (read_at 6 2 (catalog_bytes t cols)) = int (length cols)"
    using assms by (simp_all add: le_value_le_bytes catalog_consts)
qed

lemma read_at_sub: "a + k \<le> n \<Longrightarrow> read_at (p + a) k m = read_at a k (read_at p n m)"
  by (simp add: read_at_def drop_take add.commute min_def)

lemma catalog_size_bounds: "length cols \<le> 32 \<Longrightarrow> 73 \<le> catalog_size cols \<and> catalog_size cols \<le> 2217"
  by (simp add: catalog_size_def catalogEncodedLen_def catalog_consts)

lemma catalog_size_pos: "8 \<le> catalog_size cols"
  by (simp add: catalog_size_def catalogEncodedLen_def catalog_consts)

context arena_engine
begin

lemma load_held:
  assumes "ready w" "catalog_holds rg (idx w) (w_mem w) t cols" "storable t cols"
  shows "cs_load b t w = (Inr (Some (decoded_table t cols)), w)"
proof -
  obtain pos where p: "idx w (catalog_key t) = Some (int pos)" "int pos < 0x7FFFFFFF"
    "pos + catalog_size cols \<le> length (w_mem w)" "read_at pos (catalog_size cols) (w_mem w) = catalog_bytes t cols"
    using assms(2) by (auto simp: catalog_holds_def)
  have s: "t \<noteq> []" "length t \<le> 64" "key_bytes (CATALOG_PREFIX @ t)" "length cols \<le> 32" "catalog_name t" "cols \<noteq> []"
    "list_all catalog_column cols"
    using assms(3) by (auto simp: storable_def catalog_name_def)
  have key: "catalogRecordKey t = Inr (CATALOG_PREFIX @ t)" using s by (simp add: catalogRecordKey_def)
  have off: "b_search_index b (CATALOG_PREFIX @ t) w = (Inr (int pos), w)"
    using search_law [OF assms(1) s(3)] p(1,2) by (simp add: catalog_key_def)
  note h = catalog_header [OF s(4), of t]
  have "read_at pos 4 (w_mem w) = read_at 0 4 (catalog_bytes t cols)"
    "read_at (pos + 4) 2 (w_mem w) = read_at 4 2 (catalog_bytes t cols)"
    "read_at (pos + 6) 2 (w_mem w) = read_at 6 2 (catalog_bytes t cols)"
    using read_at_sub [of 0 4 "catalog_size cols" pos "w_mem w"] read_at_sub [of 4 2 "catalog_size cols" pos "w_mem w"]
      read_at_sub [of 6 2 "catalog_size cols" pos "w_mem w"] catalog_size_pos [of cols] p(4) by simp_all
  note r = this [THEN arg_cong [of _ _ le_value], unfolded h]
  have sz: "catalogEncodedLen (length cols) = catalog_size cols" by (simp add: catalog_size_def)
  have "pos + CATALOG_HEADER_LEN \<le> length (w_mem w)" using p(3) catalog_size_pos [of cols] by (simp add: CATALOG_HEADER_LEN_def)
  then have fits: "\<not> int pos + int CATALOG_HEADER_LEN > int (length (w_mem w))" by linarith
  have fits2: "\<not> int pos + int (catalog_size cols) > int (length (w_mem w))" using p(3) by linarith
  have dec: "decodeCatalogRecord (catalog_bytes t cols) = Inr (decoded_table t cols)"
    using decode_catalog_bytes [OF s(5,6,4,7)] .
  show ?thesis
    using fits fits2
    by (simp add: cs_load_def key act_bind_def off r sz p(4) dec Let_def decoded_table_def)
qed

lemma failed_alloc:
  assumes "ready w" "strings_ok rg (w_mem w)" "string_bump rg (w_mem w) + int n < 2 ^ 32"
    and a: "bump_alloc (stringStart rg) (stringDataStart rg) (int n) (w_mem w) = (pos, m1)"
  shows "strings_extended rg (w_mem w) m1 \<and> string_bump rg m1 = string_bump rg (w_mem w) + int n"
  using bump_alloc_extended [OF conjunct1 [OF regions_law [OF assms(1)]] conjunct2 [OF regions_law [OF assms(1)]]
    arena_law [OF assms(1)] assms(2) a] assms(3) by simp

lemma save_step:
  assumes "ready w" "strings_ok rg (w_mem w)" "storable t cols" "arenaBytes rg \<le> 0x7FFFFFFF"
    and room: "string_bump rg (w_mem w) + 2217 < 2 ^ 32"
    and run: "cs_save b (store_of rg) t cols w = (r, w')"
  shows "ready w' \<and> strings_extended rg (w_mem w) (w_mem w')
    \<and> string_bump rg (w_mem w') \<le> max (string_bump rg (w_mem w) + 2217) (arenaBytes rg)
    \<and> (case r of Inr pos \<Rightarrow> idx w' = (idx w)(catalog_key t \<mapsto> pos) \<and> catalog_holds rg (idx w') (w_mem w') t cols
        | Inl e \<Rightarrow> idx w' = idx w)"
proof -
  note rl = regions_law [OF assms(1)] and al = arena_law [OF assms(1)]
  note vv = validated [OF conjunct1 [OF rl] conjunct2 [OF rl]]
  let ?bs = "catalog_bytes t cols" and ?m = "w_mem w"
  have enc: "encodeCatalogRecord t cols = Inr ?bs" by (rule storable_encode [OF assms(3)])
  have lbs: "length ?bs = catalog_size cols" by (rule length_catalog_bytes [OF assms(3)])
  have sz: "catalog_size cols \<le> 2217" using assms(3) catalog_size_bounds [of cols] by (simp add: storable_def)
  have key: "catalogRecordKey t = Inr (CATALOG_PREFIX @ t)"
    using assms(3) by (auto simp: catalogRecordKey_def storable_def catalog_name_def)
  obtain pos m1 where a: "bump_alloc (stringStart rg) (stringDataStart rg) (int (length ?bs)) ?m = (pos, m1)"
    by (rule prod.exhaust)
  note fa = failed_alloc [OF assms(1,2) _ a]
  have lm1: "length m1 = length ?m" using fa room sz lbs by (simp add: strings_extended_def)
  consider (view) "\<exists>e. u32_view (stringStart rg) ?m = Inl e"
    | (oom) "u32_view (stringStart rg) ?m = Inr ()" "pos + int (length ?bs) > int (length ?m)"
    | (fit) "u32_view (stringStart rg) ?m = Inr ()" "pos + int (length ?bs) \<le> int (length ?m)"
    by (cases "u32_view (stringStart rg) ?m"; cases "pos + int (length ?bs) \<le> int (length ?m)") auto
  then show ?thesis
  proof cases
    case view
    then have "w' = w" "\<exists>e. r = Inl e" using run enc by (auto simp: cs_save_def act_bind_def store_of_def)
    then show ?thesis using assms(1) by auto
  next
    case oom
    then have "w' = w\<lparr>w_mem := m1\<rparr>" "\<exists>e. r = Inl e"
      using run enc a lm1 by (auto simp: cs_save_def act_bind_def store_of_def)
    then show ?thesis using write_law [OF assms(1) lm1] fa room sz lbs by auto
  next
    case fit
    let ?m2 = "write_at (nat pos) ?bs m1" and ?w2 = "w\<lparr>w_mem := write_at (nat pos) ?bs m1\<rparr>"
    note f = string_alloc_frame [OF conjunct1 [OF rl] conjunct2 [OF rl] al assms(2) a fit(2)]
    have w2: "ready ?w2" "idx ?w2 = idx w" using write_law [OF assms(1) f(5)] by simp_all
    obtain rn w3 where n: "b_notifyArena b pos (int (length ?bs)) ?w2 = (rn, w3)" by (rule prod.exhaust)
    have w3: "ready w3" "idx w3 = idx w" "w_mem w3 = ?m2" using notify_law [OF w2(1) n] w2(2) by simp_all
    obtain ri w4 where i: "b_insert_index b (CATALOG_PREFIX @ t) pos w3 = (ri, w4)" by (rule prod.exhaust)
    have pb: "0 \<le> pos" "pos < 2 ^ 32" "pos < 0x7FFFFFFF"
    proof -
      have "8 \<le> catalog_size cols" by (rule catalog_size_pos)
      then show "0 \<le> pos" "pos < 2 ^ 32" "pos < 0x7FFFFFFF" using f(4) vv fit(2) al assms(4) lbs by linarith+
    qed
    have w4: "ready w4" "idx w4 = (if ri = Inr 0 then (idx w)(catalog_key t \<mapsto> pos) else idx w)"
      using insert_law [OF w3(1) i] w3(2) pb by (simp_all add: catalog_key_def u32_of_def)
    have ext: "strings_extended rg ?m2 (w_mem w4)" "string_bump rg (w_mem w4) \<le> max (string_bump rg ?m2) (arenaBytes rg)"
      using insert_frame [OF w3(1) _ i] f(2) w3(3) by (simp_all add: strings_ok_def)
    have b2: "string_bump rg ?m2 \<le> string_bump rg ?m + 2217" using f(3,6) sz lbs by linarith
    show ?thesis
    proof (cases "rn = Inr 0")
      case False
      then have "w' = w3" "\<exists>e. r = Inl e"
        using run enc a fit n key lm1 by (auto simp: cs_save_def act_bind_def store_of_def set_mem_def split: sum.splits)
      then show ?thesis using w3 f(1) b2 by auto
    next
      case True
      then have w': "w' = w4" "r = Inr pos \<and> ri = Inr 0 \<or> (\<exists>e. r = Inl e) \<and> ri \<noteq> Inr 0"
        using run enc a fit n key i lm1
        by (auto simp: cs_save_def act_bind_def store_of_def set_mem_def split: sum.splits if_splits)
      have x: "strings_extended rg ?m (w_mem w4)" by (rule strings_extended_trans [OF f(1) ext(1) assms(2)])
      have "catalog_holds rg ((idx w)(catalog_key t \<mapsto> pos)) ?m2 t cols"
      proof -
        have "read_at (nat pos) (catalog_size cols) ?m2 = ?bs"
          using fit(2) pb(1) lm1 lbs by (intro read_write_same) linarith+
        moreover have "nat pos + catalog_size cols \<le> length ?m2" using fit(2) pb(1) f(5) lbs by linarith
        ultimately show ?thesis
          unfolding catalog_holds_def using pb f(3,4) lbs by (intro exI [of _ "nat pos"]) simp
      qed
      then have "catalog_holds rg ((idx w)(catalog_key t \<mapsto> pos)) (w_mem w4) t cols"
        by (rule catalog_holds_extended [OF _ ext(1) refl]) (use vv in simp)
      then show ?thesis using w' w4 x ext(2) b2 by auto
    qed
  qed
qed

lemma save_keeps:
  assumes "ready w" "strings_ok rg (w_mem w)" "storable t cols" "arenaBytes rg \<le> 0x7FFFFFFF"
    and room: "string_bump rg (w_mem w) + 2217 < 2 ^ 32" and run: "cs_save b (store_of rg) t cols w = (r, w')"
    and h: "catalog_holds rg (idx w) (w_mem w) u d" and u: "well_formed u" "is_ok r \<Longrightarrow> u \<noteq> t"
  shows "catalog_holds rg (idx w') (w_mem w') u d"
proof -
  note st = save_step [OF assms(1-6)]
  have "idx w' (catalog_key u) = idx w (catalog_key u)"
    using st u catalog_key_eq [of u t] assms(3) by (cases r) (auto simp: storable_def catalog_name_def)
  then show ?thesis
    using catalog_holds_extended [OF h] st validated [of rg] regions_law [OF assms(1)] by auto
qed

end

fun save_all ::
  "'e bindings \<Rightarrow> catalog_record_store \<Rightarrow> (jstr \<times> column_def list) list \<Rightarrow> 'e world \<Rightarrow> int res list \<times> 'e world" where
  "save_all b st [] w = ([], w)"
| "save_all b st ((t, cols) # ops) w =
     (case cs_save b st t cols w of (r, w1) \<Rightarrow> case save_all b st ops w1 of (rs, w2) \<Rightarrow> (r # rs, w2))"

fun saved :: "(jstr \<rightharpoonup> column_def list) \<Rightarrow> (jstr \<times> column_def list) list \<Rightarrow> int res list \<Rightarrow> (jstr \<rightharpoonup> column_def list)" where
  \<comment> \<open>the descriptors a reader must find: the last successful save of each table\<close>
  "saved M ((t, cols) # ops) (r # rs) = saved (if is_ok r then M(t \<mapsto> cols) else M) ops rs"
| "saved M _ _ = M"

context arena_engine
begin

lemma save_all_holds:
  assumes "arenaBytes rg \<le> 0x7FFFFFFF"
  shows "ready w \<Longrightarrow> strings_ok rg (w_mem w) \<Longrightarrow> list_all (\<lambda>(t, cols). storable t cols) ops \<Longrightarrow>
    max (string_bump rg (w_mem w)) (arenaBytes rg) + 2217 * int (length ops) < 2 ^ 32 \<Longrightarrow>
    (\<And>t cols. M t = Some cols \<Longrightarrow> storable t cols \<and> catalog_holds rg (idx w) (w_mem w) t cols) \<Longrightarrow>
    save_all b (store_of rg) ops w = (rs, w') \<Longrightarrow>
    ready w' \<and> (\<forall>t cols. saved M ops rs t = Some cols \<longrightarrow> storable t cols \<and> catalog_holds rg (idx w') (w_mem w') t cols)"
proof (induction ops arbitrary: w M rs)
  case (Cons op ops)
  obtain t cols where op: "op = (t, cols)" by (cases op)
  obtain r w1 where c: "cs_save b (store_of rg) t cols w = (r, w1)" by (rule prod.exhaust)
  obtain rs1 where d: "save_all b (store_of rg) ops w1 = (rs1, w')" and rs: "rs = r # rs1"
    using Cons.prems(6) c op by (auto split: prod.splits)
  have st: "storable t cols" and rest: "list_all (\<lambda>(t, cols). storable t cols) ops" using Cons.prems(3) op by simp_all
  have room: "string_bump rg (w_mem w) + 2217 < 2 ^ 32" using Cons.prems(4) by simp
  note step = save_step [OF Cons.prems(1,2) st assms room c]
  let ?M = "if is_ok r then M(t \<mapsto> cols) else M"
  have wf: "M u = Some d \<Longrightarrow> well_formed u" for u d using Cons.prems(5) by (auto simp: storable_def catalog_name_def)
  have hold: "?M u = Some d \<Longrightarrow> storable u d \<and> catalog_holds rg (idx w1) (w_mem w1) u d" for u d
  proof (cases "is_ok r \<and> u = t")
    case True
    then show "?M u = Some d \<Longrightarrow> storable u d \<and> catalog_holds rg (idx w1) (w_mem w1) u d"
      using step st by (auto simp: is_ok_def)
  next
    case False
    then show "?M u = Some d \<Longrightarrow> storable u d \<and> catalog_holds rg (idx w1) (w_mem w1) u d"
      using save_keeps [OF Cons.prems(1,2) st assms room c] Cons.prems(5) wf by (auto split: if_splits)
  qed
  have b1: "max (string_bump rg (w_mem w1)) (arenaBytes rg) + 2217 * int (length ops) < 2 ^ 32"
    using step Cons.prems(4) by (auto simp: max_def algebra_simps split: if_splits)
  have "ready w' \<and> (\<forall>t cols. saved ?M ops rs1 t = Some cols \<longrightarrow> storable t cols \<and> catalog_holds rg (idx w') (w_mem w') t cols)"
    by (rule Cons.IH [OF _ _ rest b1 hold d]) (use step strings_extended_ok Cons.prems(2) in auto)
  then show ?case using op rs by simp
qed simp

end

section \<open>Properties\<close>

text \<open>Record round trip: for every descriptor whose names are well-formed, fit 64 bytes and do not start with a
  byte order mark, decoding the encoded record gives the table and its columns back: names, types
  and flags.\<close>

theorem catalog_record_roundtrip:
  assumes "catalog_name t" and "length t \<le> 64" and "cols \<noteq> []" and "length cols \<le> 32" and "list_all catalog_column cols"
  shows "res_bind (encodeCatalogRecord t cols) decodeCatalogRecord = Inr (decoded_table t cols)"
proof -
  have "list_all (\<lambda>c. col_name c \<noteq> [] \<and> length (utf8_encode (col_name c)) \<le> 64) cols"
    using assms(5) by (auto simp: list_all_iff catalog_name_def)
  then have "encodeCatalogRecord t cols = Inr (catalog_bytes t cols)"
    using assms by (intro encode_catalog_bytes) (auto simp: catalog_name_def)
  then show ?thesis using decode_catalog_bytes [OF assms(1,3,4,5)] by simp
qed

definition ex_catalog_columns :: "column_def list" where
  "ex_catalog_columns =
     [\<lparr>col_name = lit ''id'', col_type = TUint32, nullable = None, primaryKey = Some True, unique = None, defaultValue = Undefined\<rparr>,
      \<lparr>col_name = lit ''email'', col_type = TString, nullable = Some True, primaryKey = None, unique = Some True, defaultValue = Undefined\<rparr>]"

theorem catalog_record_roundtrip_witness:
  "res_bind (encodeCatalogRecord (lit ''users'') ex_catalog_columns) decodeCatalogRecord
     = Inr (decoded_table (lit ''users'') ex_catalog_columns)"
proof -
  have "catalog_name (lit ''users'')" "length (lit ''users'') \<le> 64" "ex_catalog_columns \<noteq> []" "length ex_catalog_columns \<le> 32"
    "list_all catalog_column ex_catalog_columns" by code_simp+
  then show ?thesis by (rule catalog_record_roundtrip)
qed


definition ex_catalog_regions :: regions where
  "ex_catalog_regions = \<lparr>arenaBytes = 2832, ringCapacity = 16, recordStart = 2376, recordBytes = 64, artRoot = 2440,
     artBytes = 8, stringStart = 2448, stringBytes = 384\<rparr>"

definition ex_catalog_world :: native where
  "ex_catalog_world = \<lparr>w_mem = replicate 2832 0, w_eng = (small_engine False)\<lparr>e_regions := ex_catalog_regions\<rparr>\<rparr>"

lemma ex_catalog_ready: "native_ready ex_catalog_regions ex_catalog_world"
proof -
  have "validateRegions ex_catalog_regions (arenaBytes ex_catalog_regions) = Inr ()" "regions_u32 ex_catalog_regions"
    by (code_simp, code_simp)
  then show ?thesis
    by (simp add: native_ready_def ex_catalog_world_def small_engine_def) (simp add: ex_catalog_regions_def)
qed

lemma ex_catalog_save:
  "fst (cs_save native_bindings (store_of ex_catalog_regions) (lit ''users'') ex_catalog_columns ex_catalog_world) = Inr 2456"
proof -
  have enc: "encodeCatalogRecord (lit ''users'') ex_catalog_columns = Inr (catalog_bytes (lit ''users'') ex_catalog_columns)"
    by code_simp
  have len: "length (catalog_bytes (lit ''users'') ex_catalog_columns) = 207" by code_simp
  have key: "catalogRecordKey (lit ''users'') = Inr (lit ''__catalog__:users'')"
    "CopyKey (lit ''__catalog__:users'') = Inr (utf8_encode (lit ''__catalog__:users''))"
    "length (utf8_encode (lit ''__catalog__:users'')) = 17" by code_simp+
  have view: "u32_view 2448 (replicate 2832 0) = Inr ()" by (simp add: u32_view_def)
  have z: "u32_at 2448 (replicate 2832 0) = 0" by (simp add: u32_at_zeros)
  obtain pos m where a: "bump_alloc 2448 2456 207 (replicate 2832 0) = (pos, m)" by (rule prod.exhaust)
  note b = bump_alloc_result [OF _ _ _ _ a, simplified]
  have m: "pos = 2456" "length m = 2832" using b(1,2) z by (simp_all add: bump_at_def)
  show ?thesis
    using a m key view
    by (simp add: cs_save_def enc len act_bind_def set_mem_def store_of_def stringDataStart_def native_bindings_def
        NotifyArena_def InsertIndex_def takyon_notify_arena_def takyon_insert_index_def pushWithBackPressure_def
        art_insert_def u32_of_def eng_def MAX_KEY_LEN_def ex_catalog_world_def small_engine_def ex_catalog_regions_def)
qed


lemma typed_set_frame:
  "typed_set off bs m = Inr m' \<Longrightarrow> length m' = length m \<and> (n \<le> off \<longrightarrow> take n m' = take n m)"
  by (auto simp: typed_set_def take_write_at split: if_splits)

lemma encode_columns_frame:
  "encode_columns cs off out = Inr out' \<Longrightarrow> length out' = length out \<and> take off out' = take off out"
proof (induction cs arbitrary: off out)
  case (Cons c cs)
  let ?n = "utf8_encode (col_name c)"
  obtain m where m: "typed_set (off + 1) ?n (byte_set off (int (length ?n)) out) = Inr m"
    and r: "encode_columns cs (off + COLUMN_REC_LEN)
      (byte_set (off + 66) (flagsOf c) (byte_set (off + 65) (TYPE_TO_BYTE (col_type c)) m)) = Inr out'"
    using Cons.prems by (auto simp: Let_def res_bind_eq_Inr split: if_splits)
  have t: "take off x' = take off x" if "take (off + COLUMN_REC_LEN) x' = take (off + COLUMN_REC_LEN) x" for x x' :: buffer
    using arg_cong [OF that, of "take off"] by (simp add: min_def split: if_splits)
  show ?case using Cons.IH [OF r] typed_set_frame [OF m, of off] by (auto simp: byte_set_def dest!: t)
qed simp

text \<open>The table-name check counts UTF-16 units where the field holds bytes: whatever the encoder accepts
  under a name of at most 64 units but more than 64 UTF-8 bytes, the decoder refuses, so such a
  table can be saved and never loaded.\<close>

theorem wide_table_name_unreadable:
  assumes "length t \<le> 64" and "64 < length (utf8_encode t)" and "encodeCatalogRecord t cols = Inr bs"
  shows "decodeCatalogRecord bs = Inl (Error (lit ''bad catalog table name''))"
proof -
  let ?n = "utf8_encode t"
  let ?h = "le_bytes 4 CATALOG_REC_MAGIC @ le_bytes 2 CATALOG_REC_VERSION @ le_bytes 2 (int (length cols))"
  have n: "length ?n < 256" using utf8_length_bound [of t] assms(1) by simp
  have cols: "0 < length cols" "length cols \<le> 32" using assms(3) by (auto simp: encodeCatalogRecord_def split: if_splits)
  let ?k = "0 # replicate (64 + 67 * length cols) (0::byte8)"
  have z: "replicate (catalogEncodedLen (length cols)) (0::byte8) = replicate 4 0 @ replicate 2 0 @ replicate 2 0 @ ?k"
    by (simp add: catalogEncodedLen_def catalog_consts flip: replicate_add replicate_Suc)
  have h: "write_at 6 (le_bytes 2 x) (write_at 4 (le_bytes 2 v) (write_at 0 (le_bytes 4 u) (replicate 4 0 @ replicate 2 0 @ replicate 2 0 @ r)))
      = le_bytes 4 u @ le_bytes 2 v @ le_bytes 2 x @ r" for u v x r
    by (simp add: write_at_def)
  have b: "byte_set 8 v (le_bytes 4 u @ le_bytes 2 x @ le_bytes 2 y @ 0 # r)
      = le_bytes 4 u @ le_bytes 2 x @ le_bytes 2 y @ word_of_int v # r" for v u x y r
    by (simp add: byte_set_def list_update_append)
  obtain m where m: "typed_set 9 ?n (le_bytes 4 CATALOG_REC_MAGIC @ le_bytes 2 CATALOG_REC_VERSION @ le_bytes 2 (int (length cols))
        @ word_of_int (int (length ?n)) # tl ?k) = Inr m"
    and e: "encode_columns cols 73 m = Inr bs"
    using assms(3) unfolding encodeCatalogRecord_def z h Let_def b
    by (auto simp: res_bind_eq_Inr catalog_consts split: if_splits)
  have f: "length bs = catalogEncodedLen (length cols)" "take 9 bs = ?h @ [word_of_int (int (length ?n))]"
  proof -
    have "take 9 bs = take 9 m"
      using arg_cong [OF conjunct2 [OF encode_columns_frame [OF e]], of "take 9"] by simp
    moreover have "length m = 8 + 65 + 67 * length cols \<and> take 9 m = ?h @ [word_of_int (int (length ?n))]"
      using typed_set_frame [OF m, of 9] by simp
    ultimately show "length bs = catalogEncodedLen (length cols)" "take 9 bs = ?h @ [word_of_int (int (length ?n))]"
      using encode_columns_frame [OF e] by (simp_all add: catalogEncodedLen_def catalog_consts)
  qed
  have r: "read_at a k bs = read_at a k (?h @ [word_of_int (int (length ?n))])" if "a + k \<le> 9" for a k
    using that f(2) by (metis read_at_def take_drop min.absorb1 take_take add.commute)
  have "bs ! 8 = (take 9 bs) ! 8" by simp
  then have "bs ! 8 = word_of_int (int (length ?n))" by (simp add: f(2) nth_append)
  then have tl: "byte_get bs 8 = int (length ?n)" using n uint_byte [of "int (length ?n)"] by (simp add: byte_get_def)
  have "le_value (read_at 0 4 bs) = CATALOG_REC_MAGIC" "le_value (read_at 4 2 bs) = CATALOG_REC_VERSION"
    "le_value (read_at 6 2 bs) = int (length cols)"
    using cols by (simp_all add: r) (simp_all add: read_at_def le_value_le_bytes catalog_consts)
  then show ?thesis using tl f(1) cols assms(2)
    by (simp add: decodeCatalogRecord_def Let_def) (simp add: catalogEncodedLen_def catalog_consts)
qed

theorem wide_table_name_unreadable_witness:
  "\<exists>bs. encodeCatalogRecord (replicate 40 0xE9) ex_catalog_columns = Inr bs
    \<and> decodeCatalogRecord bs = Inl (Error (lit ''bad catalog table name''))"
proof -
  have "length (replicate 40 (0xE9 :: code_unit)) \<le> 64" "64 < length (utf8_encode (replicate 40 0xE9))" by code_simp+
  moreover have "is_ok (encodeCatalogRecord (replicate 40 0xE9) ex_catalog_columns)" by code_simp
  then obtain bs where "encodeCatalogRecord (replicate 40 0xE9) ex_catalog_columns = Inr bs" by (auto simp: is_ok_def)
  ultimately show ?thesis using wide_table_name_unreadable by blast
qed

end
