(* ===== verification/Float64.thy ===== *)
theory Float64
  imports ByteView JsNumber
begin

text \<open>
  \<open>DataView.setFloat64\<close> and \<open>getFloat64\<close>: the binary64 encoding of a Number. The exponent and the
  significand of a positive double are read off the number itself; one formula covers normal and
  subnormal values, because the implicit bit of the significand carries into the exponent field.
\<close>

definition f64_exponent :: "rat \<Rightarrow> int" where
  "f64_exponent r = max (ilog2 r - 52) (- 1074)"

definition f64_magnitude :: "rat \<Rightarrow> int" where
  "f64_magnitude r = (f64_exponent r + 1074) * 2 ^ 52 + \<lfloor>r / pow2 (f64_exponent r)\<rfloor>"

fun f64_bits :: "jsnum \<Rightarrow> int" where
  "f64_bits NaN = 0x7FF8000000000000"
| "f64_bits PosInf = 0x7FF0000000000000"
| "f64_bits NegInf = 0xFFF0000000000000"
| "f64_bits NegZero = 0x8000000000000000"
| "f64_bits (Fin r) =
     (if r = 0 then 0 else if 0 < r then f64_magnitude r else 2 ^ 63 + f64_magnitude (- r))"

definition f64_value :: "int \<Rightarrow> rat" where
  "f64_value u =
     (let q = u div 2 ^ 52; f = u mod 2 ^ 52
      in if q = 0 then of_int f * pow2 (- 1074) else of_int (2 ^ 52 + f) * pow2 (q - 1075))"

definition f64_of_bits :: "int \<Rightarrow> jsnum" where
  "f64_of_bits v =
     (let neg = v div 2 ^ 63 \<noteq> 0; u = v mod 2 ^ 63
      in if u div 2 ^ 52 = 2047 then (if u mod 2 ^ 52 \<noteq> 0 then NaN else if neg then NegInf else PosInf)
         else if u = 0 then (if neg then NegZero else Fin 0)
         else Fin (if neg then - f64_value u else f64_value u))"

fun is_double :: "jsnum \<Rightarrow> bool" where
  \<comment> \<open>a value a Number can hold\<close>
  "is_double (Fin r) = (to_double r = Fin r)"
| "is_double _ = True"

section \<open>The encoding is exact\<close>

lemma pow2_powi: "pow2 x = 2 powi x"
  by (simp add: pow2_def power_int_def power_one_over inverse_eq_divide)

lemma pow2_add: "pow2 (a + b) = pow2 a * pow2 b"
  by (simp add: pow2_powi power_int_add)

lemma pow2_mono: "a \<le> b \<Longrightarrow> pow2 a \<le> pow2 b"
  by (simp add: pow2_powi power_int_increasing)

lemma pow2_less_imp: "pow2 a < pow2 b \<Longrightarrow> a < b"
  using pow2_mono [of b a] by (meson not_less)

lemma pow2_minus: "pow2 (a - b) = pow2 a / pow2 b"
  using pow2_add [of "a - b" b] by simp

lemma bitlen_pow2:
  assumes "0 < a"
  shows "pow2 (bitlen a - 1) \<le> of_int a" "of_int a < pow2 (bitlen a)"
proof -
  have b: "0 < bitlen a" using assms bitlen_nonneg [of a] bitlen_eq_zero_iff [of a] by linarith
  have "2 ^ nat (bitlen a - 1) \<le> a \<and> a < 2 ^ nat (bitlen a)" using assms by (rule bitlen_bounds)
  then have "(of_int (2 ^ nat (bitlen a - 1)) :: rat) \<le> of_int a" "(of_int a :: rat) < of_int (2 ^ nat (bitlen a))"
    by (simp_all only: of_int_le_iff of_int_less_iff)
  then show "pow2 (bitlen a - 1) \<le> of_int a" "of_int a < pow2 (bitlen a)"
    using b by (simp_all add: pow2_def)
qed

lemma ilog2_bounds:
  assumes "0 < r"
  shows "pow2 (ilog2 r) \<le> r" "r < pow2 (ilog2 r + 1)"
proof -
  obtain a b where q: "quotient_of r = (a, b)" by (cases "quotient_of r")
  have b: "0 < b" and r: "r = of_int a / of_int b"
    using quotient_of_denom_pos [OF q] quotient_of_div [OF q] by simp_all
  have a: "0 < a" using assms b by (simp add: r zero_less_divide_iff)
  define e where "e = bitlen a - bitlen b"
  note A = bitlen_pow2 [OF a] and B = bitlen_pow2 [OF b]
  have "r * of_int b = of_int a" using b by (simp add: r)
  have up: "r < pow2 (e + 1)"
  proof -
    have "r < pow2 (bitlen a) / pow2 (bitlen b - 1)"
      unfolding r by (rule frac_less) (use A B a in simp_all)
    then show ?thesis by (simp add: e_def pow2_minus [symmetric] algebra_simps)
  qed
  have low: "pow2 (e - 1) \<le> r"
  proof -
    have "pow2 (bitlen a - 1) / pow2 (bitlen b) \<le> r"
      unfolding r by (rule frac_le) (use A B a b in simp_all)
    then show ?thesis by (simp add: e_def pow2_minus [symmetric] algebra_simps)
  qed
  have l: "ilog2 r = (if pow2 e \<le> r then e else e - 1)" by (simp add: ilog2_def q e_def Let_def)
  show "pow2 (ilog2 r) \<le> r" using low l by auto
  show "r < pow2 (ilog2 r + 1)" using up l by auto
qed

lemma split_field: "0 \<le> f \<Longrightarrow> f < c \<Longrightarrow> (f + c * k) div c = (k :: int)" "0 \<le> f \<Longrightarrow> f < c \<Longrightarrow> (f + c * k) mod c = f"
  by simp_all

lemma double_shape:
  assumes "to_double r = Fin r" and "0 < r"
  obtains m where "r = of_int m * pow2 (f64_exponent r)" "r < pow2 1024" "m \<noteq> 0"
proof -
  let ?m = "round_half_even (r / pow2 (f64_exponent r))"
  have a: "\<bar>r\<bar> = r" "r \<noteq> 0" using assms(2) by simp_all
  have "r = of_int ?m * pow2 (f64_exponent r) \<and> \<not> pow2 1024 \<le> of_int ?m * pow2 (f64_exponent r) \<and> ?m \<noteq> 0"
    using assms unfolding to_double_def Let_def a(1) f64_exponent_def [symmetric] by (simp split: if_splits)
  then show thesis using that [of ?m] by simp
qed

lemma double_parts:
  assumes "to_double r = Fin r" and "0 < r"
  obtains m where "r = of_int m * pow2 (f64_exponent r)" "\<lfloor>r / pow2 (f64_exponent r)\<rfloor> = m" "0 < m"
    "f64_exponent r = - 1074 \<and> m < 2 ^ 52 \<or> 2 ^ 52 \<le> m \<and> m < 2 ^ 53" "f64_exponent r \<le> 971" "- 1074 \<le> f64_exponent r"
proof -
  define e where "e = f64_exponent r"
  obtain m where v: "r = of_int m * pow2 e" "r < pow2 1024" "m \<noteq> 0"
    using double_shape [OF assms] by (auto simp: e_def)
  have q: "r / pow2 e = of_int m" unfolding v(1) by simp
  have m0: "0 < m" using v(1) assms(2) pow2_pos [of e] by (simp add: zero_less_mult_iff)
  have l: "pow2 (ilog2 r) \<le> r" "r < pow2 (ilog2 r + 1)" by (rule ilog2_bounds [OF assms(2)])+
  have "ilog2 r < 1024"
  proof (rule pow2_less_imp)
    show "pow2 (ilog2 r) < pow2 1024" using l(1) v(2) by (rule le_less_trans)
  qed
  then have e971: "e \<le> 971" by (simp add: e_def f64_exponent_def)
  have mr: "of_int m = r / pow2 e" using q by simp
  have up: "(of_int m :: rat) < pow2 (ilog2 r + 1 - e)"
    using l(2) by (simp add: mr pow2_minus divide_strict_right_mono)
  have low: "pow2 (ilog2 r - e) \<le> (of_int m :: rat)"
    using l(1) by (simp add: mr pow2_minus divide_right_mono less_imp_le)
  have bound: "m < 2 ^ k" if "ilog2 r + 1 - e \<le> int k" for k
  proof -
    have "(of_int m :: rat) < pow2 (int k)" using up pow2_mono [OF that] by linarith
    then have "(of_int m :: rat) < of_int (2 ^ k)" by (simp add: pow2_of_nat)
    then show ?thesis by (simp only: of_int_less_iff)
  qed
  have "e = - 1074 \<and> m < 2 ^ 52 \<or> 2 ^ 52 \<le> m \<and> m < 2 ^ 53"
  proof (cases "- 1074 \<le> ilog2 r - 52")
    case True
    then have e: "ilog2 r - e = 52" by (simp add: e_def f64_exponent_def)
    have "pow2 (int 52) \<le> (of_int m :: rat)" using low e by simp
    then have "(of_int (2 ^ 52) :: rat) \<le> of_int m" unfolding pow2_of_nat by simp
    then have "2 ^ 52 \<le> m" by (simp only: of_int_le_iff)
    then show ?thesis using bound [of 53] e by simp
  next
    case False
    then have "e = - 1074" by (simp add: e_def f64_exponent_def)
    then show ?thesis using bound [of 52] False by simp
  qed
  moreover have "- 1074 \<le> e" by (simp add: e_def f64_exponent_def)
  moreover have "\<lfloor>r / pow2 e\<rfloor> = m" unfolding q by simp
  ultimately show thesis using v(1) m0 e971 by (intro that [of m, folded e_def])
qed

lemma f64_magnitude_value:
  assumes "to_double r = Fin r" and "0 < r"
  shows "0 < f64_magnitude r" "f64_magnitude r < 2 ^ 63" "f64_magnitude r div 2 ^ 52 < 2047"
    "f64_value (f64_magnitude r) = r"
proof -
  obtain m where m: "r = of_int m * pow2 (f64_exponent r)" "\<lfloor>r / pow2 (f64_exponent r)\<rfloor> = m" "0 < m"
    "f64_exponent r = - 1074 \<and> m < 2 ^ 52 \<or> 2 ^ 52 \<le> m \<and> m < 2 ^ 53" "f64_exponent r \<le> 971" "- 1074 \<le> f64_exponent r"
    by (rule double_parts [OF assms])
  define e where "e = f64_exponent r"
  have g: "f64_magnitude r = (e + 1074) * 2 ^ 52 + m" by (simp add: f64_magnitude_def m(2) e_def)
  have er: "e \<le> 971" "- 1074 \<le> e" using m(5,6) by (simp_all add: e_def)
  show "0 < f64_magnitude r" using g er m(3) by simp
  consider "e = - 1074" "m < 2 ^ 52" | "2 ^ 52 \<le> m" "m < 2 ^ 53" using m(4) by (auto simp: e_def)
  then have "f64_magnitude r < 2 ^ 63 \<and> f64_magnitude r div 2 ^ 52 < 2047 \<and> f64_value (f64_magnitude r) = r"
  proof cases
    case 1
    then have "f64_magnitude r = m" "m div 2 ^ 52 = 0" "m mod 2 ^ 52 = m" using g m(3) by simp_all
    then show ?thesis using 1 m(1) by (simp add: f64_value_def Let_def e_def)
  next
    case 2
    define f where "f = m - 2 ^ 52"
    have f: "0 \<le> f" "f < 2 ^ 52" using 2 by (simp_all add: f_def)
    have g': "f64_magnitude r = f + 2 ^ 52 * (e + 1075)" using g by (simp add: f_def algebra_simps)
    have d: "f64_magnitude r div 2 ^ 52 = e + 1075" "f64_magnitude r mod 2 ^ 52 = f"
      unfolding g' by (rule split_field [OF f])+
    have "f64_magnitude r < 2 ^ 63" using g' f er by simp
    moreover have "f64_value (f64_magnitude r) = of_int m * pow2 e"
      using d er by (simp add: f64_value_def Let_def f_def)
    ultimately show ?thesis using d(1) er m(1) by (simp add: e_def)
  qed
  then show "f64_magnitude r < 2 ^ 63" "f64_magnitude r div 2 ^ 52 < 2047" "f64_value (f64_magnitude r) = r"
    by simp_all
qed

lemma to_double_neg: "to_double r = Fin r \<Longrightarrow> r < 0 \<Longrightarrow> to_double (- r) = Fin (- r)"
  by (auto simp: to_double_def Let_def split: if_splits)

lemma f64_roundtrip:
  assumes "is_double n"
  shows "0 \<le> f64_bits n" "f64_bits n < 2 ^ 64" "f64_of_bits (f64_bits n) = n"
proof -
  have "0 \<le> f64_bits n \<and> f64_bits n < 2 ^ 64 \<and> f64_of_bits (f64_bits n) = n"
  proof (cases n)
    case (Fin r)
    then have d: "to_double r = Fin r" using assms by simp
    consider "r = 0" | "0 < r" | "r < 0" by linarith
    then show ?thesis
    proof cases
      case 1
      then show ?thesis by (simp add: Fin f64_of_bits_def Let_def)
    next
      case 2
      note g = f64_magnitude_value [OF d 2]
      have "f64_magnitude r div 2 ^ 63 = 0" "f64_magnitude r mod 2 ^ 63 = f64_magnitude r" using g by simp_all
      then show ?thesis using 2 g by (simp add: Fin f64_of_bits_def Let_def)
    next
      case 3
      note g = f64_magnitude_value [OF to_double_neg [OF d 3]]
      have g: "0 < f64_magnitude (- r)" "f64_magnitude (- r) < 2 ^ 63" "f64_magnitude (- r) div 2 ^ 52 < 2047"
        "f64_value (f64_magnitude (- r)) = - r" using g 3 by simp_all
      have "(2 ^ 63 + f64_magnitude (- r)) div 2 ^ 63 = 1" "(2 ^ 63 + f64_magnitude (- r)) mod 2 ^ 63 = f64_magnitude (- r)"
        using split_field [of "f64_magnitude (- r)" "2 ^ 63" 1] g by (simp_all add: add.commute)
      then show ?thesis using 3 g by (simp add: Fin f64_of_bits_def Let_def)
    qed
  qed (simp_all add: f64_of_bits_def Let_def)
  then show "0 \<le> f64_bits n" "f64_bits n < 2 ^ 64" "f64_of_bits (f64_bits n) = n" by simp_all
qed

lemma is_double_int: "\<bar>i\<bar> \<le> 2 ^ 53 \<Longrightarrow> is_double (int_num i)"
  by (simp add: to_double_int)

end
