(* ===== verification/Proxy.thy ===== *)
theory Proxy
  imports Arena RecordSchema Float64 JsValue
begin

text \<open>
  The client over one mapped segment and the record proxies on it (\<open>client/proxy.ts\<close>). The state of
  a call is the engine world; a proxy is a record schema at an absolute offset together with the
  plain object behind it, which takes the properties outside the schema. The views a client creates
  lazily are fixed functions of the buffer, so they are checked where they are first used.
\<close>

section \<open>Actions on the mapping\<close>

definition on_mem :: "(buffer \<Rightarrow> 'a res) \<Rightarrow> ('e world, 'a) action" where
  "on_mem f w = (f (w_mem w), w)"

definition write_mem :: "(buffer \<Rightarrow> buffer res) \<Rightarrow> ('e world, unit) action" where
  "write_mem f w = (case f (w_mem w) of Inl e \<Rightarrow> (Inl e, w) | Inr m \<Rightarrow> (Inr (), w\<lparr>w_mem := m\<rparr>))"

section \<open>The client\<close>

definition new_BackpressureError :: "jstr \<Rightarrow> js_error" where
  "new_BackpressureError msg = BackpressureError msg (- 2)"

definition utf8ByteLength :: "jstr \<Rightarrow> int" where
  "utf8ByteLength s = int (length (utf8_encode s))"

record takyon_client =
  cl_regions :: regions

definition new_TakyonClient :: "'e bindings \<Rightarrow> jsnum \<Rightarrow> ('e world, takyon_client) action" where
  "new_TakyonClient b n =
     (if \<not> is_integer_num n \<or> num_int n \<le> 0 then act_throw (Error (lit ''size must be a positive integer''))
      else act_bind (b_initSharedMemory b (num_int n)) (\<lambda>mapped.
        if \<not> mapped then act_throw (Error (lit ''Failed to map shared memory''))
        else act_bind (on_mem readRegions) (\<lambda>rg.
             act_bind (on_mem (\<lambda>m. validateRegions rg (int (length m)))) (\<lambda>_.
             act_return \<lparr>cl_regions = rg\<rparr>))))"

definition stringBump :: "takyon_client \<Rightarrow> ('e world, int) action" where
  \<comment> \<open>the view is the offset of its word\<close>
  "stringBump c = act_bind (on_mem (u32_view (stringStart (cl_regions c)))) (\<lambda>_.
     act_return (stringStart (cl_regions c)))"

definition getRecordBumpView :: "takyon_client \<Rightarrow> ('e world, int) action" where
  "getRecordBumpView c = act_bind (on_mem (u32_view (recordStart (cl_regions c) - 8))) (\<lambda>_.
     act_return (recordStart (cl_regions c) - 8))"

definition commit :: "'e bindings \<Rightarrow> int \<Rightarrow> ('e world, unit) action" where
  "commit b timeoutMs =
     (case b_commit b of
        None \<Rightarrow> act_throw (Error (lit ''commit() requires a newer TakyonDB addon; this one does not export takyon_commit.''))
      | Some fn \<Rightarrow> act_bind (fn timeoutMs) (\<lambda>rc.
          if rc = 0 then act_return ()
          else if rc = - 2 then act_throw (new_BackpressureError (lit ''commit() timed out after '' @ int_str timeoutMs
            @ lit ''ms: these writes are in mapped memory but not in the log.''))
          else if rc = - 3 then act_throw (Error (lit ''commit() cannot provide durability: no daemon is logging this data directory, so nothing exists that could make these writes durable.''))
          else act_throw (Error (lit ''commit() failed with native code '' @ int_str rc))))"

definition ringStats :: "'e bindings \<Rightarrow> ('e world, ring_pressure_stats) action" where
  "ringStats b =
     (case b_ringStats b of
        None \<Rightarrow> act_return \<lparr>saturated_total = 0, saturated_wait_ns = 0, dropped_total = 0, durable_tail = 0\<rparr>
      | Some fn \<Rightarrow> fn)"

definition pushDeltaOrBackpressure :: "'e bindings \<Rightarrow> int \<Rightarrow> buffer \<Rightarrow> jstr \<Rightarrow> ('e world, unit) action" where
  "pushDeltaOrBackpressure b off d what =
     act_bind (b_pushDelta b off d) (\<lambda>rc.
       if rc = 0 then act_return ()
       else if rc = - 2 then act_throw (new_BackpressureError (lit ''write to '' @ quoted what
         @ lit '': the log ring stayed full. The value is in mapped memory but not in the log, so it will not survive a crash.''))
       else act_throw (Error (lit ''write to '' @ quoted what @ lit '' failed: pushDelta returned '' @ int_str rc)))"

definition notifyArenaOrBackpressure :: "'e bindings \<Rightarrow> int \<Rightarrow> int \<Rightarrow> jstr \<Rightarrow> ('e world, unit) action" where
  "notifyArenaOrBackpressure b off n what =
     act_bind (b_notifyArena b off n) (\<lambda>rc.
       if rc = 0 then act_return ()
       else if rc = - 2 then act_throw (new_BackpressureError (what
         @ lit '': the log ring stayed full. The bytes are in mapped memory but not in the log.''))
       else act_throw (Error (what @ lit '' failed: notifyArena returned '' @ int_str rc)))"

definition triggerCheckpoint :: "'e bindings \<Rightarrow> ('e world, bool) action" where
  "triggerCheckpoint b = act_bind (b_trigger_checkpoint b) (\<lambda>rc. act_return (rc = 0))"

definition startVacuum :: "'e bindings \<Rightarrow> int \<Rightarrow> ('e world, bool) action" where
  "startVacuum b stringOffset = act_bind (b_start_vacuum b stringOffset) (\<lambda>rc. act_return (rc = 0))"

definition stopVacuum :: "'e bindings \<Rightarrow> ('e world, bool) action" where
  "stopVacuum b = (case b_stop_vacuum b of None \<Rightarrow> act_return False
     | Some fn \<Rightarrow> act_bind fn (\<lambda>rc. act_return (rc = 0)))"

definition shutdownEngine :: "'e bindings \<Rightarrow> ('e world, bool) action" where
  "shutdownEngine b = (case b_disconnect_shm b of None \<Rightarrow> act_return False
     | Some fn \<Rightarrow> act_bind fn (\<lambda>rc. act_return (rc = 0)))"

section \<open>Record proxies\<close>

record record_proxy =
  px_schema :: record_schema
  px_base :: int
  px_regions :: regions
  px_bump :: int

definition createProxy :: "takyon_client \<Rightarrow> record_schema \<Rightarrow> jsnum \<Rightarrow> ('e world, record_proxy) action" where
  "createProxy c sch baseOffset =
     (let rg = cl_regions c; base = num_int baseOffset in
      if \<not> is_integer_num baseOffset \<or> base < 0
      then act_throw (Error (lit ''baseOffset out of range: '' @ num_to_string baseOffset))
      else if base + recordSize sch > recordStart rg + recordBytes rg
      then act_throw (Error (lit ''record ['' @ int_str base @ lit '', '' @ int_str (base + recordSize sch)
        @ lit '') exceeds this arena's record region, which ends at '' @ int_str (recordStart rg + recordBytes rg)))
      else act_bind (stringBump c) (\<lambda>bump.
        act_return \<lparr>px_schema = sch, px_base = base, px_regions = rg, px_bump = bump\<rparr>))"

definition string_get :: "nat \<Rightarrow> buffer \<Rightarrow> jsval res" where
  "string_get a m =
     res_bind (dv_get 4 a m) (\<lambda>strOffset.
     res_bind (dv_get 4 (a + 4) m) (\<lambda>strLen.
       if strOffset = 0 \<and> strLen = 0 then Inr (Str [])
       else if strOffset + strLen > int (length m)
       then Inl (Error (lit ''corrupt string pointer {offset: '' @ int_str strOffset @ lit '', len: '' @ int_str strLen
         @ lit ''} exceeds shared memory''))
       else Inr (Str (utf8_decode (read_at (nat strOffset) (nat strLen) m)))))"

definition field_get :: "field_type \<Rightarrow> nat \<Rightarrow> buffer \<Rightarrow> jsval res option" where
  \<comment> \<open>\<open>None\<close>: no case applies, and the read falls through to the plain object\<close>
  "field_get t a m =
     (case t of
        FString \<Rightarrow> Some (string_get a m)
      | FUint8 \<Rightarrow> Some (res_bind (dv_get 1 a m) (\<lambda>v. Inr (Num (int_num v))))
      | FUint32 \<Rightarrow> Some (res_bind (dv_get 4 a m) (\<lambda>v. Inr (Num (int_num v))))
      | FFloat64 \<Rightarrow> Some (res_bind (dv_get 8 a m) (\<lambda>v. Inr (Num (f64_of_bits v))))
      | FOther _ \<Rightarrow> None)"

definition proxy_get :: "record_proxy \<Rightarrow> jstr \<Rightarrow> ('e world \<times> row, jsval) action" where
  "proxy_get px prop = (\<lambda>(w, target).
     (case map_of (rec_fields (px_schema px)) prop of
        None \<Rightarrow> Inr (row_get target prop)
      | Some f \<Rightarrow> (case field_get (f_type f) (nat (px_base px + f_offset f)) (w_mem w) of
          None \<Rightarrow> Inr (row_get target prop)
        | Some r \<Rightarrow> r), (w, target)))"

definition string_set :: "'e bindings \<Rightarrow> record_proxy \<Rightarrow> jstr \<Rightarrow> nat \<Rightarrow> jsval \<Rightarrow> ('e world, unit) action" where
  "string_set b px prop a v =
     (case v of Str s \<Rightarrow>
        (let bytes = utf8_encode s; strLen = int (length bytes); rg = px_regions px in (\<lambda>w.
          if stringDataStart rg \<ge> int (length (w_mem w))
          then (Inl (Error (lit ''shared memory ('' @ int_str (int (length (w_mem w)))
                 @ lit '' bytes) too small for string arena at '' @ int_str (stringStart rg))), w)
          else case bump_alloc (px_bump px) (stringDataStart rg) strLen (w_mem w) of (allocatedOffset, m) \<Rightarrow>
            act_bind (\<lambda>w. (Inr (), w\<lparr>w_mem := m\<rparr>)) (\<lambda>_.
            if allocatedOffset + strLen > stringStart rg + stringBytes rg
            then act_throw (Error (lit ''Out of string arena memory''))
            else act_bind (write_mem (\<lambda>m. if allocatedOffset + strLen > int (length m)
                   then Inl (RangeError (lit ''Invalid typed array length'')) else Inr (write_at (nat allocatedOffset) bytes m))) (\<lambda>_.
                 act_bind (notifyArenaOrBackpressure b allocatedOffset strLen (lit ''string write to '' @ quoted prop)) (\<lambda>_.
                 act_bind (write_mem (dv_set 4 a allocatedOffset)) (\<lambda>_.
                 act_bind (write_mem (dv_set 4 (a + 4) strLen)) (\<lambda>_.
                 pushDeltaOrBackpressure b (int a) (le_bytes 4 allocatedOffset @ le_bytes 4 strLen) prop))))) w))
      | _ \<Rightarrow> act_throw (Error (lit ''expected string for field, got '' @ typeof v)))"

definition scalar_set ::
  "'e bindings \<Rightarrow> jstr \<Rightarrow> nat \<Rightarrow> nat \<Rightarrow> int \<Rightarrow> ('e world, unit) action" where
  \<comment> \<open>in place, then as an inline delta of the same bytes\<close>
  "scalar_set b prop width a v =
     act_bind (write_mem (dv_set width a v)) (\<lambda>_. pushDeltaOrBackpressure b (int a) (le_bytes width v) prop)"

definition is_integer_val :: "jsval \<Rightarrow> bool" where
  \<comment> \<open>\<open>Number.isInteger\<close> on any value\<close>
  "is_integer_val v = (case v of Num n \<Rightarrow> is_integer_num n | _ \<Rightarrow> False)"

definition val_int :: "jsval \<Rightarrow> int" where
  "val_int v = (case v of Num n \<Rightarrow> num_int n | _ \<Rightarrow> 0)"

definition field_set :: "'e bindings \<Rightarrow> record_proxy \<Rightarrow> jstr \<Rightarrow> field_definition \<Rightarrow> jsval \<Rightarrow> ('e world, unit) action" where
  "field_set b px prop f v =
     (let a = nat (px_base px + f_offset f) in
      if f_type f = FString then string_set b px prop a v
      else act_bind
        (case f_type f of
           FUint8 \<Rightarrow> if \<not> is_integer_val v \<or> val_int v < 0 \<or> val_int v > 255
             then act_throw (Error (lit ''uint8 out of range: '' @ js_String v))
             else scalar_set b prop 1 a (val_int v)
         | FUint32 \<Rightarrow> if \<not> is_integer_val v \<or> val_int v < 0 \<or> val_int v > 0xffffffff
             then act_throw (Error (lit ''uint32 out of range: '' @ js_String v))
             else scalar_set b prop 4 a (val_int v)
         | FFloat64 \<Rightarrow> (case v of Num n \<Rightarrow> scalar_set b prop 8 a (f64_bits n)
             | _ \<Rightarrow> act_throw (Error (lit ''float64 must be a number, got '' @ typeof v)))
         | _ \<Rightarrow> act_return ())
        (\<lambda>_. if f_size f > int MAX_DELTA_INLINE
             then act_throw (Error (lit ''field size '' @ int_str (f_size f) @ lit '' exceeds inline delta capacity''))
             else act_return ()))"

definition proxy_set :: "'e bindings \<Rightarrow> record_proxy \<Rightarrow> jstr \<Rightarrow> jsval \<Rightarrow> ('e world \<times> row, unit) action" where
  "proxy_set b px prop v = (\<lambda>(w, target).
     (case map_of (rec_fields (px_schema px)) prop of
        None \<Rightarrow> (Inr (), (w, target(prop \<mapsto> v)))
      | Some f \<Rightarrow> (case field_set b px prop f v w of (r, w') \<Rightarrow> (r, (w', target)))))"

section \<open>What a write leaves in memory\<close>

lemma write_at_append:
  "off + length xs + length ys \<le> length m \<Longrightarrow>
   write_at (off + length xs) ys (write_at off xs m) = write_at off (xs @ ys) m"
  by (simp add: write_at_def algebra_simps)

definition field_at :: "regions \<Rightarrow> field_type \<Rightarrow> nat \<Rightarrow> bool" where
  "field_at rg t a \<longleftrightarrow> recordStart rg \<le> int a \<and> int a + field_size t \<le> recordStart rg + recordBytes rg"

definition proxy_in :: "regions \<Rightarrow> record_proxy \<Rightarrow> bool" where
  "proxy_in rg px \<longleftrightarrow> px_regions px = rg \<and> px_bump px = stringStart rg"

fun encodes :: "regions \<Rightarrow> field_type \<Rightarrow> jsval \<Rightarrow> buffer \<Rightarrow> buffer \<Rightarrow> bool" where
  \<comment> \<open>the field bytes of a value, in a memory that already holds its string\<close>
  "encodes rg FUint8 v m bs \<longleftrightarrow> bs = le_bytes 1 (val_int v) \<and> is_integer_val v \<and> 0 \<le> val_int v \<and> val_int v \<le> 255"
| "encodes rg FUint32 v m bs \<longleftrightarrow> bs = le_bytes 4 (val_int v) \<and> is_integer_val v \<and> 0 \<le> val_int v \<and> val_int v < 2 ^ 32"
| "encodes rg FFloat64 v m bs \<longleftrightarrow> (\<exists>n. v = Num n \<and> bs = le_bytes 8 (f64_bits n))"
| "encodes rg FString v m bs \<longleftrightarrow> (\<exists>s p. v = Str s
     \<and> bs = le_bytes 4 p @ le_bytes 4 (int (length (utf8_encode s)))
     \<and> stringDataStart rg \<le> p \<and> p + int (length (utf8_encode s)) \<le> string_bump rg m
     \<and> p + int (length (utf8_encode s)) \<le> int (length m)
     \<and> read_at (nat p) (length (utf8_encode s)) m = utf8_encode s)"
| "encodes rg (FOther _) v m bs \<longleftrightarrow> False"

definition payload :: "jsval \<Rightarrow> int" where
  \<comment> \<open>the string bytes a write of the value allocates\<close>
  "payload v = (case v of Str s \<Rightarrow> int (length (utf8_encode s)) | _ \<Rightarrow> 0)"

definition set_outcome :: "regions \<Rightarrow> field_type \<Rightarrow> nat \<Rightarrow> jsval \<Rightarrow> buffer \<Rightarrow> unit res \<Rightarrow> buffer \<Rightarrow> bool" where
  \<comment> \<open>only free string bytes changed and an error was thrown, or the field also holds the value\<close>
  "set_outcome rg t a v m r m' \<longleftrightarrow>
     (\<exists>m1. strings_extended rg m m1 \<and> string_bump rg m1 \<le> string_bump rg m + payload v
       \<and> (m' = m1 \<and> \<not> is_ok r \<or> (\<exists>bs. encodes rg t v m1 bs \<and> m' = write_at a bs m1)))"

lemma payload_nonneg [simp]: "0 \<le> payload v"
  by (simp add: payload_def split: jsval.split)

lemma set_outcome_failed:
  "strings_extended rg m m1 \<Longrightarrow> string_bump rg m1 \<le> string_bump rg m + payload v \<Longrightarrow> \<not> is_ok r \<Longrightarrow>
   set_outcome rg t a v m r m1"
  by (auto simp: set_outcome_def)

lemma set_outcome_refused: "\<not> is_ok r \<Longrightarrow> set_outcome rg t a v m r m"
  by (rule set_outcome_failed) simp_all

lemma set_outcome_written:
  "strings_extended rg m m1 \<Longrightarrow> string_bump rg m1 \<le> string_bump rg m + payload v \<Longrightarrow> encodes rg t v m1 bs \<Longrightarrow>
   set_outcome rg t a v m r (write_at a bs m1)"
  unfolding set_outcome_def by blast

definition field_room :: "regions \<Rightarrow> buffer \<Rightarrow> jsval \<Rightarrow> bool" where
  \<comment> \<open>the bump word does not wrap\<close>
  "field_room rg m v \<longleftrightarrow> string_bump rg m + payload v < 2 ^ 32"

lemma encodes_length: "encodes rg t v m bs \<Longrightarrow> int (length bs) = field_size t"
  by (cases t) auto

context arena_engine
begin

lemma push_delta_world:
  assumes "ready w" and "pushDeltaOrBackpressure b off d what w = (r, w')"
  shows "ready w' \<and> idx w' = idx w \<and> w_mem w' = w_mem w"
  using assms(2) unfolding pushDeltaOrBackpressure_def
  by (rule act_bind_cases) (auto dest: push_law [OF assms(1)] split: if_splits)

lemma notify_arena_world:
  assumes "ready w" and "notifyArenaOrBackpressure b off n what w = (r, w')"
  shows "ready w' \<and> idx w' = idx w \<and> w_mem w' = w_mem w"
  using assms(2) unfolding notifyArenaOrBackpressure_def
  by (rule act_bind_cases) (auto dest: notify_law [OF assms(1)] split: if_splits)

lemma record_field_fits:
  assumes "ready w" "field_at rg t a"
  shows "int a + field_size t \<le> int (length (w_mem w))" "int a + field_size t \<le> stringStart rg"
  using assms arena_law [OF assms(1)] validated [of rg] regions_law [OF assms(1)] by (auto simp: field_at_def)

lemma write_field_world:
  assumes "ready w" "a + k \<le> length (w_mem w)"
  shows "write_mem (dv_set k a v) w = (Inr (), w\<lparr>w_mem := write_at a (le_bytes k v) (w_mem w)\<rparr>)"
    "ready (w\<lparr>w_mem := write_at a (le_bytes k v) (w_mem w)\<rparr>)"
    "idx (w\<lparr>w_mem := write_at a (le_bytes k v) (w_mem w)\<rparr>) = idx w"
  using write_law [OF assms(1), of "write_at a (le_bytes k v) (w_mem w)"] assms(2)
  by (simp_all add: write_mem_def dv_set_def)

lemma scalar_set_effect:
  assumes "ready w" "a + k \<le> length (w_mem w)" and run: "scalar_set b prop k a v w = (r, w')"
  shows "ready w' \<and> idx w' = idx w \<and> w_mem w' = write_at a (le_bytes k v) (w_mem w)"
  using run unfolding scalar_set_def
proof (rule act_bind_cases)
  fix e assume "write_mem (dv_set k a v) w = (Inl e, w')"
  then show ?thesis using write_field_world(1) [OF assms(1,2)] by simp
next
  fix u w1 assume "write_mem (dv_set k a v) w = (Inr u, w1)" and p: "pushDeltaOrBackpressure b (int a) (le_bytes k v) prop w1 = (r, w')"
  then have "w1 = w\<lparr>w_mem := write_at a (le_bytes k v) (w_mem w)\<rparr>" using write_field_world(1) [OF assms(1,2)] by simp
  then show ?thesis using write_field_world(2,3) [OF assms(1,2)] push_delta_world [OF _ p] by simp
qed

lemma string_set_effect:
  assumes "ready w" and ok: "strings_ok rg (w_mem w)" and px: "proxy_in rg px" and fa: "field_at rg FString a"
    and room: "string_bump rg (w_mem w) + int (length (utf8_encode s)) < 2 ^ 32"
    and run: "string_set b px prop a (Str s) w = (r, w')"
  shows "ready w' \<and> idx w' = idx w \<and> set_outcome rg FString a (Str s) (w_mem w) r (w_mem w')"
proof -
  have pay: "payload (Str s) = int (length (utf8_encode s))" by (simp add: payload_def)
  note rl = regions_law [OF assms(1)] and al = arena_law [OF assms(1)]
  note vv = validated [OF conjunct1 [OF rl] conjunct2 [OF rl]]
  let ?bs = "utf8_encode s" and ?m = "w_mem w"
  have prg: "px_regions px = rg" "px_bump px = stringStart rg" using px by (simp_all add: proxy_in_def)
  obtain pos m1 where a: "bump_alloc (stringStart rg) (stringDataStart rg) (int (length ?bs)) ?m = (pos, m1)"
    by (rule prod.exhaust)
  note be = bump_alloc_extended [OF conjunct1 [OF rl] conjunct2 [OF rl] al ok a _ room, simplified]
  have lm1: "length m1 = length ?m" using be(1) by (simp add: strings_extended_def)
  consider (small) "stringDataStart rg \<ge> int (length ?m)"
    | (oom) "stringDataStart rg < int (length ?m)" "pos + int (length ?bs) > stringStart rg + stringBytes rg"
    | (fit) "stringDataStart rg < int (length ?m)" "pos + int (length ?bs) \<le> stringStart rg + stringBytes rg" by linarith
  then show ?thesis
  proof cases
    case small
    then have "w' = w" "\<not> is_ok r" using run by (auto simp: string_set_def Let_def prg)
    then show ?thesis using assms(1) set_outcome_refused by simp
  next
    case oom
    then have "w' = w\<lparr>w_mem := m1\<rparr>" "\<not> is_ok r" using run a by (auto simp: string_set_def Let_def prg act_bind_def)
    then show ?thesis using write_law [OF assms(1) lm1] be set_outcome_failed pay by simp
  next
    case fit
    have fits: "pos + int (length ?bs) \<le> int (length ?m)" using fit(2) vv al by linarith
    let ?m2 = "write_at (nat pos) ?bs m1" and ?w2 = "w\<lparr>w_mem := write_at (nat pos) ?bs m1\<rparr>"
    note f = string_alloc_frame [OF conjunct1 [OF rl] conjunct2 [OF rl] al ok a fits]
    have w2: "ready ?w2" "idx ?w2 = idx w" using write_law [OF assms(1) f(5)] by simp_all
    obtain rn w3 where n: "notifyArenaOrBackpressure b pos (int (length ?bs)) (lit ''string write to '' @ quoted prop) ?w2 = (rn, w3)"
      by (rule prod.exhaust)
    have w3: "ready w3" "idx w3 = idx w" "w_mem w3 = ?m2" using notify_arena_world [OF w2(1) n] w2(2) by simp_all
    have b2: "string_bump rg ?m2 \<le> string_bump rg ?m + int (length ?bs)" using f(3,6) by simp
    have fitsm1: "\<not> pos + int (length ?bs) > int (length m1)" using fits lm1 by simp
    have dsz: "\<not> stringDataStart rg \<ge> int (length ?m)" using fit(1) by simp
    have rgn: "\<not> pos + int (length ?bs) > stringStart rg + stringBytes rg" using fit(2) by simp
    let ?rest = "act_bind (write_mem (dv_set 4 a pos)) (\<lambda>_. act_bind (write_mem (dv_set 4 (a + 4) (int (length ?bs))))
      (\<lambda>_. pushDeltaOrBackpressure b (int a) (le_bytes 4 pos @ le_bytes 4 (int (length ?bs))) prop))"
    have step: "string_set b px prop a (Str s) w = (case rn of Inl e \<Rightarrow> (Inl e, w3) | Inr u \<Rightarrow> ?rest w3)"
      using n by (simp add: string_set_def Let_def prg dsz a rgn act_bind_def write_mem_def fitsm1 split: sum.splits)
    show ?thesis
    proof (cases rn)
      case (Inl e)
      then have "w' = w3" "\<not> is_ok r" using run step by auto
      then show ?thesis using w3 f(1) b2 set_outcome_failed pay by simp
    next
      case (Inr u)
      have l3: "a + 8 \<le> length (w_mem w3)" using record_field_fits [OF w3(1) fa] by simp
      let ?w4 = "w3\<lparr>w_mem := write_at a (le_bytes 4 pos) ?m2\<rparr>"
      have w4: "write_mem (dv_set 4 a pos) w3 = (Inr (), ?w4)" "ready ?w4" "idx ?w4 = idx w" "length (w_mem ?w4) = length (w_mem w3)"
        using write_field_world [OF w3(1), of a 4 pos] l3 w3 by simp_all
      let ?m5 = "write_at (a + 4) (le_bytes 4 (int (length ?bs))) (w_mem ?w4)"
      let ?w5 = "?w4\<lparr>w_mem := ?m5\<rparr>"
      have w5: "write_mem (dv_set 4 (a + 4) (int (length ?bs))) ?w4 = (Inr (), ?w5)" "ready ?w5" "idx ?w5 = idx w"
        using write_field_world [OF w4(2), of "a + 4" 4 "int (length ?bs)"] l3 w4(3,4) by simp_all
      have m5: "?m5 = write_at a (le_bytes 4 pos @ le_bytes 4 (int (length ?bs))) ?m2"
        using write_at_append [of a "le_bytes 4 pos" "le_bytes 4 (int (length ?bs))" ?m2] l3 w3(3) by simp
      have "pushDeltaOrBackpressure b (int a) (le_bytes 4 pos @ le_bytes 4 (int (length ?bs))) prop ?w5 = (r, w')"
        using run step Inr w4(1) w5(1) by (simp add: act_bind_def)
      from push_delta_world [OF w5(2) this] have w': "ready w'" "idx w' = idx w" "w_mem w' = ?m5" using w5(3) by simp_all
      have "encodes rg FString (Str s) ?m2 (le_bytes 4 pos @ le_bytes 4 (int (length ?bs)))"
      proof -
        have "read_at (nat pos) (length ?bs) ?m2 = ?bs"
          using fits lm1 f(4) vv by (intro read_write_same) linarith+
        then show ?thesis using f(3,4) fits lm1 f(5) by auto
      qed
      then show ?thesis using w' m5 set_outcome_written [OF f(1)] b2 pay by simp
    qed
  qed
qed

lemma field_set_effect:
  assumes "ready w" and ok: "strings_ok rg (w_mem w)" and px: "proxy_in rg px"
    and fa: "field_at rg (f_type f) (nat (px_base px + f_offset f))" and kf: "known_field (f_type f)" "f_size f = field_size (f_type f)"
    and room: "field_room rg (w_mem w) v" and run: "field_set b px prop f v w = (r, w')"
  shows "ready w' \<and> idx w' = idx w \<and> set_outcome rg (f_type f) (nat (px_base px + f_offset f)) v (w_mem w) r (w_mem w')"
proof -
  let ?a = "nat (px_base px + f_offset f)"
  have sz: "\<not> f_size f > int MAX_DELTA_INLINE" using kf(2) by (cases "f_type f") (simp_all add: MAX_DELTA_INLINE_def)
  have tail: "act_bind g (\<lambda>_. if f_size f > int MAX_DELTA_INLINE then act_throw e else act_return ()) = g" for g :: "('e world, unit) action" and e
    using sz by (auto simp: act_bind_def fun_eq_iff split: prod.splits sum.splits)
  have scalar: ?thesis if s: "scalar_set b prop k ?a i w = (r, w')" and k: "int k = field_size (f_type f)"
    and e: "encodes rg (f_type f) v (w_mem w) (le_bytes k i)" for k i
  proof -
    have "?a + k \<le> length (w_mem w)" using record_field_fits(1) [OF assms(1) fa] k by linarith
    from scalar_set_effect [OF assms(1) this s] show ?thesis
      using set_outcome_written [OF strings_extended_refl _ e] by simp
  qed
  have fail: ?thesis if "w' = w" "\<not> is_ok r"
    using that assms(1) set_outcome_refused by simp
  show ?thesis
  proof (cases "f_type f")
    case FUint8
    then show ?thesis using run scalar [of 1 "val_int v"] fail unfolding field_set_def Let_def tail
      by (auto split: if_splits)
  next
    case FUint32
    then show ?thesis using run scalar [of 4 "val_int v"] fail unfolding field_set_def Let_def tail
      by (auto split: if_splits)
  next
    case FFloat64
    show ?thesis
    proof (cases v)
      case (Num n)
      then show ?thesis using FFloat64 run scalar [of 8 "f64_bits n"] unfolding field_set_def Let_def tail by auto
    qed (use FFloat64 run fail in \<open>auto simp: field_set_def tail\<close>)
  next
    case FString
    show ?thesis
    proof (cases v)
      case (Str s)
      then have "string_set b px prop ?a (Str s) w = (r, w')" using FString run by (simp add: field_set_def)
      from string_set_effect [OF assms(1) ok px _ _ this] show ?thesis
        using fa room FString Str by (simp add: field_room_def payload_def)
    qed (use FString run fail in \<open>auto simp: field_set_def string_set_def\<close>)
  next
    case (FOther x)
    then show ?thesis using kf(1) by (simp add: known_field_def)
  qed
qed

end

section \<open>Reading it back\<close>

fun read_back :: "field_type \<Rightarrow> jsval \<Rightarrow> jsval" where
  "read_back FUint8 v = Num (int_num (val_int v))"
| "read_back FUint32 v = Num (int_num (val_int v))"
| "read_back FString (Str s) = Str (utf8_decode (utf8_encode s))"
| "read_back _ v = v"

lemma string_bytes_get:
  assumes "stringDataStart rg \<le> p" "0 < stringDataStart rg" "p + int n \<le> int (length m)" "a + 8 \<le> length m" "int (length m) < 2 ^ 32"
    and u: "u32_at a m = p" "u32_at (a + 4) m = int n"
  shows "string_get a m = Inr (Str (utf8_decode (read_at (nat p) n m)))"
  using assms by (simp add: string_get_def dv_get_u32)

lemma u32_write_pair:
  assumes "a + 8 \<le> length m" "0 \<le> p" "p < 2 ^ 32" "0 \<le> n" "n < 2 ^ 32"
  shows "u32_at a (write_at a (le_bytes 4 p @ le_bytes 4 n) m) = p"
    "u32_at (a + 4) (write_at a (le_bytes 4 p @ le_bytes 4 n) m) = n"
proof -
  have l: "write_at a (le_bytes 4 p @ le_bytes 4 n) m = set_u32 (a + 4) n (set_u32 a p m)"
    using write_at_append [of a "le_bytes 4 p" "le_bytes 4 n" m] assms(1) by (simp add: set_u32_def)
  show "u32_at a (write_at a (le_bytes 4 p @ le_bytes 4 n) m) = p"
    unfolding l using assms by (simp add: u32_set_other u32_set_same)
  show "u32_at (a + 4) (write_at a (le_bytes 4 p @ le_bytes 4 n) m) = n"
    unfolding l using assms by (simp add: u32_set_same)
qed

lemma encoded_field_get:
  assumes e: "encodes rg t v m bs" and fit: "int a + field_size t \<le> int (length m)" "int (length m) < 2 ^ 32"
    and low: "int a + field_size t \<le> stringStart rg" "8 < stringStart rg" and d: "case v of Num n \<Rightarrow> is_double n | _ \<Rightarrow> True"
  shows "field_get t a (write_at a bs m) = Some (Inr (read_back t v))"
proof -
  have l: "a + length bs \<le> length m" using encodes_length [OF e] fit(1) by simp
  have scalar: "dv_get k a (write_at a (le_bytes k i) m) = Inr i" if "bs = le_bytes k i" "0 \<le> i" "i < 256 ^ k" for k i
    using that l by (simp add: dv_get_def read_write_same le_value_le_bytes)
  show ?thesis
  proof (cases t)
    case FUint8
    then show ?thesis using e scalar [of 1 "val_int v"] by (simp add: field_get_def)
  next
    case FUint32
    then show ?thesis using e scalar [of 4 "val_int v"] by (simp add: field_get_def)
  next
    case FFloat64
    then obtain n where n: "v = Num n" "bs = le_bytes 8 (f64_bits n)" using e by auto
    then show ?thesis using FFloat64 d f64_roundtrip [of n] scalar [of 8 "f64_bits n"] by (simp add: field_get_def)
  next
    case FString
    then obtain s p where s: "v = Str s" and bs: "bs = le_bytes 4 p @ le_bytes 4 (int (length (utf8_encode s)))"
      and p: "stringDataStart rg \<le> p" "p + int (length (utf8_encode s)) \<le> int (length m)"
        "read_at (nat p) (length (utf8_encode s)) m = utf8_encode s" using e by auto
    let ?k = "length (utf8_encode s)" and ?m' = "write_at a bs m"
    have a8: "a + 8 \<le> length m" using fit FString by simp
    have pb: "0 \<le> p" "p < 2 ^ 32" "stringStart rg + 8 \<le> p" using p fit(2) low(2) by (simp_all add: stringDataStart_def)
    have u: "u32_at a ?m' = p" "u32_at (a + 4) ?m' = int ?k"
      unfolding bs using u32_write_pair [OF a8 pb(1,2), of "int ?k"] p(2) pb(1) fit(2) by simp_all
    have lm: "length ?m' = length m" using l by simp
    have "read_at (nat p) ?k ?m' = read_at (nat p) ?k m"
      by (rule read_write_above) (use l encodes_length [OF e] low FString pb in \<open>simp_all add: nat_le_iff\<close>)
    then have "string_get a ?m' = Inr (Str (utf8_decode (utf8_encode s)))"
      using string_bytes_get [OF p(1) _ _ _ _ u] p lm a8 fit(2) low(2) by (simp add: stringDataStart_def)
    then show ?thesis by (simp add: FString s field_get_def)
  next
    case (FOther x)
    then show ?thesis using e by simp
  qed
qed

section \<open>Frames\<close>

definition pointer_ok :: "regions \<Rightarrow> buffer \<Rightarrow> nat \<Rightarrow> bool" where
  \<comment> \<open>a string field is unset or points at allocated string bytes\<close>
  "pointer_ok rg m a \<longleftrightarrow> u32_at a m = 0 \<and> u32_at (a + 4) m = 0
     \<or> stringDataStart rg \<le> u32_at a m \<and> u32_at a m + u32_at (a + 4) m \<le> string_bump rg m"

definition field_ok :: "regions \<Rightarrow> buffer \<Rightarrow> field_type \<Rightarrow> nat \<Rightarrow> bool" where
  "field_ok rg m t a \<longleftrightarrow> (t = FString \<longrightarrow> pointer_ok rg m a)"

definition apart :: "nat \<Rightarrow> field_type \<Rightarrow> nat \<Rightarrow> field_type \<Rightarrow> bool" where
  "apart a t a' t' \<longleftrightarrow> int a + field_size t \<le> int a' \<or> int a' + field_size t' \<le> int a"

lemma field_size_nonneg [simp]: "0 \<le> field_size t"
  by (cases t) simp_all

lemma field_get_same:
  assumes len: "length m' = length m" and bytes: "read_at a (nat (field_size t)) m' = read_at a (nat (field_size t)) m"
    and str: "t = FString \<Longrightarrow> u32_at a m \<noteq> 0 \<or> u32_at (a + 4) m \<noteq> 0 \<Longrightarrow>
      read_at (nat (u32_at a m)) (nat (u32_at (a + 4) m)) m' = read_at (nat (u32_at a m)) (nat (u32_at (a + 4) m)) m"
  shows "field_get t a m' = field_get t a m"
proof (cases t)
  case FString
  have b: "read_at a 8 m' = read_at a 8 m" using bytes FString by simp
  have "read_at a 4 m' = read_at a 4 m" "read_at (a + 4) 4 m' = read_at (a + 4) 4 m"
    by (rule read_at_mono [OF b]; simp)+
  then have u: "dv_get 4 a m' = dv_get 4 a m" "dv_get 4 (a + 4) m' = dv_get 4 (a + 4) m"
    using len by (simp_all add: dv_get_def)
  show ?thesis
  proof (cases "a + 8 \<le> length m")
    case True
    then show ?thesis using str [OF FString] u len FString by (auto simp: field_get_def string_get_def dv_get_u32)
  next
    case False
    then show ?thesis using u len FString by (auto simp: field_get_def string_get_def dv_get_def)
  qed
qed (use len bytes in \<open>simp_all add: field_get_def dv_get_def\<close>)

lemma strings_extended_field:
  assumes v: "validateRegions rg (arenaBytes rg) = Inr ()" "regions_u32 rg" and e: "strings_extended rg m m1"
    and f: "field_at rg t a" "field_ok rg m t a"
  shows "field_get t a m1 = field_get t a m" "field_ok rg m1 t a"
proof -
  note vv = validated [OF v]
  have ss: "0 \<le> stringStart rg" using vv by simp
  have below: "int a + field_size t \<le> stringStart rg" using f(1) vv by (simp add: field_at_def)
  have r: "read_at (a + i) k m1 = read_at (a + i) k m" if "int i + int k \<le> field_size t" for i k
    by (rule strings_extended_read [OF e _ ss]) (use below that in simp)
  have u: "u32_at a m1 = u32_at a m" "u32_at (a + 4) m1 = u32_at (a + 4) m" if "t = FString"
    using r [of 0 4] r [of 4 4] that by (simp_all add: u32_at_def)
  have grow: "string_bump rg m \<le> string_bump rg m1" using e by (simp add: strings_extended_def)
  show "field_ok rg m1 t a" using f(2) u grow by (auto simp: field_ok_def pointer_ok_def)
  show "field_get t a m1 = field_get t a m"
  proof (rule field_get_same)
    show "length m1 = length m" using e by (simp add: strings_extended_def)
    show "read_at a (nat (field_size t)) m1 = read_at a (nat (field_size t)) m"
      using r [of 0 "nat (field_size t)"] by simp
    assume t: "t = FString" and nz: "u32_at a m \<noteq> 0 \<or> u32_at (a + 4) m \<noteq> 0"
    then have p: "stringDataStart rg \<le> u32_at a m \<and> u32_at a m + u32_at (a + 4) m \<le> string_bump rg m"
      using f(2) by (auto simp: field_ok_def pointer_ok_def)
    show "read_at (nat (u32_at a m)) (nat (u32_at (a + 4) m)) m1 = read_at (nat (u32_at a m)) (nat (u32_at (a + 4) m)) m"
      by (rule strings_extended_read [OF e _ ss], rule disjI2) (use p u32_at_bound(1) [of a m] u32_at_bound(1) [of "a + 4" m] in simp)
  qed
qed

lemma record_write_field:
  assumes v: "validateRegions rg (arenaBytes rg) = Inr ()" "regions_u32 rg" and len: "int (length m) = arenaBytes rg"
    and w: "int (length bs) = field_size t0" "field_at rg t0 a0" and f: "field_at rg t a" "field_ok rg m t a" "apart a0 t0 a t"
  shows "field_get t a (write_at a0 bs m) = field_get t a m" "field_ok rg (write_at a0 bs m) t a"
    "string_bump rg (write_at a0 bs m) = string_bump rg m" "length (write_at a0 bs m) = length m"
proof -
  note vv = validated [OF v]
  let ?m = "write_at a0 bs m"
  have in0: "int a0 + int (length bs) \<le> stringStart rg" using w vv by (simp add: field_at_def)
  then have fit: "a0 + length bs \<le> length m" using vv len by linarith
  show lm: "length ?m = length m" using fit by simp
  have other: "read_at b k ?m = read_at b k m" if "b + k \<le> a0 \<or> a0 + length bs \<le> b" for b k
    using that fit by (auto simp: read_write_below read_write_above)
  have r: "read_at (a + i) k ?m = read_at (a + i) k m" if "int i + int k \<le> field_size t" for i k
    by (rule other) (use f(3) that w(1) in \<open>auto simp: apart_def\<close>)
  have up: "read_at b k ?m = read_at b k m" if "stringStart rg \<le> int b" for b k
    by (rule other) (use in0 that in simp)
  show bump: "string_bump rg ?m = string_bump rg m"
    using up [of "nat (stringStart rg)" 4] vv by (simp add: bump_at_def u32_at_def)
  have u: "u32_at a ?m = u32_at a m" "u32_at (a + 4) ?m = u32_at (a + 4) m" if "t = FString"
    using r [of 0 4] r [of 4 4] that by (simp_all add: u32_at_def)
  show "field_ok rg ?m t a" using f(2) u bump by (auto simp: field_ok_def pointer_ok_def)
  show "field_get t a ?m = field_get t a m"
  proof (rule field_get_same [OF lm])
    show "read_at a (nat (field_size t)) ?m = read_at a (nat (field_size t)) m"
      using r [of 0 "nat (field_size t)"] by simp
    assume t: "t = FString" and nz: "u32_at a m \<noteq> 0 \<or> u32_at (a + 4) m \<noteq> 0"
    then have "stringStart rg \<le> int (nat (u32_at a m))"
      using f(2) vv(7) by (auto simp: field_ok_def pointer_ok_def)
    then show "read_at (nat (u32_at a m)) (nat (u32_at (a + 4) m)) ?m = read_at (nat (u32_at a m)) (nat (u32_at (a + 4) m)) m"
      by (rule up)
  qed
qed

lemma encoded_field_ok:
  assumes v: "validateRegions rg (arenaBytes rg) = Inr ()" "regions_u32 rg" and len: "int (length m) = arenaBytes rg"
    and e: "encodes rg t val m bs" and fa: "field_at rg t a"
  shows "field_ok rg (write_at a bs m) t a" "string_bump rg (write_at a bs m) = string_bump rg m"
    "length (write_at a bs m) = length m"
proof -
  note vv = validated [OF v]
  have l: "int (length bs) = field_size t" by (rule encodes_length [OF e])
  have in0: "int a + int (length bs) \<le> stringStart rg" using fa vv l by (simp add: field_at_def)
  then have fit: "a + length bs \<le> length m" using vv len by linarith
  show "length (write_at a bs m) = length m" using fit by simp
  show bump: "string_bump rg (write_at a bs m) = string_bump rg m"
    using read_write_above [OF fit, of "nat (stringStart rg)" 4] in0 by (simp add: bump_at_def u32_at_def)
  show "field_ok rg (write_at a bs m) t a"
  proof (cases "t = FString")
    case True
    then obtain s p where bs: "bs = le_bytes 4 p @ le_bytes 4 (int (length (utf8_encode s)))"
      and p: "stringDataStart rg \<le> p" "p + int (length (utf8_encode s)) \<le> string_bump rg m" "p + int (length (utf8_encode s)) \<le> int (length m)"
      using e by auto
    have b: "a + 8 \<le> length m" "0 \<le> p" "p < 2 ^ 32" "int (length (utf8_encode s)) < 2 ^ 32"
      using fit bs p len vv by simp_all
    show ?thesis unfolding field_ok_def pointer_ok_def using u32_write_pair [OF b(1-3) _ b(4)] p bump bs by simp
  qed (simp add: field_ok_def)
qed

text \<open>The effect of one write on every field of every record.\<close>

lemma set_outcome_fields:
  assumes v: "validateRegions rg (arenaBytes rg) = Inr ()" "regions_u32 rg" and len: "int (length m) = arenaBytes rg"
    and o: "set_outcome rg t a val m r m'" and fa: "field_at rg t a"
  shows "length m' = length m" "strings_ok rg m \<Longrightarrow> strings_ok rg m'" "string_bump rg m' \<le> string_bump rg m + payload val"
    "field_at rg t' a' \<Longrightarrow> field_ok rg m t' a' \<Longrightarrow> apart a t a' t' \<Longrightarrow> field_get t' a' m' = field_get t' a' m \<and> field_ok rg m' t' a'"
    "field_ok rg m t a \<Longrightarrow> field_ok rg m' t a \<and> (field_get t a m' = field_get t a m \<and> \<not> is_ok r
      \<or> ((case val of Num n \<Rightarrow> is_double n | _ \<Rightarrow> True) \<longrightarrow> field_get t a m' = Some (Inr (read_back t val))))"
    "is_ok r \<Longrightarrow> field_ok rg m' t a
      \<and> ((case val of Num n \<Rightarrow> is_double n | _ \<Rightarrow> True) \<longrightarrow> field_get t a m' = Some (Inr (read_back t val)))"
    "nat (recordStart rg) \<ge> k \<Longrightarrow> take k m' = take k m"
proof -
  note vv = validated [OF v]
  obtain m1 where e: "strings_extended rg m m1" "string_bump rg m1 \<le> string_bump rg m + payload val"
    and c: "m' = m1 \<and> \<not> is_ok r \<or> (\<exists>bs. encodes rg t val m1 bs \<and> m' = write_at a bs m1)"
    using o unfolding set_outcome_def by blast
  have lm1: "length m1 = length m" using e(1) by (simp add: strings_extended_def)
  then have len1: "int (length m1) = arenaBytes rg" using len by simp
  have ok1: "strings_ok rg m1" if "strings_ok rg m" using strings_extended_ok [OF e(1) that] .
  have fit: "int a + field_size t \<le> int (length m1)" "int (length m1) < 2 ^ 32" "int a + field_size t \<le> stringStart rg" "8 < stringStart rg"
    using fa len1 vv by (simp_all add: field_at_def)
  have keep: "strings_ok rg m'" if "strings_ok rg m1" "string_bump rg m' = string_bump rg m1"
    using that by (simp add: strings_ok_def)
  note A = encoded_field_ok [OF v len1 _ fa] and B = record_write_field [OF v len1 encodes_length fa]
  show "length m' = length m" using c lm1 A(3) by auto
  have bump: "string_bump rg m' = string_bump rg m1" using c A(2) by auto
  then show "string_bump rg m' \<le> string_bump rg m + payload val" using e(2) by simp
  show "strings_ok rg m'" if "strings_ok rg m" using keep ok1 that bump by blast
  show "field_get t' a' m' = field_get t' a' m \<and> field_ok rg m' t' a'"
    if "field_at rg t' a'" "field_ok rg m t' a'" "apart a t a' t'"
    using c strings_extended_field [OF v e(1) that(1,2)] B(1,2) that(1,3) by auto
  show "field_ok rg m' t a \<and> (field_get t a m' = field_get t a m \<and> \<not> is_ok r
      \<or> ((case val of Num n \<Rightarrow> is_double n | _ \<Rightarrow> True) \<longrightarrow> field_get t a m' = Some (Inr (read_back t val))))"
    if "field_ok rg m t a"
    using c strings_extended_field [OF v e(1) fa that] A(1) encoded_field_get [OF _ fit] by auto
  show "field_ok rg m' t a \<and> ((case val of Num n \<Rightarrow> is_double n | _ \<Rightarrow> True) \<longrightarrow> field_get t a m' = Some (Inr (read_back t val)))"
    if "is_ok r" using c that A(1) encoded_field_get [OF _ fit] by auto
  show "take k m' = take k m" if k: "k \<le> nat (recordStart rg)"
  proof -
    have "recordStart rg \<le> stringStart rg" using fa vv field_size_nonneg [of t] unfolding field_at_def by linarith
    then have kk: "k \<le> nat (stringStart rg)" using k by simp
    have s: "take (nat (stringStart rg)) m1 = take (nat (stringStart rg)) m" using e(1) by (simp add: strings_extended_def)
    have "take k m1 = take k m" using arg_cong [OF s, of "take k"] by (simp only: take_take min_absorb1 [OF kk])
    moreover have "take k (write_at a bs m1) = take k m1" if "encodes rg t val m1 bs" for bs
    proof (rule take_write_at)
      have "nat (recordStart rg) \<le> a" using fa by (simp add: field_at_def nat_le_iff)
      then show "k \<le> a" using k by (rule order_trans [rotated])
      show "a + length bs \<le> length m1" using encodes_length [OF that] fit(1) by linarith
    qed
    ultimately show ?thesis using c by auto
  qed
qed

section \<open>Records\<close>

definition record_at :: "regions \<Rightarrow> record_schema \<Rightarrow> int \<Rightarrow> bool" where
  "record_at rg sch base \<longleftrightarrow> recordStart rg \<le> base \<and> base + recordSize sch \<le> recordStart rg + recordBytes rg"

definition record_ok :: "regions \<Rightarrow> buffer \<Rightarrow> record_schema \<Rightarrow> int \<Rightarrow> bool" where
  "record_ok rg m sch base \<longleftrightarrow> list_all (\<lambda>(k, f). field_ok rg m (f_type f) (nat (base + f_offset f))) (rec_fields sch)"

definition record_handle :: "regions \<Rightarrow> record_schema \<Rightarrow> int \<Rightarrow> record_proxy" where
  "record_handle rg sch base = \<lparr>px_schema = sch, px_base = base, px_regions = rg, px_bump = stringStart rg\<rparr>"

fun faithful_value :: "field_type \<Rightarrow> jsval \<Rightarrow> bool" where
  \<comment> \<open>a value of the field's type that a read can give back: text without lone surrogates or a leading mark\<close>
  "faithful_value FUint8 v \<longleftrightarrow> (case v of Num n \<Rightarrow> n = int_num (num_int n) \<and> 0 \<le> num_int n \<and> num_int n \<le> 255 | _ \<Rightarrow> False)"
| "faithful_value FUint32 v \<longleftrightarrow> (case v of Num n \<Rightarrow> n = int_num (num_int n) \<and> 0 \<le> num_int n \<and> num_int n \<le> 0xFFFFFFFF | _ \<Rightarrow> False)"
| "faithful_value FFloat64 v \<longleftrightarrow> (case v of Num n \<Rightarrow> is_double n | _ \<Rightarrow> False)"
| "faithful_value FString v \<longleftrightarrow> (case v of Str s \<Rightarrow> well_formed s \<and> take 1 s \<noteq> [0xFEFF] | _ \<Rightarrow> False)"
| "faithful_value (FOther _) v \<longleftrightarrow> False"

lemma read_back_faithful: "faithful_value t v \<Longrightarrow> read_back t v = v"
proof (cases t)
  case FString
  then show "faithful_value t v \<Longrightarrow> read_back t v = v"
    by (auto simp: utf8_decode_encode split: jsval.splits list.split)
qed (auto simp: val_int_def split: jsval.splits)

lemma small_integer_double: "n = int_num (num_int n) \<Longrightarrow> 0 \<le> num_int n \<Longrightarrow> num_int n \<le> 0xFFFFFFFF \<Longrightarrow> is_double n"
proof -
  assume n: "n = int_num (num_int n)" and "0 \<le> num_int n" "num_int n \<le> 0xFFFFFFFF"
  then have "is_double (int_num (num_int n))" by (intro is_double_int) simp
  then show "is_double n" using n by metis
qed

lemma faithful_double: "faithful_value t v \<Longrightarrow> case v of Num n \<Rightarrow> is_double n | _ \<Rightarrow> True"
  by (cases t) (auto simp del: is_double.simps split: jsval.splits intro: small_integer_double)

lemma createProxy_result:
  assumes "createProxy \<lparr>cl_regions = rg\<rparr> sch bo w = (Inr px, w')"
  shows "w' = w" "px = record_handle rg sch (num_int bo)" "0 \<le> num_int bo"
    "num_int bo + recordSize sch \<le> recordStart rg + recordBytes rg"
  using assms by (auto simp: createProxy_def Let_def stringBump_def act_bind_def on_mem_def record_handle_def
      split: if_splits sum.splits)

lemma record_field_at:
  assumes "new_TakyonSchema def = Inr sch" "record_at rg sch base" "0 \<le> recordStart rg" "map_of (rec_fields sch) k = Some f"
  shows "field_at rg (f_type f) (nat (base + f_offset f))"
    "int (nat (base + f_offset f)) = base + f_offset f" "base \<le> base + f_offset f"
    "base + f_offset f + field_size (f_type f) \<le> base + recordSize sch"
  using compiled_field [OF assms(1,4)] assms(2,3) by (auto simp: record_at_def field_at_def)

lemma record_okD: "record_ok rg m sch base \<Longrightarrow> map_of (rec_fields sch) k = Some f \<Longrightarrow>
  field_ok rg m (f_type f) (nat (base + f_offset f))"
  using map_of_SomeD [of "rec_fields sch" k f] by (auto simp: record_ok_def list_all_iff)

lemma record_okI:
  assumes "distinct (map fst (rec_fields sch))"
    and "\<And>k f. map_of (rec_fields sch) k = Some f \<Longrightarrow> field_ok rg m (f_type f) (nat (base + f_offset f))"
  shows "record_ok rg m sch base"
  using assms by (auto simp: record_ok_def list_all_iff)

lemma compiled_keys: "new_TakyonSchema def = Inr sch \<Longrightarrow> map fst (rec_fields sch) = map fst def"
proof -
  assume "new_TakyonSchema def = Inr sch"
  then have "map (\<lambda>(k, f). (k, f_type f)) (rec_fields sch) = def" using compiled_layout by blast
  from arg_cong [OF this, of "map fst"] show ?thesis by (simp add: case_prod_unfold comp_def)
qed

lemma proxy_get_field:
  assumes "map_of (rec_fields sch) k = Some f" "known_field (f_type f)"
  shows "proxy_get (record_handle rg sch base) k (w, t)
    = (case field_get (f_type f) (nat (base + f_offset f)) (w_mem w) of Some r \<Rightarrow> r | None \<Rightarrow> Inr Undefined, (w, t))"
  using assms by (cases "f_type f") (auto simp: proxy_get_def record_handle_def field_get_def known_field_def)

context arena_engine
begin

lemma proxy_set_outcome:
  assumes rw: "ready w" and ok: "strings_ok rg (w_mem w)" and sch: "new_TakyonSchema def = Inr sch" and rec: "record_at rg sch base"
    and f: "map_of (rec_fields sch) k = Some f" and room: "field_room rg (w_mem w) v"
    and run: "proxy_set b (record_handle rg sch base) k v (w, t) = (r, (w', t'))"
  shows "t' = t" "ready w'" "idx w' = idx w"
    "set_outcome rg (f_type f) (nat (base + f_offset f)) v (w_mem w) r (w_mem w')"
    "field_at rg (f_type f) (nat (base + f_offset f))"
proof -
  have rs: "0 \<le> recordStart rg" using validated [of rg] regions_law [OF rw] by simp
  note fa = record_field_at [OF sch rec rs f] and cf = compiled_field [OF sch f]
  obtain r1 w1 where s: "field_set b (record_handle rg sch base) k f v w = (r1, w1)" by (rule prod.exhaust)
  have e: "r = r1" "w' = w1" "t' = t" using run s f by (simp_all add: proxy_set_def record_handle_def)
  have "proxy_in rg (record_handle rg sch base)" by (simp add: proxy_in_def record_handle_def)
  from field_set_effect [OF rw ok this _ cf(4,3) room s] fa(1) e
  show "t' = t" "ready w'" "idx w' = idx w"
    "set_outcome rg (f_type f) (nat (base + f_offset f)) v (w_mem w) r (w_mem w')"
    "field_at rg (f_type f) (nat (base + f_offset f))" by (simp_all add: record_handle_def)
qed

text \<open>Writing a field of one record.\<close>

lemma proxy_set_same:
  assumes a: "ready w" "strings_ok rg (w_mem w)" "new_TakyonSchema def = Inr sch" "record_at rg sch base"
    "map_of (rec_fields sch) k = Some f" "field_room rg (w_mem w) v"
    and run: "proxy_set b (record_handle rg sch base) k v (w, t) = (r, (w', t'))"
    and ro: "record_ok rg (w_mem w) sch base" and v: "case v of Num n \<Rightarrow> is_double n | _ \<Rightarrow> True"
  shows "proxy_get (record_handle rg sch base) k (w', t') = (Inr (read_back (f_type f) v), (w', t'))
    \<or> \<not> is_ok r \<and> fst (proxy_get (record_handle rg sch base) k (w', t')) = fst (proxy_get (record_handle rg sch base) k (w, t))"
    "strings_ok rg (w_mem w')" "string_bump rg (w_mem w') \<le> string_bump rg (w_mem w) + payload v"
proof -
  note o = proxy_set_outcome [OF a run] and kf = compiled_field(4) [OF a(3,5)]
  note rl = regions_law [OF a(1)]
  note s = set_outcome_fields [OF conjunct1 [OF rl] conjunct2 [OF rl] arena_law [OF a(1)] o(4,5)]
  show "strings_ok rg (w_mem w')" "string_bump rg (w_mem w') \<le> string_bump rg (w_mem w) + payload v" using s(2,3) a(2) by simp_all
  show "proxy_get (record_handle rg sch base) k (w', t') = (Inr (read_back (f_type f) v), (w', t'))
    \<or> \<not> is_ok r \<and> fst (proxy_get (record_handle rg sch base) k (w', t')) = fst (proxy_get (record_handle rg sch base) k (w, t))"
    using s(5) [OF record_okD [OF ro a(5)]] v by (auto simp: proxy_get_field [OF a(5) kf])
qed

lemma proxy_set_other:
  assumes a: "ready w" "strings_ok rg (w_mem w)" "new_TakyonSchema def = Inr sch" "record_at rg sch base"
    "map_of (rec_fields sch) k = Some f" "field_room rg (w_mem w) v"
    and run: "proxy_set b (record_handle rg sch base) k v (w, t) = (r, (w', t'))"
    and g: "new_TakyonSchema def' = Inr sch'" "record_at rg sch' base'" "map_of (rec_fields sch') k' = Some g"
    and ro: "field_ok rg (w_mem w) (f_type g) (nat (base' + f_offset g))"
    and d: "sch' = sch \<and> base' = base \<and> k' \<noteq> k \<or> base + recordSize sch \<le> base' \<or> base' + recordSize sch' \<le> base"
  shows "fst (proxy_get (record_handle rg sch' base') k' (w', t2)) = fst (proxy_get (record_handle rg sch' base') k' (w, t2))"
    "field_ok rg (w_mem w') (f_type g) (nat (base' + f_offset g))"
proof -
  note o = proxy_set_outcome [OF a run]
  note rl = regions_law [OF a(1)]
  note s = set_outcome_fields(4) [OF conjunct1 [OF rl] conjunct2 [OF rl] arena_law [OF a(1)] o(4,5)]
  have rs: "0 \<le> recordStart rg" using validated [of rg] rl by simp
  note fa = record_field_at [OF a(3,4) rs a(5)] and ga = record_field_at [OF g(1,2) rs g(3)]
  have "apart (nat (base + f_offset f)) (f_type f) (nat (base' + f_offset g)) (f_type g)"
  proof (cases "sch' = sch \<and> base' = base \<and> k' \<noteq> k")
    case True
    then have "f_offset f + f_size f \<le> f_offset g \<or> f_offset g + f_size g \<le> f_offset f"
      using compiled_fields_apart [OF a(3) a(5), of k' g] g(3) by auto
    then show ?thesis unfolding apart_def fa(2) ga(2)
      using True compiled_field(3) [OF a(3,5)] compiled_field(3) [OF g(1,3)] by auto
  next
    case False
    then show ?thesis unfolding apart_def fa(2) ga(2) using d fa(3,4) ga(3,4) by linarith
  qed
  from s [OF ga(1) ro this] show
    "fst (proxy_get (record_handle rg sch' base') k' (w', t2)) = fst (proxy_get (record_handle rg sch' base') k' (w, t2))"
    "field_ok rg (w_mem w') (f_type g) (nat (base' + f_offset g))"
    by (simp_all add: proxy_get_field [OF g(3) compiled_field(4) [OF g(1,3)]])
qed

text \<open>The engine refuses to announce zero bytes, so an empty string never gets past its allocation.\<close>

lemma string_set_empty:
  assumes "ready w" and ok: "strings_ok rg (w_mem w)" and px: "proxy_in rg px" and low: "string_bump rg (w_mem w) < 2 ^ 32"
    and run: "string_set b px prop a (Str []) w = (r, w')"
  shows "\<not> is_ok r" "strings_extended rg (w_mem w) (w_mem w')"
proof -
  note rl = regions_law [OF assms(1)] and al = arena_law [OF assms(1)]
  have prg: "px_regions px = rg" "px_bump px = stringStart rg" using px by (simp_all add: proxy_in_def)
  obtain pos m1 where a: "bump_alloc (stringStart rg) (stringDataStart rg) 0 (w_mem w) = (pos, m1)" by (rule prod.exhaust)
  note be = bump_alloc_extended [OF conjunct1 [OF rl] conjunct2 [OF rl] al ok a _, simplified, OF low [simplified]]
  have x: "strings_extended rg (w_mem w) m1" and lm: "length m1 = length (w_mem w)"
    using be(1) by (simp_all add: strings_extended_def)
  let ?w1 = "w\<lparr>w_mem := m1\<rparr>"
  have w1: "ready ?w1" using write_law [OF assms(1) lm] by simp
  obtain rn w2 where n: "b_notifyArena b pos 0 ?w1 = (rn, w2)" by (rule prod.exhaust)
  have rn: "rn = Inr (- 1)" using notify_empty [OF w1, of pos] n by simp
  have w2: "w_mem w2 = m1" using notify_law [OF w1 n] by simp
  have nop: "write_at p [] m = m" for p m by (simp add: write_at_def)
  have "\<not> is_ok r \<and> (w' = w \<or> w_mem w' = m1)"
    using run a n rn w2
    by (auto simp: string_set_def Let_def prg act_bind_def write_mem_def nop notifyArenaOrBackpressure_def split: if_splits)
  then show "\<not> is_ok r" "strings_extended rg (w_mem w) (w_mem w')" using x by auto
qed

lemma proxy_set_empty:
  assumes "ready w" "strings_ok rg (w_mem w)" "new_TakyonSchema def = Inr sch" "record_at rg sch base"
    "map_of (rec_fields sch) k = Some f" "f_type f = FString" "record_ok rg (w_mem w) sch base"
    and run: "proxy_set b (record_handle rg sch base) k (Str []) (w, t) = (r, (w', t'))"
  shows "\<not> is_ok r" "fst (proxy_get (record_handle rg sch base) k (w', t')) = fst (proxy_get (record_handle rg sch base) k (w, t))"
proof -
  note rl = regions_law [OF assms(1)] and vv = validated [of rg]
  have s: "string_set b (record_handle rg sch base) k (nat (base + f_offset f)) (Str []) w = (r, w')"
    using run assms(5,6) by (auto simp: proxy_set_def field_set_def record_handle_def split: prod.splits)
  have px: "proxy_in rg (record_handle rg sch base)" by (simp add: proxy_in_def record_handle_def)
  have "string_bump rg (w_mem w) < 2 ^ 32"
    using u32_at_bound(2) [of "nat (stringStart rg)" "w_mem w"] vv rl arena_law [OF assms(1)]
    by (auto simp: bump_at_def Let_def)
  note e = string_set_empty [OF assms(1,2) px this s]
  show "\<not> is_ok r" by (rule e(1))
  have fa: "field_at rg (f_type f) (nat (base + f_offset f))" by (rule record_field_at [OF assms(3,4) _ assms(5)]) (use vv rl in simp)
  show "fst (proxy_get (record_handle rg sch base) k (w', t')) = fst (proxy_get (record_handle rg sch base) k (w, t))"
    using strings_extended_field(1) [OF conjunct1 [OF rl] conjunct2 [OF rl] e(2) fa record_okD [OF assms(7,5)]]
    by (simp add: proxy_get_field [OF assms(5) compiled_field(4) [OF assms(3,5)]])
qed

end

end
