(* ===== verification/ProxyProps.thy ===== *)
theory ProxyProps
  imports Proxy
begin

text \<open>
  What the record proxies promise, on the engine itself: a write is read back and touches nothing
  else, and the writes whose value does not come back.
\<close>

section \<open>A small record\<close>

definition ex_record_def :: schema_def where
  "ex_record_def = [(lit ''age'', FUint32), (lit ''name'', FString)]"

definition ex_record :: record_schema where
  "ex_record = \<lparr>rec_fields = [(lit ''age'', \<lparr>f_type = FUint32, f_offset = 0, f_size = 4\<rparr>),
     (lit ''name'', \<lparr>f_type = FString, f_offset = 8, f_size = 8\<rparr>)], recordSize = 16\<rparr>"

lemma ex_record_compiled: "new_TakyonSchema ex_record_def = Inr ex_record"
  by code_simp

lemma ex_record_fields:
  "map_of (rec_fields ex_record) (lit ''age'') = Some \<lparr>f_type = FUint32, f_offset = 0, f_size = 4\<rparr>"
  "map_of (rec_fields ex_record) (lit ''name'') = Some \<lparr>f_type = FString, f_offset = 8, f_size = 8\<rparr>"
  by code_simp+

lemma small_strings_ok: "strings_ok small_regions (w_mem small_world)" "string_bump small_regions (w_mem small_world) = 2456"
proof -
  show "string_bump small_regions (w_mem small_world) = 2456"
    by (simp add: bump_at_def small_world_def u32_at_zeros) (simp add: stringDataStart_def small_regions_def)
  then show "strings_ok small_regions (w_mem small_world)" by (simp add: strings_ok_def stringDataStart_def small_regions_def)
qed

lemma small_record_ok: "record_ok small_regions (w_mem small_world) ex_record base"
  by (simp add: record_ok_def ex_record_def ex_record_def field_ok_def pointer_ok_def small_world_def u32_at_zeros ex_record_def list_all_iff)

lemma base_number: "is_integer_num (Fin 2376)" "num_int (Fin 2376) = 2376"
  by code_simp+

lemma ex_proxy: "createProxy \<lparr>cl_regions = small_regions\<rparr> ex_record (int_num 2376) small_world
    = (Inr (record_handle small_regions ex_record 2376), small_world)"
  by (simp add: createProxy_def stringBump_def act_bind_def on_mem_def u32_view_def record_handle_def base_number Let_def)
    (simp add: small_regions_def ex_record_def small_world_def)

section \<open>Properties\<close>

text \<open>C16. Writing a field: for every compiled schema, every record in the record region and every value the
  field can hold, the write either is read back through any proxy over the record, or it threw and
  the field still reads as before. It never moves the index, and the record's string pointers keep
  pointing at allocated bytes. The bump word must be short of wrapping.\<close>

theorem proxy_write_read_back:
  assumes "native_ready rg w" and "strings_ok rg (w_mem w)" and "new_TakyonSchema def = Inr sch"
    and "distinct (map fst def)" and "createProxy \<lparr>cl_regions = rg\<rparr> sch bo w = (Inr px, w0)"
    and "recordStart rg \<le> num_int bo" and "record_ok rg (w_mem w) sch (num_int bo)"
    and "map_of (rec_fields sch) k = Some f" and "faithful_value (f_type f) v" and "field_room rg (w_mem w) v"
    and "proxy_set native_bindings px k v (w, t) = (r, (w', t'))"
  shows "(proxy_get px k (w', t') = (Inr v, (w', t')) \<or> \<not> is_ok r \<and> fst (proxy_get px k (w', t')) = fst (proxy_get px k (w, t)))
    \<and> native_index w' = native_index w \<and> strings_ok rg (w_mem w') \<and> record_ok rg (w_mem w') sch (num_int bo)"
proof -
  have px: "px = record_handle rg sch (num_int bo)" and rec: "record_at rg sch (num_int bo)"
    using createProxy_result [OF assms(5)] assms(6) by (simp_all add: record_at_def)
  note a = assms(1,2,3) rec assms(8,10) and run = assms(11) [unfolded px]
  have d: "case v of Num n \<Rightarrow> is_double n | _ \<Rightarrow> True"
    by (rule faithful_double [OF assms(9)])
  have "field_ok rg (w_mem w') (f_type g) (nat (num_int bo + f_offset g))" if g: "map_of (rec_fields sch) k' = Some g" for k' g
  proof (cases "k' = k")
    case True
    then show ?thesis
      using native.proxy_set_outcome [OF a run] record_okD [OF assms(7,8)] g assms(1,8)
        set_outcome_fields(5) [of rg _ "f_type f" "nat (num_int bo + f_offset f)" v r "w_mem w'"]
      by (auto simp: native_ready_def)
  next
    case False
    then show ?thesis using native.proxy_set_other(2) [OF a run assms(3) rec g record_okD [OF assms(7) g]] by simp
  qed
  moreover have "distinct (map fst (rec_fields sch))" using compiled_keys [OF assms(3)] assms(4) by simp
  ultimately have "record_ok rg (w_mem w') sch (num_int bo)" by (intro record_okI)
  then show ?thesis
    using native.proxy_set_same [OF a run assms(7) d] native.proxy_set_outcome(3) [OF a run] read_back_faithful [OF assms(9)]
    by (auto simp: px)
qed

theorem proxy_write_read_back_witness:
  "\<exists>r w' t'. proxy_set native_bindings (record_handle small_regions ex_record 2376) (lit ''age'') (Num (Fin 30))
      (small_world, Map.empty) = (r, (w', t'))
    \<and> (proxy_get (record_handle small_regions ex_record 2376) (lit ''age'') (w', t') = (Inr (Num (Fin 30)), (w', t')) \<or> \<not> is_ok r)
    \<and> native_index w' = native_index small_world"
proof -
  obtain r w' t' where r: "proxy_set native_bindings (record_handle small_regions ex_record 2376) (lit ''age'') (Num (Fin 30))
      (small_world, Map.empty) = (r, (w', t'))" by (metis prod.exhaust)
  have "distinct (map fst ex_record_def)" by code_simp
  moreover have "recordStart small_regions \<le> num_int (int_num 2376)" by (simp add: small_regions_def base_number)
  moreover have "record_ok small_regions (w_mem small_world) ex_record (num_int (int_num 2376))"
    by (rule small_record_ok)
  moreover have "faithful_value FUint32 (Num (Fin 30))" by code_simp
  moreover have "field_room small_regions (w_mem small_world) (Num (Fin 30))"
    by (simp add: field_room_def small_strings_ok payload_def)
  ultimately show ?thesis
    using proxy_write_read_back [OF small_ready small_strings_ok(1) ex_record_compiled _ ex_proxy _ _ ex_record_fields(1) _ _ r] r
    by auto
qed

text \<open>C17. Writes are isolated: whatever value is assigned and however the assignment ends, every other field
  of the record, and every field of a record that does not overlap it, reads as before.\<close>

theorem proxy_writes_isolated:
  assumes "native_ready rg w" and "strings_ok rg (w_mem w)" and "new_TakyonSchema def = Inr sch" and "record_at rg sch base"
    and "map_of (rec_fields sch) k = Some f" and "field_room rg (w_mem w) v"
    and "proxy_set native_bindings (record_handle rg sch base) k v (w, t) = (r, (w', t'))"
    and "new_TakyonSchema def' = Inr sch'" and "record_at rg sch' base'" and "map_of (rec_fields sch') k' = Some g"
    and "record_ok rg (w_mem w) sch' base'"
    and "sch' = sch \<and> base' = base \<and> k' \<noteq> k \<or> base + recordSize sch \<le> base' \<or> base' + recordSize sch' \<le> base"
  shows "fst (proxy_get (record_handle rg sch' base') k' (w', u)) = fst (proxy_get (record_handle rg sch' base') k' (w, u))"
  by (rule native.proxy_set_other(1) [OF assms(1-7) assms(8-10) record_okD [OF assms(11,10)] assms(12)])

theorem proxy_writes_isolated_witness:
  "\<exists>r w' t'. proxy_set native_bindings (record_handle small_regions ex_record 2376) (lit ''age'') (Num (Fin 30))
      (small_world, Map.empty) = (r, (w', t'))
    \<and> fst (proxy_get (record_handle small_regions ex_record 2376) (lit ''name'') (w', Map.empty))
      = fst (proxy_get (record_handle small_regions ex_record 2376) (lit ''name'') (small_world, Map.empty))"
proof -
  obtain r w' t' where r: "proxy_set native_bindings (record_handle small_regions ex_record 2376) (lit ''age'') (Num (Fin 30))
      (small_world, Map.empty) = (r, (w', t'))" by (metis prod.exhaust)
  have rec: "record_at small_regions ex_record 2376" by (simp add: record_at_def small_regions_def ex_record_def)
  have room: "field_room small_regions (w_mem small_world) (Num (Fin 30))"
    by (simp add: field_room_def small_strings_ok payload_def)
  have "lit ''name'' \<noteq> lit ''age''" by code_simp
  then show ?thesis
    using proxy_writes_isolated [OF small_ready small_strings_ok(1) ex_record_compiled rec ex_record_fields(1) room r
        ex_record_compiled rec ex_record_fields(2) small_record_ok] r by blast
qed

text \<open>Assigning the empty string always throws: the engine refuses to announce zero bytes, so a string
  field that holds text can never be cleared, and it keeps its old value.\<close>

theorem empty_string_never_written:
  assumes "native_ready rg w" and "strings_ok rg (w_mem w)" and "new_TakyonSchema def = Inr sch" and "record_at rg sch base"
    and "map_of (rec_fields sch) k = Some f" and "f_type f = FString" and "record_ok rg (w_mem w) sch base"
    and "proxy_set native_bindings (record_handle rg sch base) k (Str []) (w, t) = (r, (w', t'))"
  shows "\<not> is_ok r \<and> fst (proxy_get (record_handle rg sch base) k (w', t')) = fst (proxy_get (record_handle rg sch base) k (w, t))"
  using native.proxy_set_empty [OF assms] by blast

theorem empty_string_never_written_witness:
  "\<not> is_ok (fst (proxy_set native_bindings (record_handle small_regions ex_record 2376) (lit ''name'') (Str []) (small_world, Map.empty)))"
proof -
  obtain r w' t' where r: "proxy_set native_bindings (record_handle small_regions ex_record 2376) (lit ''name'') (Str [])
      (small_world, Map.empty) = (r, (w', t'))" by (metis prod.exhaust)
  have rec: "record_at small_regions ex_record 2376" by (simp add: record_at_def small_regions_def ex_record_def)
  show ?thesis
    using empty_string_never_written [OF small_ready small_strings_ok(1) ex_record_compiled rec ex_record_fields(2) _ small_record_ok r] r
    by simp
qed

text \<open>A byte order mark is lost: text that starts with U+FEFF is stored whole, but the reader decodes it
  with a decoder that strips the mark, so a successful write reads back without its first unit.\<close>

theorem leading_mark_lost:
  assumes "native_ready rg w" and "strings_ok rg (w_mem w)" and "new_TakyonSchema def = Inr sch" and "record_at rg sch base"
    and "map_of (rec_fields sch) k = Some f" and "f_type f = FString" and "record_ok rg (w_mem w) sch base"
    and "well_formed (0xFEFF # s)" and "field_room rg (w_mem w) (Str (0xFEFF # s))"
    and "proxy_set native_bindings (record_handle rg sch base) k (Str (0xFEFF # s)) (w, t) = (Inr u, (w', t'))"
  shows "proxy_get (record_handle rg sch base) k (w', t') = (Inr (Str s), (w', t'))"
  using native.proxy_set_same(1) [OF assms(1-5,9,10,7)] assms(6) utf8_decode_encode [OF assms(8)] by simp

lemma ex_mark_write:
  "is_ok (fst (proxy_set native_bindings (record_handle small_regions ex_record 2376) (lit ''name'') (Str (0xFEFF # lit ''a''))
     (small_world, Map.empty)))"
proof -
  have len: "length (utf8_encode (0xFEFF # lit ''a'')) = 4" by code_simp
  obtain pos m where a: "bump_alloc 2448 2456 4 (replicate 2576 0) = (pos, m)" by (rule prod.exhaust)
  note b = bump_alloc_result [OF _ _ _ _ a, simplified]
  have m: "pos = 2456" "length m = 2576" using b(1,2) by (simp_all add: bump_at_def u32_at_zeros)
  show ?thesis
    using a m ex_record_fields(2)
    by (simp add: proxy_set_def field_set_def string_set_def record_handle_def len act_bind_def stringDataStart_def native_bindings_def
        NotifyArena_def PushDelta_def takyon_notify_arena_def takyon_write_delta_def pushWithBackPressure_def MAX_DELTA_INLINE_def
        u32_of_def eng_def small_world_def small_engine_def small_regions_def notifyArenaOrBackpressure_def
        pushDeltaOrBackpressure_def write_mem_def dv_set_def Let_def)
qed

theorem leading_mark_lost_witness:
  "\<exists>w' t'. proxy_set native_bindings (record_handle small_regions ex_record 2376) (lit ''name'') (Str (0xFEFF # lit ''a''))
      (small_world, Map.empty) = (Inr (), (w', t'))
    \<and> proxy_get (record_handle small_regions ex_record 2376) (lit ''name'') (w', t') = (Inr (Str (lit ''a'')), (w', t'))"
proof -
  obtain w' t' where r: "proxy_set native_bindings (record_handle small_regions ex_record 2376) (lit ''name'')
      (Str (0xFEFF # lit ''a'')) (small_world, Map.empty) = (Inr (), (w', t'))"
    using ex_mark_write by (cases "proxy_set native_bindings (record_handle small_regions ex_record 2376) (lit ''name'')
      (Str (0xFEFF # lit ''a'')) (small_world, Map.empty)") (auto simp: is_ok_def)
  have rec: "record_at small_regions ex_record 2376" by (simp add: record_at_def small_regions_def ex_record_def)
  have wf: "well_formed (0xFEFF # lit ''a'')" by code_simp
  have "length (utf8_encode (0xFEFF # lit ''a'')) = 4" by code_simp
  then have room: "field_room small_regions (w_mem small_world) (Str (0xFEFF # lit ''a''))"
    by (simp add: field_room_def small_strings_ok payload_def)
  show ?thesis
    using leading_mark_lost [OF small_ready small_strings_ok(1) ex_record_compiled rec ex_record_fields(2) _ small_record_ok wf room r] r
    by simp
qed

end
