(* ===== verification/Takyon.thy ===== *)
theory Takyon
  imports Proxy
begin

text \<open>
  Collections of records (\<open>sdk/takyon.ts\<close>): record allocation, and the methods that map a key of a
  collection to a record through the engine index. A value returned as a record is its proxy and the
  plain object behind it. The loader of the native addon is a parameter of the constructor.
\<close>

section \<open>Keys\<close>

definition keyError :: "jsval \<Rightarrow> jstr option" where
  "keyError key =
     (let s = js_String key in
      if typeof key \<noteq> lit ''string'' \<or> length s = 0 \<or> length s > MAX_KEY_LEN
      then Some (lit ''key must be 1..'' @ int_str (int MAX_KEY_LEN) @ lit '' chars'')
      else if 0 \<in> set s then Some (lit ''key must not contain NUL ('' @ [92] @ lit ''0) characters'')
      else if utf8ByteLength s > int MAX_KEY_LEN
      then Some (lit ''key must be <= '' @ int_str (int MAX_KEY_LEN) @ lit '' UTF-8 bytes'')
      else None)"

section \<open>The database and its collections\<close>

record collection =
  coll_client :: takyon_client
  coll_name :: jstr
  coll_schema :: record_schema

definition new_TakyonDB ::
  "'e bindings res \<Rightarrow> 'e bindings option \<Rightarrow> jsnum \<Rightarrow> ('e world, 'e bindings \<times> takyon_client) action" where
  "new_TakyonDB loadBindings bindings memorySize =
     act_bind (act_res (case bindings of Some b \<Rightarrow> Inr b | None \<Rightarrow> loadBindings)) (\<lambda>resolved.
     act_bind (new_TakyonClient resolved memorySize) (\<lambda>c. act_return (resolved, c)))"

definition db_collection :: "takyon_client \<Rightarrow> jsval \<Rightarrow> record_schema \<Rightarrow> collection res" where
  "db_collection client name sch =
     (let s = js_String name in
      if typeof name \<noteq> lit ''string'' \<or> length s = 0
      then Inl (Error (lit ''collection name must be a non-empty string''))
      else if 0 \<in> set s
      then Inl (Error (lit ''collection name must not contain NUL ('' @ [92] @ lit ''0) characters''))
      else Inr \<lparr>coll_client = client, coll_name = s, coll_schema = sch\<rparr>)"

definition allocateRecordOffset :: "takyon_client \<Rightarrow> jsnum \<Rightarrow> ('e world, int) action" where
  "allocateRecordOffset client sz =
     (if \<not> is_integer_num sz \<or> num_int sz \<le> 0
      then act_throw (Error (lit ''record size must be positive, got '' @ num_to_string sz))
      else let regions = cl_regions client; stride = alignUp (num_int sz) RECORD_ALIGNMENT in
        act_bind (getRecordBumpView client) (\<lambda>word w.
          case bump_alloc word (recordStart regions) stride (w_mem w) of (allocatedOffset, m) \<Rightarrow>
          (if allocatedOffset + stride > recordStart regions + recordBytes regions
           then Inl (Error (lit ''Out of record memory: this arena's record region is '' @ int_str (recordBytes regions)
             @ lit '' bytes. Raise \"regions\": { \"record_bytes\": N } in takyon.json and restart the daemon.''))
           else Inr allocatedOffset, w\<lparr>w_mem := m\<rparr>)))"

definition namespacedKey :: "collection \<Rightarrow> jsval \<Rightarrow> jstr" where
  "namespacedKey c key = coll_name c @ lit '':'' @ js_String key"

definition assign_entry :: "'e bindings \<Rightarrow> record_proxy \<Rightarrow> jstr \<times> jsval \<Rightarrow> ('e world \<times> row, unit) action" where
  \<comment> \<open>\<open>if (v !== undefined) proxy[k] = v\<close>\<close>
  "assign_entry b px e = (case e of (k, v) \<Rightarrow> if v = Undefined then act_return () else proxy_set b px k v)"

definition assign_all ::
  "'e bindings \<Rightarrow> record_proxy \<times> row \<Rightarrow> (jstr \<times> jsval) list \<Rightarrow> ('e world, record_proxy \<times> row) action" where
  "assign_all b p entries w =
     (case run_each (assign_entry b (fst p)) entries (w, snd p) of
        (r, (w', t)) \<Rightarrow> (res_bind r (\<lambda>_. Inr (fst p, t)), w'))"

definition coll_insert ::
  "'e bindings \<Rightarrow> collection \<Rightarrow> jsval \<Rightarrow> (jstr \<times> jsval) list \<Rightarrow> ('e world, record_proxy \<times> row) action" where
  "coll_insert b c key entries =
     (case keyError key of
        Some invalid \<Rightarrow> act_throw (Error invalid)
      | None \<Rightarrow>
          let namespaced = namespacedKey c key in
          act_bind (allocateRecordOffset (coll_client c) (int_num (recordSize (coll_schema c)))) (\<lambda>off.
          act_bind (b_insert_index b namespaced off) (\<lambda>rc.
            if rc = - 2 then act_throw (new_BackpressureError (lit ''insert('' @ quoted (js_String key)
              @ lit ''): the log ring stayed full. The record is allocated in mapped memory but not in the log, so it will not survive a crash.''))
            else if rc \<noteq> 0 then act_throw (Error (lit ''insert_index failed for key '' @ quoted (js_String key)))
            else act_bind (createProxy (coll_client c) (coll_schema c) (int_num off)) (\<lambda>px.
                 assign_all b (px, Map.empty) entries))))"

definition coll_find :: "'e bindings \<Rightarrow> collection \<Rightarrow> jsval \<Rightarrow> ('e world, (record_proxy \<times> row) option) action" where
  "coll_find b c key =
     (if keyError key \<noteq> None then act_return None
      else act_bind (b_search_index b (namespacedKey c key)) (\<lambda>off.
        if off < 0 then act_return None
        else act_bind (createProxy (coll_client c) (coll_schema c) (int_num off)) (\<lambda>px.
             act_return (Some (px, Map.empty)))))"

definition coll_delete :: "'e bindings \<Rightarrow> collection \<Rightarrow> jsval \<Rightarrow> ('e world, bool) action" where
  "coll_delete b c key =
     (case keyError key of
        Some invalid \<Rightarrow> act_throw (Error invalid)
      | None \<Rightarrow> act_bind (b_remove_index b (namespacedKey c key)) (\<lambda>rc.
          if rc = 1 then act_return True
          else if rc = 0 then act_return False
          else act_throw (Error (lit ''remove_index failed for key '' @ quoted (js_String key)))))"

definition coll_update ::
  "'e bindings \<Rightarrow> collection \<Rightarrow> jsval \<Rightarrow> (jstr \<times> jsval) list \<Rightarrow> ('e world, (record_proxy \<times> row) option) action" where
  "coll_update b c key entries =
     act_bind (coll_find b c key) (\<lambda>found. case found of
        None \<Rightarrow> act_return None
      | Some p \<Rightarrow> act_bind (assign_all b p entries) (\<lambda>p'. act_return (Some p')))"

definition coll_upsert ::
  "'e bindings \<Rightarrow> collection \<Rightarrow> jsval \<Rightarrow> (jstr \<times> jsval) list \<Rightarrow> ('e world, (record_proxy \<times> row) \<times> bool) action" where
  "coll_upsert b c key entries =
     act_bind (coll_find b c key) (\<lambda>existing. case existing of
        None \<Rightarrow> act_bind (coll_insert b c key entries) (\<lambda>p. act_return (p, True))
      | Some p \<Rightarrow> act_bind (assign_all b p entries) (\<lambda>p'. act_return (p', False)))"

section \<open>Allocation\<close>

abbreviation record_bump :: "regions \<Rightarrow> buffer \<Rightarrow> int" where
  "record_bump rg m \<equiv> bump_at (recordStart rg - 8) (recordStart rg) m"

text \<open>A run of allocations; each entry is what one call returned.\<close>

fun allocate_all :: "takyon_client \<Rightarrow> jsnum list \<Rightarrow> 'e world \<Rightarrow> int res list \<times> 'e world" where
  "allocate_all c [] w = ([], w)"
| "allocate_all c (n # ns) w =
     (case allocateRecordOffset c n w of (r, w1) \<Rightarrow> case allocate_all c ns w1 of (rs, w2) \<Rightarrow> (r # rs, w2))"

lemma alignUp_8: "8 dvd alignUp n 8" "n \<le> alignUp n 8" "alignUp n 8 < n + 8"
  using alignUp_bounds [of 8 n] by simp_all

text \<open>One allocation moves the bump word and nothing else.\<close>

lemma allocate_result:
  assumes v: "validateRegions rg (arenaBytes rg) = Inr ()" "regions_u32 rg" and len: "int (length (w_mem w)) = arenaBytes rg"
    and low: "recordStart rg \<le> record_bump rg (w_mem w)" and n: "0 < num_int n \<Longrightarrow> record_bump rg (w_mem w) + num_int n + 8 \<le> 2 ^ 32"
    and run: "allocateRecordOffset \<lparr>cl_regions = rg\<rparr> n w = (r, w')"
  shows "length (w_mem w') = length (w_mem w)" "w_eng w' = w_eng w"
    "\<And>a k. a + k + 8 \<le> nat (recordStart rg) \<or> nat (recordStart rg) \<le> a + 4 \<Longrightarrow> read_at a k (w_mem w') = read_at a k (w_mem w)"
    "case r of
       Inl e \<Rightarrow> record_bump rg (w_mem w') = record_bump rg (w_mem w) \<and> w' = w
         \<or> 0 < num_int n \<and> record_bump rg (w_mem w') = record_bump rg (w_mem w) + alignUp (num_int n) 8
     | Inr p \<Rightarrow> 0 < num_int n \<and> p = record_bump rg (w_mem w) \<and> record_bump rg (w_mem w') = p + alignUp (num_int n) 8
         \<and> p + alignUp (num_int n) 8 \<le> recordStart rg + recordBytes rg"
proof -
  note vv = validated [OF v]
  let ?wd = "recordStart rg - 8" and ?st = "alignUp (num_int n) 8"
  obtain p m where a: "bump_alloc ?wd (recordStart rg) ?st (w_mem w) = (p, m)" by (rule prod.exhaust)
  have "0 \<le> recordBytes rg" using v(2) by (simp add: regions_u32_def)
  then have fit: "nat ?wd + 4 \<le> length (w_mem w)" and rs32: "recordStart rg < 2 ^ 32" using vv len by linarith+
  have pre: "0 \<le> ?wd" "0 < recordStart rg" "recordStart rg < 2 ^ 32" using vv rs32 by simp_all
  note b = bump_alloc_result [OF pre(1) fit pre(2,3) a]
  have case1: "w' = w \<and> (\<exists>e. r = Inl e) \<or> 0 < num_int n \<and> w' = w\<lparr>w_mem := m\<rparr>
      \<and> (r = Inr p \<and> p + ?st \<le> recordStart rg + recordBytes rg \<or> (\<exists>e. r = Inl e))"
    using run a by (auto simp: allocateRecordOffset_def getRecordBumpView_def act_bind_def on_mem_def u32_view_def
        RECORD_ALIGNMENT_def Let_def split: if_splits)
  then show "length (w_mem w') = length (w_mem w)" "w_eng w' = w_eng w" using b(2) by auto
  have other: "read_at a k m = read_at a k (w_mem w)" if "a + k + 8 \<le> nat (recordStart rg) \<or> nat (recordStart rg) \<le> a + 4" for a k
    by (rule b(4)) (use that vv in linarith)
  then show "read_at a k (w_mem w') = read_at a k (w_mem w)"
    if "a + k + 8 \<le> nat (recordStart rg) \<or> nat (recordStart rg) \<le> a + 4" for a k
    using case1 that by auto
  have "record_bump rg m = record_bump rg (w_mem w) + ?st" if "0 < num_int n"
  proof -
    have "u32_at (nat ?wd) m = record_bump rg (w_mem w) + ?st"
      using b(1,3) low n [OF that] alignUp_8 [of "num_int n"] that vv by simp
    then show ?thesis using low alignUp_8(2) [of "num_int n"] that vv unfolding bump_at_def [of _ _ m] Let_def by simp
  qed
  then show "case r of
       Inl e \<Rightarrow> record_bump rg (w_mem w') = record_bump rg (w_mem w) \<and> w' = w
         \<or> 0 < num_int n \<and> record_bump rg (w_mem w') = record_bump rg (w_mem w) + alignUp (num_int n) 8
     | Inr p \<Rightarrow> 0 < num_int n \<and> p = record_bump rg (w_mem w) \<and> record_bump rg (w_mem w') = p + alignUp (num_int n) 8
         \<and> p + alignUp (num_int n) 8 \<le> recordStart rg + recordBytes rg"
    using case1 b(1) by (auto split: sum.split)
qed

fun granted :: "jsnum list \<Rightarrow> int res list \<Rightarrow> (int \<times> int) list" where
  \<comment> \<open>the records handed out: offset and size\<close>
  "granted (n # ns) (r # rs) = (case r of Inl e \<Rightarrow> granted ns rs | Inr p \<Rightarrow> (p, num_int n) # granted ns rs)"
| "granted _ _ = []"

definition allocation_need :: "jsnum list \<Rightarrow> int" where
  "allocation_need ns = sum_list (map (\<lambda>n. max 0 (num_int n) + 8) ns)"

lemma allocation_need_nonneg: "0 \<le> allocation_need ns"
  by (induction ns) (auto simp: allocation_need_def)

lemma allocate_all_ranges:
  assumes "validateRegions rg (arenaBytes rg) = Inr ()" "regions_u32 rg"
  shows "int (length (w_mem w)) = arenaBytes rg \<Longrightarrow> recordStart rg \<le> record_bump rg (w_mem w) \<Longrightarrow> 8 dvd record_bump rg (w_mem w) \<Longrightarrow>
    record_bump rg (w_mem w) + allocation_need ns \<le> 2 ^ 32 \<Longrightarrow> allocate_all \<lparr>cl_regions = rg\<rparr> ns w = (rs, w') \<Longrightarrow>
    list_all (\<lambda>(p, n). record_bump rg (w_mem w) \<le> p \<and> 8 dvd p \<and> 0 < n \<and> p + n \<le> recordStart rg + recordBytes rg) (granted ns rs)
    \<and> sorted_wrt (\<lambda>(p, n) (q, m). p + n \<le> q) (granted ns rs)"
proof (induction ns arbitrary: w rs)
  case (Cons n ns)
  obtain r w1 where c: "allocateRecordOffset \<lparr>cl_regions = rg\<rparr> n w = (r, w1)" by (rule prod.exhaust)
  obtain rs1 where d: "allocate_all \<lparr>cl_regions = rg\<rparr> ns w1 = (rs1, w')" and rs: "rs = r # rs1"
    using Cons.prems(5) c by (auto split: prod.splits)
  let ?b = "record_bump rg (w_mem w)" and ?b1 = "record_bump rg (w_mem w1)"
  have need: "allocation_need (n # ns) = max 0 (num_int n) + 8 + allocation_need ns" by (simp add: allocation_need_def)
  have room: "0 < num_int n \<Longrightarrow> ?b + num_int n + 8 \<le> 2 ^ 32" using Cons.prems(4) need allocation_need_nonneg [of ns] by linarith
  note a = allocate_result [OF assms Cons.prems(1,2) room c]
  have b1: "?b1 = ?b \<or> 0 < num_int n \<and> ?b1 = ?b + alignUp (num_int n) 8" using a(4) by (auto split: sum.splits)
  have dv: "8 dvd ?b1" using b1 Cons.prems(3) alignUp_8(1) [of "num_int n"] by (auto intro: dvd_add)
  have mono: "?b \<le> ?b1" using b1 alignUp_8(2) [of "num_int n"] by auto
  have room1: "?b1 + allocation_need ns \<le> 2 ^ 32" using b1 Cons.prems(4) need alignUp_8(3) [of "num_int n"] by auto
  have len1: "int (length (w_mem w1)) = arenaBytes rg" using a(1) Cons.prems(1) by simp
  have low1: "recordStart rg \<le> ?b1" using mono Cons.prems(2) by linarith
  note ih = Cons.IH [OF len1 low1 dv room1 d]
  show ?case
  proof (cases r)
    case (Inl e)
    then show ?thesis using ih mono rs by (auto simp: list_all_iff)
  next
    case (Inr p)
    have p: "0 < num_int n" "p = ?b" "?b1 = p + alignUp (num_int n) 8" "p + alignUp (num_int n) 8 \<le> recordStart rg + recordBytes rg"
      using a(4) Inr by simp_all
    have "p + num_int n \<le> ?b1" "p + num_int n \<le> recordStart rg + recordBytes rg"
      using p(3,4) alignUp_8(2) [of "num_int n"] by linarith+
    then show ?thesis using ih mono rs Inr p(1,2) Cons.prems(3) by (auto simp: list_all_iff)
  qed
qed simp

section \<open>Inserting and finding\<close>

lemma allocate_frame:
  assumes v: "validateRegions rg (arenaBytes rg) = Inr ()" "regions_u32 rg"
    and same: "\<And>a k. a + k + 8 \<le> nat (recordStart rg) \<or> nat (recordStart rg) \<le> a + 4 \<Longrightarrow> read_at a k m' = read_at a k m"
    and len: "length m' = length m"
  shows "strings_ok rg m \<Longrightarrow> strings_ok rg m'" "string_bump rg m' = string_bump rg m"
    "field_at rg t a \<Longrightarrow> field_ok rg m t a \<Longrightarrow> field_get t a m' = field_get t a m \<and> field_ok rg m' t a"
proof -
  note vv = validated [OF v]
  have rb: "0 \<le> recordBytes rg" using v(2) by (simp add: regions_u32_def)
  have above: "read_at a k m' = read_at a k m" if "recordStart rg \<le> int a" for a k
    by (rule same, rule disjI2) (use that in linarith)
  show bump: "string_bump rg m' = string_bump rg m"
    using above [of "nat (stringStart rg)" 4] vv rb by (simp add: bump_at_def u32_at_def)
  then show "strings_ok rg m \<Longrightarrow> strings_ok rg m'" by (simp add: strings_ok_def)
  assume f: "field_at rg t a" "field_ok rg m t a"
  have fa: "recordStart rg \<le> int a" using f(1) by (simp add: field_at_def)
  have u: "u32_at a m' = u32_at a m" "u32_at (a + 4) m' = u32_at (a + 4) m"
    using above fa by (simp_all add: u32_at_def)
  have "field_get t a m' = field_get t a m"
  proof (rule field_get_same [OF len above [OF fa]])
    assume "t = FString" "u32_at a m \<noteq> 0 \<or> u32_at (a + 4) m \<noteq> 0"
    then have "stringDataStart rg \<le> u32_at a m" using f(2) by (auto simp: field_ok_def pointer_ok_def)
    then show "read_at (nat (u32_at a m)) (nat (u32_at (a + 4) m)) m' = read_at (nat (u32_at a m)) (nat (u32_at (a + 4) m)) m"
      by (intro above) (use vv rb in simp)
  qed
  then show "field_get t a m' = field_get t a m \<and> field_ok rg m' t a"
    using f(2) u bump by (simp add: field_ok_def pointer_ok_def)
qed

definition entries_payload :: "(jstr \<times> jsval) list \<Rightarrow> int" where
  "entries_payload es = sum_list (map (\<lambda>(k, v). payload v) es)"

lemma entries_payload_nonneg [simp]: "0 \<le> entries_payload es"
  by (induction es) (auto simp: entries_payload_def case_prod_unfold)

lemma createProxy_world: "snd (createProxy c sch n w) = w"
  by (auto simp: createProxy_def Let_def stringBump_def act_bind_def on_mem_def split: sum.splits)

lemma createProxy_length:
  assumes "length (w_mem w') = length (w_mem w)"
  shows "fst (createProxy c sch n w') = fst (createProxy c sch n w)"
proof -
  have "u32_view off (w_mem w') = u32_view off (w_mem w)" for off using assms by (simp add: u32_view_def)
  then show ?thesis by (auto simp: createProxy_def Let_def stringBump_def act_bind_def on_mem_def split: sum.splits)
qed

definition fields_kept :: "regions \<Rightarrow> buffer \<Rightarrow> buffer \<Rightarrow> bool" where
  "fields_kept rg m m' \<longleftrightarrow> length m' = length m \<and> (\<forall>t a. field_at rg t a \<longrightarrow> field_ok rg m t a \<longrightarrow>
     field_get t a m' = field_get t a m \<and> field_ok rg m' t a)"

lemma fields_kept_refl [simp]: "fields_kept rg m m"
  by (simp add: fields_kept_def)

lemma fields_kept_trans: "fields_kept rg m1 m2 \<Longrightarrow> fields_kept rg m2 m3 \<Longrightarrow> fields_kept rg m1 m3"
  by (auto simp: fields_kept_def)

definition collection_of :: "regions \<Rightarrow> jstr \<Rightarrow> record_schema \<Rightarrow> collection" where
  "collection_of rg nm sch = \<lparr>coll_client = \<lparr>cl_regions = rg\<rparr>, coll_name = nm, coll_schema = sch\<rparr>"

context arena_engine
begin

text \<open>One assignment of an entry, whatever the key.\<close>

lemma assign_entry_world:
  assumes a: "ready w" "strings_ok rg (w_mem w)" "new_TakyonSchema def = Inr sch" "record_at rg sch base"
    and room: "string_bump rg (w_mem w) + payload v < 2 ^ 32"
    and run: "assign_entry b (record_handle rg sch base) (k, v) (w, t) = (r, (w', t'))"
  shows "ready w' \<and> idx w' = idx w \<and> strings_ok rg (w_mem w') \<and> string_bump rg (w_mem w') \<le> string_bump rg (w_mem w) + payload v
    \<and> take (nat (recordStart rg)) (w_mem w') = take (nat (recordStart rg)) (w_mem w) \<and> length (w_mem w') = length (w_mem w)"
proof (cases "v = Undefined \<or> map_of (rec_fields sch) k = None")
  case True
  then have "w' = w" using run by (auto simp: assign_entry_def proxy_set_def record_handle_def split: if_splits)
  then show ?thesis using a by simp
next
  case False
  then obtain f where f: "map_of (rec_fields sch) k = Some f" by auto
  have p: "proxy_set b (record_handle rg sch base) k v (w, t) = (r, (w', t'))" using run False by (simp add: assign_entry_def)
  have room': "field_room rg (w_mem w) v" using room by (simp add: field_room_def)
  note o = proxy_set_outcome [OF a f room' p]
  note rl = regions_law [OF a(1)]
  note s = set_outcome_fields [OF conjunct1 [OF rl] conjunct2 [OF rl] arena_law [OF a(1)] o(4,5)]
  show ?thesis using o s(1-3) s(7) [OF order_refl] a(2) by simp
qed

lemma assign_entry_other:
  assumes a: "ready w" "strings_ok rg (w_mem w)" "new_TakyonSchema def = Inr sch" "record_at rg sch base"
    and room: "string_bump rg (w_mem w) + payload v < 2 ^ 32"
    and run: "assign_entry b (record_handle rg sch base) (k, v) (w, t) = (r, (w', t'))"
    and g: "new_TakyonSchema def' = Inr sch'" "record_at rg sch' base'" "map_of (rec_fields sch') k' = Some g"
    and ro: "field_ok rg (w_mem w) (f_type g) (nat (base' + f_offset g))"
    and d: "sch' = sch \<and> base' = base \<and> k' \<noteq> k \<or> base + recordSize sch \<le> base' \<or> base' + recordSize sch' \<le> base"
  shows "fst (proxy_get (record_handle rg sch' base') k' (w', t2)) = fst (proxy_get (record_handle rg sch' base') k' (w, t2))
    \<and> field_ok rg (w_mem w') (f_type g) (nat (base' + f_offset g))"
proof (cases "v = Undefined \<or> map_of (rec_fields sch) k = None")
  case True
  then have "w' = w" using run by (auto simp: assign_entry_def proxy_set_def record_handle_def split: if_splits)
  then show ?thesis using ro by simp
next
  case False
  then obtain f where f: "map_of (rec_fields sch) k = Some f" by auto
  have p: "proxy_set b (record_handle rg sch base) k v (w, t) = (r, (w', t'))" using run False by (simp add: assign_entry_def)
  have room': "field_room rg (w_mem w) v" using room by (simp add: field_room_def)
  show ?thesis using proxy_set_other [OF a f room' p g ro d] by blast
qed

lemma assign_entry_same:
  assumes a: "ready w" "strings_ok rg (w_mem w)" "new_TakyonSchema def = Inr sch" "record_at rg sch base"
    and room: "string_bump rg (w_mem w) + payload v < 2 ^ 32"
    and run: "assign_entry b (record_handle rg sch base) (k, v) (w, t) = (Inr u, (w', t'))"
    and f: "map_of (rec_fields sch) k = Some f" and v: "faithful_value (f_type f) v"
  shows "fst (proxy_get (record_handle rg sch base) k (w', t2)) = Inr v \<and> field_ok rg (w_mem w') (f_type f) (nat (base + f_offset f))"
proof -
  have vu: "v \<noteq> Undefined" using v by (cases "f_type f") auto
  then have p: "proxy_set b (record_handle rg sch base) k v (w, t) = (Inr u, (w', t'))" using run by (simp add: assign_entry_def)
  have room': "field_room rg (w_mem w) v" using room by (simp add: field_room_def)
  note o = proxy_set_outcome [OF a f room' p]
  note rl = regions_law [OF a(1)]
  note s = set_outcome_fields(6) [OF conjunct1 [OF rl] conjunct2 [OF rl] arena_law [OF a(1)] o(4,5)]
  show ?thesis using s faithful_double [OF v] read_back_faithful [OF v]
    by (simp add: proxy_get_field [OF f compiled_field(4) [OF a(3) f]])
qed

lemma run_entries_Cons:
  assumes "run_each (assign_entry b px) (e # es) (w, t) = (r, (w', t'))"
  obtains (thrown) x where "assign_entry b px e (w, t) = (Inl x, (w', t'))" "r = Inl x"
    | (assigned) u w1 t1 where "assign_entry b px e (w, t) = (Inr u, (w1, t1))" "run_each (assign_entry b px) es (w1, t1) = (r, (w', t'))"
  using assms by (auto split: prod.splits sum.splits)

lemma assign_entries_world:
  assumes sch: "new_TakyonSchema def = Inr sch" "record_at rg sch base"
  shows "ready w \<Longrightarrow> strings_ok rg (w_mem w) \<Longrightarrow> string_bump rg (w_mem w) + entries_payload es < 2 ^ 32 \<Longrightarrow>
    run_each (assign_entry b (record_handle rg sch base)) es (w, t) = (r, (w', t')) \<Longrightarrow>
    ready w' \<and> idx w' = idx w \<and> strings_ok rg (w_mem w')
    \<and> take (nat (recordStart rg)) (w_mem w') = take (nat (recordStart rg)) (w_mem w) \<and> length (w_mem w') = length (w_mem w)"
proof (induction es arbitrary: w t)
  case (Cons e es)
  obtain k v where e: "e = (k, v)" by (cases e)
  have pay: "entries_payload (e # es) = payload v + entries_payload es" by (simp add: entries_payload_def e)
  have room: "string_bump rg (w_mem w) + payload v < 2 ^ 32" using Cons.prems(3) pay entries_payload_nonneg [of es] by linarith
  show ?case using Cons.prems(4)
  proof (cases rule: run_entries_Cons)
    case (thrown x)
    then show ?thesis using assign_entry_world [OF Cons.prems(1,2) sch room thrown(1) [unfolded e]] by simp
  next
    case (assigned u w1 t1)
    note s = assign_entry_world [OF Cons.prems(1,2) sch room assigned(1) [unfolded e]]
    have room1: "string_bump rg (w_mem w1) + entries_payload es < 2 ^ 32" using s Cons.prems(3) pay by linarith
    show ?thesis using Cons.IH [OF _ _ room1 assigned(2)] s by simp
  qed
qed simp

lemma assign_entries_other:
  assumes sch: "new_TakyonSchema def = Inr sch" "record_at rg sch base"
    and g: "new_TakyonSchema def' = Inr sch'" "record_at rg sch' base'" "map_of (rec_fields sch') k' = Some g"
    and d: "sch' = sch \<and> base' = base \<and> k' \<notin> fst ` set es \<or> base + recordSize sch \<le> base' \<or> base' + recordSize sch' \<le> base"
  shows "ready w \<Longrightarrow> strings_ok rg (w_mem w) \<Longrightarrow> string_bump rg (w_mem w) + entries_payload es < 2 ^ 32 \<Longrightarrow>
    run_each (assign_entry b (record_handle rg sch base)) es (w, t) = (r, (w', t')) \<Longrightarrow>
    field_ok rg (w_mem w) (f_type g) (nat (base' + f_offset g)) \<Longrightarrow>
    fst (proxy_get (record_handle rg sch' base') k' (w', t2)) = fst (proxy_get (record_handle rg sch' base') k' (w, t2))
    \<and> field_ok rg (w_mem w') (f_type g) (nat (base' + f_offset g))"
  using d
proof (induction es arbitrary: w t)
  case (Cons e es)
  obtain k v where e: "e = (k, v)" by (cases e)
  have pay: "entries_payload (e # es) = payload v + entries_payload es" by (simp add: entries_payload_def e)
  have room: "string_bump rg (w_mem w) + payload v < 2 ^ 32" using Cons.prems(3) pay entries_payload_nonneg [of es] by linarith
  have d1: "sch' = sch \<and> base' = base \<and> k' \<noteq> k \<or> base + recordSize sch \<le> base' \<or> base' + recordSize sch' \<le> base"
    and d2: "sch' = sch \<and> base' = base \<and> k' \<notin> fst ` set es \<or> base + recordSize sch \<le> base' \<or> base' + recordSize sch' \<le> base"
    using Cons.prems(6) e by auto
  show ?case using Cons.prems(4)
  proof (cases rule: run_entries_Cons)
    case (thrown x)
    then show ?thesis using assign_entry_other [OF Cons.prems(1,2) sch room thrown(1) [unfolded e] g Cons.prems(5) d1] by simp
  next
    case (assigned u w1 t1)
    note s = assign_entry_world [OF Cons.prems(1,2) sch room assigned(1) [unfolded e]]
      and o = assign_entry_other [OF Cons.prems(1,2) sch room assigned(1) [unfolded e] g Cons.prems(5) d1]
    have room1: "string_bump rg (w_mem w1) + entries_payload es < 2 ^ 32" using s Cons.prems(3) pay by linarith
    show ?thesis using Cons.IH [OF _ _ room1 assigned(2) _ d2] s o by simp
  qed
qed simp

lemma assign_entries_read:
  assumes sch: "new_TakyonSchema def = Inr sch" "record_at rg sch base"
  shows "ready w \<Longrightarrow> strings_ok rg (w_mem w) \<Longrightarrow> string_bump rg (w_mem w) + entries_payload es < 2 ^ 32 \<Longrightarrow>
    run_each (assign_entry b (record_handle rg sch base)) es (w, t) = (Inr u, (w', t')) \<Longrightarrow> distinct (map fst es) \<Longrightarrow>
    (k, v) \<in> set es \<Longrightarrow> map_of (rec_fields sch) k = Some f \<Longrightarrow> faithful_value (f_type f) v \<Longrightarrow>
    fst (proxy_get (record_handle rg sch base) k (w', t2)) = Inr v"
proof (induction es arbitrary: w t)
  case (Cons e es)
  obtain k0 v0 where e: "e = (k0, v0)" by (cases e)
  have pay: "entries_payload (e # es) = payload v0 + entries_payload es" by (simp add: entries_payload_def e)
  have room: "string_bump rg (w_mem w) + payload v0 < 2 ^ 32" using Cons.prems(3) pay entries_payload_nonneg [of es] by linarith
  show ?case using Cons.prems(4)
  proof (cases rule: run_entries_Cons)
    case (assigned u1 w1 t1)
    note s = assign_entry_world [OF Cons.prems(1,2) sch room assigned(1) [unfolded e]]
    have w1: "ready w1" "strings_ok rg (w_mem w1)" "string_bump rg (w_mem w1) + entries_payload es < 2 ^ 32"
      using s Cons.prems(3) pay by auto
    show ?thesis
    proof (cases "(k, v) = e")
      case True
      then have kv: "k0 = k" "v0 = v" using e by simp_all
      note r = assign_entry_same [OF Cons.prems(1,2) sch room assigned(1) [unfolded e] Cons.prems(7)[folded kv(1)] Cons.prems(8)[folded kv(2)]]
      have "k \<notin> fst ` set es" using Cons.prems(5) kv e by (auto simp: image_iff)
      then show ?thesis
        using assign_entries_other [OF sch sch Cons.prems(7) _ w1 assigned(2), of t2] r kv by auto
    next
      case False
      then show ?thesis using Cons.IH [OF w1 assigned(2)] Cons.prems(5-8) by auto
    qed
  qed simp
qed simp

lemma allocate_world:
  assumes "ready w" "strings_ok rg (w_mem w)" "recordStart rg \<le> record_bump rg (w_mem w)"
    and "0 < num_int n \<Longrightarrow> record_bump rg (w_mem w) + num_int n + 8 \<le> 2 ^ 32"
    and run: "allocateRecordOffset \<lparr>cl_regions = rg\<rparr> n w = (r, w')"
  shows "ready w' \<and> idx w' = idx w \<and> strings_ok rg (w_mem w') \<and> string_bump rg (w_mem w') = string_bump rg (w_mem w)
    \<and> fields_kept rg (w_mem w) (w_mem w')"
proof -
  note rl = regions_law [OF assms(1)]
  note a = allocate_result [OF conjunct1 [OF rl] conjunct2 [OF rl] arena_law [OF assms(1)] assms(3,4) run]
  note f = allocate_frame [OF conjunct1 [OF rl] conjunct2 [OF rl] a(3,1)]
  have "w' = w\<lparr>w_mem := w_mem w'\<rparr>" using a(2) by simp
  then have "ready w'" "idx w' = idx w" using write_law [OF assms(1) a(1)] by metis+
  then show ?thesis using f assms(2) a(1) by (simp add: fields_kept_def)
qed

lemma insert_world:
  assumes "ready w" "strings_ok rg (w_mem w)" and run: "b_insert_index b k v w = (r, w')"
  shows "ready w'" "idx w' = (if r = Inr 0 then (idx w)(utf8_encode k \<mapsto> u32_of v) else idx w)" "strings_ok rg (w_mem w')"
    "string_bump rg (w_mem w') \<le> max (string_bump rg (w_mem w)) (arenaBytes rg)" "fields_kept rg (w_mem w) (w_mem w')"
    "r = Inr 0 \<Longrightarrow> key_bytes k"
proof -
  note rl = regions_law [OF assms(1)]
  show "ready w'" "idx w' = (if r = Inr 0 then (idx w)(utf8_encode k \<mapsto> u32_of v) else idx w)"
    using insert_law [OF assms(1) run] by simp_all
  have e: "strings_extended rg (w_mem w) (w_mem w')" "string_bump rg (w_mem w') \<le> max (string_bump rg (w_mem w)) (arenaBytes rg)"
    using insert_frame [OF assms(1) _ run] assms(2) by (simp_all add: strings_ok_def)
  then show "string_bump rg (w_mem w') \<le> max (string_bump rg (w_mem w)) (arenaBytes rg)" by simp
  show "strings_ok rg (w_mem w')" by (rule strings_extended_ok [OF e(1) assms(2)])
  show "fields_kept rg (w_mem w) (w_mem w')"
    using strings_extended_field [OF conjunct1 [OF rl] conjunct2 [OF rl] e(1)] e(1)
    by (simp add: fields_kept_def strings_extended_def)
  show "key_bytes k" if "r = Inr 0"
  proof (rule ccontr)
    assume "\<not> key_bytes k"
    then obtain m where "b_insert_index b k v w = (Inl (RangeError m), w)" using insert_bad_key [OF assms(1)] by blast
    then show False using run that by simp
  qed
qed

text \<open>What an insert has done when it returns or throws.\<close>

lemma insert_phases:
  assumes "ready w" "strings_ok rg (w_mem w)" "recordStart rg \<le> record_bump rg (w_mem w)"
    and sz: "record_bump rg (w_mem w) + recordSize sch + 8 \<le> 2 ^ 32" "8 dvd recordSize sch"
    and run: "coll_insert b (collection_of rg nm sch) key es w = (r, w')"
  shows "\<not> is_ok r \<and> idx w' = idx w \<and> ready w' \<and> fields_kept rg (w_mem w) (w_mem w')
    \<or> (\<exists>p w2. keyError key = None \<and> key_bytes (nm @ lit '':'' @ js_String key)
        \<and> ready w2 \<and> idx w2 = (idx w)(utf8_encode (nm @ lit '':'' @ js_String key) \<mapsto> p)
        \<and> strings_ok rg (w_mem w2) \<and> string_bump rg (w_mem w2) \<le> max (string_bump rg (w_mem w)) (arenaBytes rg)
        \<and> fields_kept rg (w_mem w) (w_mem w2)
        \<and> p = record_bump rg (w_mem w) \<and> p + recordSize sch \<le> recordStart rg + recordBytes rg \<and> 0 < recordSize sch
        \<and> (\<not> is_ok r \<and> w' = w2
          \<or> createProxy \<lparr>cl_regions = rg\<rparr> sch (int_num p) w2 = (Inr (record_handle rg sch p), w2)
            \<and> assign_all b (record_handle rg sch p, Map.empty) es w2 = (r, w')))"
proof (cases "keyError key")
  case (Some e)
  then show ?thesis using run assms(1) by (auto simp: coll_insert_def)
next
  case None
  let ?nk = "nm @ lit '':'' @ js_String key" and ?n = "int_num (recordSize sch)"
  note rl = regions_law [OF assms(1)]
  obtain r1 w1 where a: "allocateRecordOffset \<lparr>cl_regions = rg\<rparr> ?n w = (r1, w1)" by (rule prod.exhaust)
  have need: "0 < num_int ?n \<Longrightarrow> record_bump rg (w_mem w) + num_int ?n + 8 \<le> 2 ^ 32" using sz(1) by simp
  note aw = allocate_world [OF assms(1-3) need a]
    and ar = allocate_result(4) [OF conjunct1 [OF rl] conjunct2 [OF rl] arena_law [OF assms(1)] assms(3) need a]
  show ?thesis
  proof (cases r1)
    case (Inl e)
    then show ?thesis using run a None aw by (auto simp: coll_insert_def collection_of_def act_bind_def)
  next
    case (Inr p)
    have al: "alignUp (recordSize sch) 8 = recordSize sch"
      using alignUp_least [of 8 "recordSize sch" "recordSize sch"] sz(2) alignUp_8(2) [of "recordSize sch"] by simp
    have p: "0 < recordSize sch" "p = record_bump rg (w_mem w)" "p + recordSize sch \<le> recordStart rg + recordBytes rg"
      using ar Inr al by simp_all
    obtain r2 w2 where i: "b_insert_index b ?nk p w1 = (r2, w2)" by (rule prod.exhaust)
    note iw = insert_world [OF conjunct1 [OF aw] _ i]
    have iw: "ready w2" "idx w2 = (if r2 = Inr 0 then (idx w1)(utf8_encode ?nk \<mapsto> u32_of p) else idx w1)" "strings_ok rg (w_mem w2)"
      "string_bump rg (w_mem w2) \<le> max (string_bump rg (w_mem w)) (arenaBytes rg)" "fields_kept rg (w_mem w) (w_mem w2)"
      "r2 = Inr 0 \<Longrightarrow> key_bytes ?nk"
      using iw aw fields_kept_trans by auto
    show ?thesis
    proof (cases "r2 = Inr 0")
      case False
      then have "w' = w2" "\<not> is_ok r"
        using run a i None Inr by (auto simp: coll_insert_def collection_of_def namespacedKey_def act_bind_def split: sum.splits if_splits)
      then show ?thesis using iw aw False by auto
    next
      case True
      have p32: "u32_of p = p" using p assms(3) validated [of rg] rl sz(1) by (simp add: u32_of_def)
      have rest: "act_bind (createProxy \<lparr>cl_regions = rg\<rparr> sch (int_num p)) (\<lambda>px. assign_all b (px, Map.empty) es) w2 = (r, w')"
        using run a i None Inr True by (simp add: coll_insert_def collection_of_def namespacedKey_def act_bind_def)
      have "\<not> is_ok r \<and> w' = w2
          \<or> createProxy \<lparr>cl_regions = rg\<rparr> sch (int_num p) w2 = (Inr (record_handle rg sch p), w2)
            \<and> assign_all b (record_handle rg sch p, Map.empty) es w2 = (r, w')"
        using rest
      proof (cases rule: act_bind_cases)
        case (thrown e)
        have "w' = w2" using thrown(1)
          by (auto simp: createProxy_def Let_def stringBump_def act_bind_def on_mem_def split: if_splits sum.splits)
        then show ?thesis using thrown(2) by simp
      next
        case (returned px w3)
        then show ?thesis using createProxy_result [OF returned(1)] by simp
      qed
      then show ?thesis using iw True None p aw p32 by (intro disjI2 exI [of _ p] exI [of _ w2]) simp
    qed
  qed
qed

lemma find_result:
  assumes "ready w" "keyError key = None" "key_bytes (nm @ lit '':'' @ js_String key)"
  shows "coll_find b (collection_of rg nm sch) key w =
    (case idx w (utf8_encode (nm @ lit '':'' @ js_String key)) of
       None \<Rightarrow> (Inr None, w)
     | Some v \<Rightarrow> if v < 0x7FFFFFFF
         then act_bind (createProxy \<lparr>cl_regions = rg\<rparr> sch (int_num v)) (\<lambda>px. act_return (Some (px, Map.empty))) w
         else (Inr None, w))"
proof -
  have nn: "idx w (utf8_encode (nm @ lit '':'' @ js_String key)) = Some v \<Longrightarrow> 0 \<le> v" for v using index_values [OF assms(1)] by blast
  show ?thesis
    using search_law [OF assms(1,3)] assms(2) nn
    by (auto simp: coll_find_def collection_of_def namespacedKey_def act_bind_def split: option.splits)
qed

lemma find_same:
  assumes "ready w" "ready w'" "key_bytes (nm @ lit '':'' @ js_String key)"
    and "idx w' (utf8_encode (nm @ lit '':'' @ js_String key)) = idx w (utf8_encode (nm @ lit '':'' @ js_String key))"
  shows "fst (coll_find b (collection_of rg nm sch) key w') = fst (coll_find b (collection_of rg nm sch) key w)"
proof (cases "keyError key")
  case None
  have len: "length (w_mem w') = length (w_mem w)" using arena_law [OF assms(1)] arena_law [OF assms(2)] by simp
  have fst_bind: "fst (act_bind f (\<lambda>px. act_return (g px)) v) = res_bind (fst (f v)) (\<lambda>px. Inr (g px))"
    for f :: "('e world, 'x) action" and g :: "'x \<Rightarrow> 'y" and v
    by (auto simp: act_bind_def res_bind_def split: prod.splits sum.splits)
  show ?thesis
    using find_result [OF assms(1) None assms(3), of sch] find_result [OF assms(2) None assms(3), of sch] assms(4)
    by (simp add: fst_bind createProxy_length [OF len] split: option.split)
qed (simp add: coll_find_def)

end

end
