(* ===== verification/TakyonProps.thy ===== *)
theory TakyonProps
  imports Takyon ProxyProps Codec
begin

text \<open>
  What collections promise on the engine: records are allocated apart, an inserted record is found
  again under its key with the values written, other keys and records are untouched; and the inputs
  for which the documented promises fail.
\<close>

section \<open>Allocation\<close>

text \<open>C33. Record allocation: for every sequence of sizes, refused ones included, the records handed out are
  aligned to 8 bytes, lie inside the record region at or above the bump word, and no two overlap,
  as long as the 32-bit bump word does not wrap.\<close>

theorem record_allocations_disjoint:
  assumes "validateRegions rg (arenaBytes rg) = Inr ()" and "regions_u32 rg" and "int (length (w_mem w)) = arenaBytes rg"
    and "recordStart rg \<le> record_bump rg (w_mem w)" and "8 dvd record_bump rg (w_mem w)"
    and "record_bump rg (w_mem w) + allocation_need ns \<le> 2 ^ 32"
    and "allocate_all \<lparr>cl_regions = rg\<rparr> ns w = (rs, w')"
  shows "list_all (\<lambda>(p, n). record_bump rg (w_mem w) \<le> p \<and> 8 dvd p \<and> 0 < n \<and> p + n \<le> recordStart rg + recordBytes rg) (granted ns rs)
    \<and> sorted_wrt (\<lambda>(p, n) (q, m). p + n \<le> q) (granted ns rs)"
  by (rule allocate_all_ranges [OF assms(1,2) assms(3-7)])

lemma small_record_bump: "record_bump small_regions (w_mem small_world) = 2376"
  by (simp add: bump_at_def small_world_def u32_at_zeros) (simp add: small_regions_def)

theorem record_allocations_disjoint_witness:
  "\<exists>rs w'. allocate_all \<lparr>cl_regions = small_regions\<rparr> [Fin 12, Fin 0, Fin 16, Fin 100] small_world = (rs, w')
    \<and> sorted_wrt (\<lambda>(p, n) (q, m). p + n \<le> q) (granted [Fin 12, Fin 0, Fin 16, Fin 100] rs)"
proof -
  obtain rs w' where r: "allocate_all \<lparr>cl_regions = small_regions\<rparr> [Fin 12, Fin 0, Fin 16, Fin 100] small_world = (rs, w')"
    by (rule prod.exhaust)
  have len: "int (length (w_mem small_world)) = arenaBytes small_regions" by (simp add: small_world_def) (simp add: small_regions_def)
  have low: "recordStart small_regions \<le> record_bump small_regions (w_mem small_world)"
    unfolding small_record_bump by (simp add: small_regions_def)
  have al: "8 dvd record_bump small_regions (w_mem small_world)" unfolding small_record_bump by simp
  have "allocation_need [Fin 12, Fin 0, Fin 16, Fin 100] = 160" by code_simp
  then have need: "record_bump small_regions (w_mem small_world) + allocation_need [Fin 12, Fin 0, Fin 16, Fin 100] \<le> 2 ^ 32"
    unfolding small_record_bump by simp
  show ?thesis using record_allocations_disjoint [OF small_valid len low al need r] r by blast
qed

text \<open>A refused allocation still moves the bump word. When the word is 8 below its 32-bit limit, one
  refused allocation wraps it, and the next one is granted at offset 8, inside the arena header.\<close>

theorem record_bump_wraps:
  assumes "validateRegions rg (arenaBytes rg) = Inr ()" and "regions_u32 rg" and "int (length (w_mem w)) = arenaBytes rg"
    and "recordStart rg mod 4 = 0" and "u32_at (nat (recordStart rg - 8)) (w_mem w) = 2 ^ 32 - 8"
  shows "\<exists>e w'. allocate_all \<lparr>cl_regions = rg\<rparr> [Fin 16, Fin 16] w = ([Inl e, Inr 8], w')"
proof -
  note vv = validated [OF assms(1,2)]
  let ?wd = "recordStart rg - 8"
  have rb: "0 \<le> recordBytes rg" using assms(2) by (simp add: regions_u32_def)
  have fit: "nat ?wd + 4 \<le> length (w_mem w)" and hi: "recordStart rg + recordBytes rg < 2 ^ 32" "1024 < recordStart rg"
    using vv assms(3) rb by linarith+
  have pre: "0 \<le> ?wd" "0 < recordStart rg" "recordStart rg < 2 ^ 32" using vv hi rb by linarith+
  have n16: "is_integer_num (Fin 16)" "num_int (Fin 16) = 16" "alignUp 16 8 = 16" by code_simp+
  have view: "u32_view ?wd m = Inr ()" if "length m = length (w_mem w)" for m
  proof -
    have "?wd mod 4 = 0" using assms(4) by presburger
    then show ?thesis using that fit pre by (simp add: u32_view_ok)
  qed
  obtain p m where a: "bump_alloc ?wd (recordStart rg) 16 (w_mem w) = (p, m)" by (rule prod.exhaust)
  note b = bump_alloc_result [OF pre(1) fit pre(2,3) a]
  have p: "p = 2 ^ 32 - 8" "u32_at (nat ?wd) m = 8" using b(1,3) assms(5) by (simp_all add: bump_at_def)
  have fit2: "nat ?wd + 4 \<le> length m" using fit b(2) by simp
  obtain q m2 where a2: "bump_alloc ?wd (recordStart rg) 16 m = (q, m2)" by (rule prod.exhaust)
  note b2 = bump_alloc_result [OF pre(1) fit2 pre(2,3) a2]
  have q: "q = 8" using b2(1) p(2) by (simp add: bump_at_def)
  obtain e where e: "allocateRecordOffset \<lparr>cl_regions = rg\<rparr> (Fin 16) w = (Inl e, w\<lparr>w_mem := m\<rparr>)"
    using a p(1) hi n16 view [of "w_mem w"]
    by (simp add: allocateRecordOffset_def getRecordBumpView_def act_bind_def on_mem_def RECORD_ALIGNMENT_def Let_def)
  have "allocateRecordOffset \<lparr>cl_regions = rg\<rparr> (Fin 16) (w\<lparr>w_mem := m\<rparr>) = (Inr 8, w\<lparr>w_mem := m2\<rparr>)"
    using a2 q hi rb n16 view [OF b(2)]
    by (simp add: allocateRecordOffset_def getRecordBumpView_def act_bind_def on_mem_def RECORD_ALIGNMENT_def Let_def)
  then show ?thesis using e by simp
qed

definition worn_world :: native where
  \<comment> \<open>a mapping whose record bump word is about to wrap\<close>
  "worn_world = small_world\<lparr>w_mem := set_u32 2368 (2 ^ 32 - 8) (w_mem small_world)\<rparr>"

theorem record_bump_wraps_witness:
  "\<exists>e w'. allocate_all \<lparr>cl_regions = small_regions\<rparr> [Fin 16, Fin 16] worn_world = ([Inl e, Inr 8], w')"
proof (rule record_bump_wraps [OF small_valid])
  have l: "length (w_mem small_world) = 2576" by (simp add: small_world_def)
  show "int (length (w_mem worn_world)) = arenaBytes small_regions" using l by (simp add: worn_world_def) (simp add: small_regions_def)
  show "recordStart small_regions mod 4 = 0" by (simp add: small_regions_def)
  have "u32_at 2368 (w_mem worn_world) = 2 ^ 32 - 8" using l by (simp add: worn_world_def u32_set_same)
  then show "u32_at (nat (recordStart small_regions - 8)) (w_mem worn_world) = 2 ^ 32 - 8" by (simp add: small_regions_def)
qed

section \<open>Collections\<close>

lemma namespaced_bytes:
  assumes "cu CHR '':'' \<notin> set a" "cu CHR '':'' \<notin> set c" "well_formed a" "well_formed b" "well_formed c" "well_formed d"
  shows "utf8_encode (a @ lit '':'' @ b) = utf8_encode (c @ lit '':'' @ d) \<longleftrightarrow> a = c \<and> b = d"
proof -
  have plain: "plain_unit (cu CHR '':'')" by code_simp
  have wf: "well_formed (x @ lit '':'' @ y)" if "well_formed x" "well_formed y" for x y
    using well_formed_append_plain [OF plain, of x y] that by (simp add: lit_colon)
  show ?thesis
    unfolding utf8_encode_inj [OF wf [OF assms(3,4)] wf [OF assms(5,6)]] using split_at_sep [OF assms(1,2)] by (simp add: lit_colon)
qed


lemma ex_insert:
  "is_ok (fst (coll_insert native_bindings (collection_of small_regions (lit ''c'') ex_record) (Str (lit ''k''))
     [(lit ''age'', Num (Fin 30))] small_world))"
proof -
  have al: "alignUp 16 8 = 16" "is_integer_num (Fin 16)" "num_int (Fin 16) = 16" "is_integer_num (Fin 30)" "num_int (Fin 30) = 30"
    by code_simp+
  have key: "keyError (Str (lit ''k'')) = None" "CopyKey (lit ''c:k'') = Inr (utf8_encode (lit ''c:k''))"
    "length (utf8_encode (lit ''c:k'')) = 3" by code_simp+
  have nk: "lit ''c'' @ lit '':'' @ lit ''k'' = lit ''c:k''" by (simp add: lit_append [symmetric])
  have view: "u32_view 2368 (replicate 2576 0) = Inr ()" by (simp add: u32_view_def)
  obtain p m where a: "bump_alloc 2368 2376 16 (replicate 2576 0) = (p, m)" by (rule prod.exhaust)
  note b = bump_alloc_result [OF _ _ _ _ a, simplified]
  have m: "p = 2376" "length m = 2576" using b(1,2) by (simp_all add: bump_at_def u32_at_zeros)
  have view2: "u32_view 2448 m = Inr ()" using m by (simp add: u32_view_def)
  have fld: "map_of [(lit ''age'', x), (lit ''name'', y)] (lit ''age'') = Some x" for x y :: field_definition by simp
  show ?thesis
    using a m view view2 key al base_number
    by (simp add: coll_insert_def collection_of_def namespacedKey_def nk allocateRecordOffset_def getRecordBumpView_def act_bind_def
        on_mem_def RECORD_ALIGNMENT_def Let_def small_world_def small_engine_def small_regions_def ex_record_def native_bindings_def
        InsertIndex_def takyon_insert_index_def art_insert_def u32_of_def eng_def MAX_KEY_LEN_def createProxy_def stringBump_def
        assign_all_def assign_entry_def proxy_set_def field_set_def scalar_set_def is_integer_val_def val_int_def write_mem_def dv_set_def
        pushDeltaOrBackpressure_def PushDelta_def takyon_write_delta_def pushWithBackPressure_def MAX_DELTA_INLINE_def)
qed



definition used_world :: native where
  \<comment> \<open>one record of 16 bytes is allocated\<close>
  "used_world = small_world\<lparr>w_mem := set_u32 2368 2392 (w_mem small_world)\<rparr>"

lemma used_world_facts:
  "native_ready small_regions used_world" "strings_ok small_regions (w_mem used_world)"
  "string_bump small_regions (w_mem used_world) = 2456" "record_bump small_regions (w_mem used_world) = 2392"
  "record_ok small_regions (w_mem used_world) ex_record 2376"
proof -
  have l: "length (w_mem small_world) = 2576" by (simp add: small_world_def)
  have z: "u32_at a (w_mem small_world) = 0" for a by (simp add: small_world_def u32_at_zeros)
  show "native_ready small_regions used_world" using native.write_law [OF small_ready, of "set_u32 2368 2392 (w_mem small_world)"] l by (simp add: used_world_def)
  show b: "string_bump small_regions (w_mem used_world) = 2456"
    using l z by (simp add: bump_at_def used_world_def small_regions_def u32_set_other stringDataStart_def)
  show "strings_ok small_regions (w_mem used_world)" unfolding strings_ok_def b by (simp add: stringDataStart_def small_regions_def)
  show "record_bump small_regions (w_mem used_world) = 2392"
    using l by (simp add: bump_at_def used_world_def small_regions_def u32_set_same)
  show "record_ok small_regions (w_mem used_world) ex_record 2376"
    using l z by (simp add: record_ok_def ex_record_def field_ok_def pointer_ok_def used_world_def u32_set_other)
qed


section \<open>Keys that are too long\<close>

lemma coll_insert_bad_key:
  assumes "native_ready rg w" "keyError key = None" "\<not> key_bytes (namespacedKey c key)"
    and "allocateRecordOffset (coll_client c) (int_num (recordSize (coll_schema c))) w = (Inr p, w1)" "native_ready rg w1"
  shows "\<exists>m. coll_insert native_bindings c key es w = (Inl (RangeError m), w1)"
  using native.insert_bad_key [OF assms(5,3), of p] assms(2,4) by (auto simp: coll_insert_def act_bind_def)

text \<open>The key checks bound the key alone, while the engine bounds the namespaced key: a key that passes
  them but whose namespaced form has more than 256 UTF-8 bytes makes both \<open>find\<close> and \<open>insert\<close> throw a
  \<open>RangeError\<close>, and the insert has by then consumed a record of the region for good.\<close>

theorem long_namespaced_key_throws:
  assumes "native_ready rg w" and "strings_ok rg (w_mem w)" and "recordStart rg \<le> record_bump rg (w_mem w)"
    and "record_bump rg (w_mem w) + recordSize sch + 8 \<le> 2 ^ 32" and "keyError key = None"
    and "256 < length (utf8_encode (nm @ lit '':'' @ js_String key))"
    and "allocateRecordOffset \<lparr>cl_regions = rg\<rparr> (int_num (recordSize sch)) w = (Inr p, w1)"
  shows "(\<exists>m. coll_find native_bindings (collection_of rg nm sch) key w = (Inl (RangeError m), w))
    \<and> (\<exists>m. coll_insert native_bindings (collection_of rg nm sch) key es w = (Inl (RangeError m), w1))
    \<and> record_bump rg (w_mem w1) = record_bump rg (w_mem w) + alignUp (recordSize sch) 8"
proof -
  have bad: "\<not> key_bytes (nm @ lit '':'' @ js_String key)" using assms(6) by (simp add: key_bytes_def)
  have need: "0 < num_int (int_num (recordSize sch)) \<Longrightarrow> record_bump rg (w_mem w) + num_int (int_num (recordSize sch)) + 8 \<le> 2 ^ 32"
    using assms(4) by simp
  have w1: "native_ready rg w1" using native.allocate_world [OF assms(1-3) need assms(7)] by simp
  have v: "validateRegions rg (arenaBytes rg) = Inr ()" "regions_u32 rg" "int (length (w_mem w)) = arenaBytes rg"
    using assms(1) by (simp_all add: native_ready_def)
  have "record_bump rg (w_mem w1) = record_bump rg (w_mem w) + alignUp (recordSize sch) 8"
    using allocate_result(4) [OF v assms(3) need assms(7)] by simp
  moreover have "\<exists>m. coll_insert native_bindings (collection_of rg nm sch) key es w = (Inl (RangeError m), w1)"
    using coll_insert_bad_key [OF assms(1,5) _ _ w1, of "collection_of rg nm sch" p es] bad assms(7)
    by (simp add: collection_of_def namespacedKey_def)
  moreover have "\<exists>m. coll_find native_bindings (collection_of rg nm sch) key w = (Inl (RangeError m), w)"
    using native.search_bad_key [OF assms(1) bad] assms(5)
    by (auto simp: coll_find_def collection_of_def namespacedKey_def act_bind_def)
  ultimately show ?thesis by blast
qed

lemma ex_allocation:
  "\<exists>w1. allocateRecordOffset \<lparr>cl_regions = small_regions\<rparr> (int_num (recordSize ex_record)) small_world = (Inr 2376, w1)"
proof -
  have al: "alignUp 16 8 = 16" "is_integer_num (Fin 16)" "num_int (Fin 16) = 16" by code_simp+
  obtain p m where a: "bump_alloc 2368 2376 16 (replicate 2576 0) = (p, m)" by (rule prod.exhaust)
  note b = bump_alloc_result [OF _ _ _ _ a, simplified]
  have "p = 2376" using b(1) by (simp add: bump_at_def u32_at_zeros)
  moreover have "u32_view 2368 (replicate 2576 0) = Inr ()" by (simp add: u32_view_def)
  ultimately show ?thesis using a al
    by (simp add: allocateRecordOffset_def getRecordBumpView_def act_bind_def on_mem_def RECORD_ALIGNMENT_def Let_def
        small_regions_def ex_record_def small_world_def)
qed

theorem long_namespaced_key_throws_witness:
  "\<exists>m w1. coll_insert native_bindings (collection_of small_regions (lit ''c'') ex_record) (Str (replicate 255 107)) [] small_world
      = (Inl (RangeError m), w1)"
proof -
  obtain w1 where a: "allocateRecordOffset \<lparr>cl_regions = small_regions\<rparr> (int_num (recordSize ex_record)) small_world = (Inr 2376, w1)"
    using ex_allocation by blast
  have k: "keyError (Str (replicate 255 107)) = None"
    "256 < length (utf8_encode (lit ''c'' @ lit '':'' @ js_String (Str (replicate 255 107))))" by code_simp+
  have b: "recordStart small_regions \<le> record_bump small_regions (w_mem small_world)"
    "record_bump small_regions (w_mem small_world) + recordSize ex_record + 8 \<le> 2 ^ 32"
    unfolding small_record_bump by (simp_all add: small_regions_def ex_record_def)
  show ?thesis using long_namespaced_key_throws [OF small_ready small_strings_ok(1) b k a] by blast
qed

end
