(* ===== verification/Kernels.thy ===== *)
theory Kernels
  imports JsValue
begin

text \<open>
  The native column kernels of \<open>core/relational/column.zig\<close> and the bridge functions of
  \<open>sdk/bindings/binding.cc\<close> that call them (through \<open>core/c_abi/exports.zig\<close>), as the SDK sees them:
  functions on the typed arrays that may throw. A \<open>Uint32Array\<close> is a list of 32-bit words, a
  \<open>Float64Array\<close> a list of Numbers. The element types are static here, so the bridge's type checks
  never fire; its length checks do.
\<close>

type_synonym u32 = "32 word"
type_synonym f64_array = "jsnum list"

record kernels =
  k_filter_u32 :: "(u32 list \<Rightarrow> nat \<Rightarrow> u32 \<Rightarrow> u32 list res) option"
  k_filter_f64 :: "(f64_array \<Rightarrow> nat \<Rightarrow> jsnum \<Rightarrow> u32 list res) option"
  k_agg_sum :: "(f64_array \<Rightarrow> jsnum res) option"
  k_agg_sum_selected :: "(f64_array \<Rightarrow> u32 list \<Rightarrow> jsnum res) option"
  k_agg_min_selected :: "(f64_array \<Rightarrow> u32 list \<Rightarrow> jsnum res) option"
  k_agg_max_selected :: "(f64_array \<Rightarrow> u32 list \<Rightarrow> jsnum res) option"

section \<open>Filters\<close>

fun matchU32 :: "nat \<Rightarrow> u32 \<Rightarrow> u32 \<Rightarrow> bool" where
  \<comment> \<open>the \<open>CmpOp\<close> codes 0 to 5\<close>
  "matchU32 op v t = (if op = 0 then v = t else if op = 1 then v \<noteq> t else if op = 2 then t < v
     else if op = 3 then t \<le> v else if op = 4 then v < t else v \<le> t)"

fun matchF64 :: "nat \<Rightarrow> jsnum \<Rightarrow> jsnum \<Rightarrow> bool" where
  "matchF64 op v t = (if op = 0 then num_eq v t else if op = 1 then \<not> num_eq v t else if op = 2 then num_lt t v
     else if op = 3 then num_le t v else if op = 4 then num_lt v t else num_le v t)"

fun emit_lanes :: "nat \<Rightarrow> u32 \<Rightarrow> bool list \<Rightarrow> u32 list \<Rightarrow> u32 list" where
  \<comment> \<open>write the index of every set lane while there is room in the output\<close>
  "emit_lanes cap i [] out = out"
| "emit_lanes cap i (b # bs) out =
     (if length out < cap then emit_lanes cap (i + 1) bs (if b then out @ [i] else out) else out)"

function block_loop :: "nat \<Rightarrow> (u32 \<Rightarrow> bool) \<Rightarrow> u32 \<Rightarrow> u32 list \<Rightarrow> u32 list \<Rightarrow> u32 list" where
  \<comment> \<open>eight lanes per step, then the scalar tail; \<open>vs\<close> holds the values from index \<open>i\<close> on\<close>
  "block_loop cap p i vs out =
     (if 8 \<le> length vs \<and> length out < cap
      then block_loop cap p (i + 8) (drop 8 vs) (emit_lanes cap i (map p (take 8 vs)) out)
      else emit_lanes cap i (map p vs) out)"
  by pat_completeness auto
termination
  by (relation "measure (\<lambda>(cap, p, i, vs, out). length vs)") auto

declare block_loop.simps [simp del]

definition zig_filterU32 :: "u32 list \<Rightarrow> nat \<Rightarrow> u32 \<Rightarrow> nat \<Rightarrow> u32 list" where
  "zig_filterU32 values op target cap = block_loop cap (\<lambda>v. matchU32 op v target) 0 values []"

definition zig_filterF64 :: "f64_array \<Rightarrow> nat \<Rightarrow> jsnum \<Rightarrow> nat \<Rightarrow> u32 list" where
  "zig_filterF64 values op target cap = emit_lanes cap 0 (map (\<lambda>v. matchF64 op v target) values) []"

definition bridge_filter :: "('a list \<Rightarrow> nat \<Rightarrow> 'a \<Rightarrow> nat \<Rightarrow> u32 list) \<Rightarrow> 'a list \<Rightarrow> nat \<Rightarrow> 'a \<Rightarrow> u32 list res" where
  \<comment> \<open>\<open>FilterU32\<close> and \<open>FilterF64\<close>: the output buffer has the length of the input\<close>
  "bridge_filter kern values op target =
     (if 5 < op then Inl (RangeError (lit ''op must be 0..5''))
      else if values = [] \<or> 100000000 < length values then Inl (RangeError (lit ''values length out of range''))
      else Inr (kern values op target (length values)))"

section \<open>Aggregates\<close>

fun kahan :: "jsnum list \<Rightarrow> jsnum \<Rightarrow> jsnum \<Rightarrow> jsnum" where
  \<comment> \<open>the running sum and its compensation\<close>
  "kahan [] acc c = acc"
| "kahan (v # vs) acc c =
     (let y = num_sub v c; t = num_add acc y in kahan vs t (num_sub (num_sub t acc) y))"

fun selected :: "'a list \<Rightarrow> u32 list \<Rightarrow> 'a list" where
  \<comment> \<open>the cells a selection reads: an index out of range ends the scan\<close>
  "selected values [] = []"
| "selected values (i # sel) = (if unat i < length values then values ! unat i # selected values sel else [])"

definition skip_leading :: "'a list \<Rightarrow> u32 list \<Rightarrow> u32 list" where
  \<comment> \<open>\<open>Skip out-of-bounds leading entries\<close>\<close>
  "skip_leading values sel = dropWhile (\<lambda>i. length values \<le> unat i) sel"

definition min_of :: "jsnum \<Rightarrow> jsnum \<Rightarrow> jsnum" where
  "min_of m v = (if num_lt v m then v else m)"

definition max_of :: "jsnum \<Rightarrow> jsnum \<Rightarrow> jsnum" where
  "max_of m v = (if num_lt m v then v else m)"

definition zig_extremum :: "(jsnum \<Rightarrow> jsnum \<Rightarrow> jsnum) \<Rightarrow> f64_array \<Rightarrow> u32 list \<Rightarrow> jsnum" where
  \<comment> \<open>\<open>minSelected\<close> and \<open>maxSelected\<close>: start from the first selected cell\<close>
  "zig_extremum step values sel =
     (case selected values (skip_leading values sel) of [] \<Rightarrow> Fin 0 | v # vs \<Rightarrow> foldl step v vs)"

definition bridge_agg :: "(f64_array \<Rightarrow> u32 list \<Rightarrow> jsnum) \<Rightarrow> f64_array \<Rightarrow> u32 list \<Rightarrow> jsnum res" where
  \<comment> \<open>\<open>AggSumSelected\<close>, \<open>AggMinSelected\<close>, \<open>AggMaxSelected\<close>\<close>
  "bridge_agg kern values sel =
     (if 100000000 < length values \<or> 100000000 < length sel
      then Inl (TypeError (lit ''expected (Float64Array, Uint32Array)''))
      else Inr (if sel = [] then Fin 0 else kern values sel))"

definition bridge_sum :: "f64_array \<Rightarrow> jsnum res" where
  "bridge_sum values =
     (if 100000000 < length values then Inl (TypeError (lit ''values must be a Float64Array''))
      else Inr (kahan values (Fin 0) (Fin 0)))"

definition native_kernels :: kernels where
  "native_kernels = \<lparr>k_filter_u32 = Some (bridge_filter zig_filterU32), k_filter_f64 = Some (bridge_filter zig_filterF64),
     k_agg_sum = Some bridge_sum,
     k_agg_sum_selected = Some (bridge_agg (\<lambda>values sel. kahan (selected values sel) (Fin 0) (Fin 0))),
     k_agg_min_selected = Some (bridge_agg (zig_extremum min_of)),
     k_agg_max_selected = Some (bridge_agg (zig_extremum max_of))\<rparr>"

section \<open>What the loops compute\<close>

fun hits :: "('a \<Rightarrow> bool) \<Rightarrow> u32 \<Rightarrow> 'a list \<Rightarrow> u32 list" where
  "hits p i [] = []"
| "hits p i (v # vs) = (if p v then i # hits p (i + 1) vs else hits p (i + 1) vs)"

lemma hits_append: "hits p i (vs @ ws) = hits p i vs @ hits p (i + word_of_nat (length vs)) ws"
  by (induction vs arbitrary: i) (simp_all add: algebra_simps)

lemma length_hits: "length (hits p i vs) \<le> length vs"
  by (induction vs arbitrary: i) (auto intro: le_SucI)

lemma emit_lanes_hits: "length out \<le> cap \<Longrightarrow> emit_lanes cap i (map p vs) out = take cap (out @ hits p i vs)"
  by (induction vs arbitrary: i out) (auto simp: take_Cons')

lemma block_loop_hits: "length out \<le> cap \<Longrightarrow> block_loop cap p i vs out = take cap (out @ hits p i vs)"
proof (induction cap p i vs out rule: block_loop.induct)
  case (1 cap p i vs out)
  show ?case
  proof (cases "8 \<le> length vs \<and> length out < cap")
    case True
    let ?a = "hits p i (take 8 vs)" and ?b = "hits p (i + 8) (drop 8 vs)"
    have split: "hits p i vs = ?a @ ?b"
      using hits_append [of p i "take 8 vs" "drop 8 vs"] True by (simp add: min_absorb2)
    have e: "emit_lanes cap i (map p (take 8 vs)) out = take cap (out @ ?a)"
      using "1.prems" by (rule emit_lanes_hits)
    have "block_loop cap p i vs out = block_loop cap p (i + 8) (drop 8 vs) (take cap (out @ ?a))"
      using True unfolding e [symmetric] by (subst block_loop.simps) simp
    also have "\<dots> = take cap (take cap (out @ ?a) @ ?b)"
      unfolding e [symmetric] by (rule "1.IH" [OF True]) (simp add: e)
    also have "\<dots> = take cap (out @ hits p i vs)" unfolding split by (simp add: min_def)
    finally show ?thesis .
  next
    case False
    then show ?thesis by (subst block_loop.simps) (simp only: if_False emit_lanes_hits [OF "1.prems"])
  qed
qed

lemma zig_filters_hits:
  "zig_filterU32 vs op t (length vs) = hits (\<lambda>v. matchU32 op v t) 0 vs"
  "zig_filterF64 ws op n (length ws) = hits (\<lambda>v. matchF64 op v n) 0 ws"
  by (simp_all add: zig_filterU32_def zig_filterF64_def block_loop_hits emit_lanes_hits length_hits)

lemma hits_filter: "hits p (word_of_nat n) vs = map (\<lambda>j. word_of_nat (n + j)) (filter (\<lambda>j. p (vs ! j)) [0 ..< length vs])"
proof (induction vs arbitrary: n)
  case (Cons v vs)
  have s: "(word_of_nat n + 1 :: u32) = word_of_nat (Suc n)" by (simp add: add.commute)
  have "[0 ..< length (v # vs)] = 0 # map Suc [0 ..< length vs]" by (simp add: upt_conv_Cons map_Suc_upt del: upt_Suc)
  then show ?case using Cons.IH [of "Suc n"]
    by (simp add: filter_map comp_def s del: upt_Suc of_nat_Suc of_nat_add)
qed simp

end
