(* ===== verification/Pushdown.thy ===== *)
theory Pushdown
  imports Kernels WhereClause
begin

text \<open>
  \<open>client/relational/pushdown.ts\<close>: filters and aggregates over columns, which prefer a native kernel
  and fall back to their own loop when the kernel is absent or throws. The binding is a parameter of
  every operation; \<open>native_kernels\<close> is the one the bridge provides.
\<close>

section \<open>Filters\<close>

datatype push_op = OpEq | OpNe | OpGt | OpGte | OpLt | OpLte

fun PUSH_OP :: "push_op \<Rightarrow> nat" where
  "PUSH_OP OpEq = 0"
| "PUSH_OP OpNe = 1"
| "PUSH_OP OpGt = 2"
| "PUSH_OP OpGte = 3"
| "PUSH_OP OpLt = 4"
| "PUSH_OP OpLte = 5"

fun cmpU32 :: "u32 \<Rightarrow> nat \<Rightarrow> u32 \<Rightarrow> bool" where
  "cmpU32 v op t = (if op = 0 then v = t else if op = 1 then v \<noteq> t else if op = 2 then t < v
     else if op = 3 then t \<le> v else if op = 4 then v < t else v \<le> t)"

fun cmpF64 :: "jsnum \<Rightarrow> nat \<Rightarrow> jsnum \<Rightarrow> bool" where
  "cmpF64 v op t = (if op = 0 then num_eq v t else if op = 1 then \<not> num_eq v t else if op = 2 then num_lt t v
     else if op = 3 then num_le t v else if op = 4 then num_lt v t else num_le v t)"

definition fallbackFilterU32 :: "u32 list \<Rightarrow> nat \<Rightarrow> u32 \<Rightarrow> u32 list" where
  "fallbackFilterU32 values op target =
     map word_of_nat (filter (\<lambda>i. cmpU32 (values ! i) op target) [0 ..< length values])"

definition fallbackFilterF64 :: "f64_array \<Rightarrow> nat \<Rightarrow> jsnum \<Rightarrow> u32 list" where
  "fallbackFilterF64 values op target =
     map word_of_nat (filter (\<lambda>i. cmpF64 (values ! i) op target) [0 ..< length values])"

definition num_to_u32 :: "jsnum \<Rightarrow> u32" where
  \<comment> \<open>\<open>n >>> 0\<close>: truncated towards zero, modulo \<open>2 ^ 32\<close>, and 0 when not finite\<close>
  "num_to_u32 n = (case n of Fin r \<Rightarrow> word_of_int (if 0 \<le> r then \<lfloor>r\<rfloor> else - \<lfloor>- r\<rfloor>) | _ \<Rightarrow> 0)"

definition native_or :: "'a res option \<Rightarrow> 'a \<Rightarrow> 'a" where
  \<comment> \<open>\<open>if (fn) try { return fn(...) } catch {}\<close>, else the fallback\<close>
  "native_or native fallback = (case native of Some (Inr a) \<Rightarrow> a | _ \<Rightarrow> fallback)"

definition native_fn :: "kernels option \<Rightarrow> (kernels \<Rightarrow> 'f option) \<Rightarrow> 'f option" where
  \<comment> \<open>\<open>bindings?.fn\<close>\<close>
  "native_fn b f = Option.bind b f"

definition pushFilterU32 :: "kernels option \<Rightarrow> u32 list \<Rightarrow> push_op \<Rightarrow> jsnum \<Rightarrow> u32 list" where
  "pushFilterU32 b values op target =
     native_or (map_option (\<lambda>fn. fn values (PUSH_OP op) (num_to_u32 target)) (native_fn b k_filter_u32))
       (fallbackFilterU32 values (PUSH_OP op) (num_to_u32 target))"

definition pushFilterF64 :: "kernels option \<Rightarrow> f64_array \<Rightarrow> push_op \<Rightarrow> jsnum \<Rightarrow> u32 list" where
  "pushFilterF64 b values op target =
     native_or (map_option (\<lambda>fn. fn values (PUSH_OP op) target) (native_fn b k_filter_f64))
       (fallbackFilterF64 values (PUSH_OP op) target)"

section \<open>Aggregates\<close>

fun fallbackSum :: "f64_array \<Rightarrow> jsnum \<Rightarrow> jsnum \<Rightarrow> jsnum" where
  \<comment> \<open>the loop, from \<open>acc\<close> and \<open>c\<close>\<close>
  "fallbackSum [] acc c = acc"
| "fallbackSum (v # vs) acc c =
     (let y = num_sub v c; t = num_add acc y in fallbackSum vs t (num_sub (num_sub t acc) y))"

fun fallbackSumSelected :: "f64_array \<Rightarrow> u32 list \<Rightarrow> jsnum \<Rightarrow> jsnum \<Rightarrow> jsnum" where
  "fallbackSumSelected values [] acc c = acc"
| "fallbackSumSelected values (idx # sel) acc c =
     (if length values \<le> unat idx then acc
      else let y = num_sub (values ! unat idx) c; t = num_add acc y
        in fallbackSumSelected values sel t (num_sub (num_sub t acc) y))"

definition pushSum :: "kernels option \<Rightarrow> f64_array \<Rightarrow> jsnum" where
  "pushSum b values = native_or (map_option (\<lambda>fn. fn values) (native_fn b k_agg_sum)) (fallbackSum values (Fin 0) (Fin 0))"

definition pushSumSelected :: "kernels option \<Rightarrow> f64_array \<Rightarrow> u32 list \<Rightarrow> jsnum" where
  "pushSumSelected b values sel =
     native_or (map_option (\<lambda>fn. fn values sel) (native_fn b k_agg_sum_selected)) (fallbackSumSelected values sel (Fin 0) (Fin 0))"

fun min_loop :: "f64_array \<Rightarrow> u32 list \<Rightarrow> jsnum \<Rightarrow> bool \<Rightarrow> jsnum" where
  "min_loop values [] m seen = (if seen then m else Fin 0)"
| "min_loop values (idx # sel) m seen =
     (if length values \<le> unat idx then (if seen then m else Fin 0)
      else min_loop values sel (if num_lt (values ! unat idx) m then values ! unat idx else m) True)"

fun max_loop :: "f64_array \<Rightarrow> u32 list \<Rightarrow> jsnum \<Rightarrow> bool \<Rightarrow> jsnum" where
  "max_loop values [] m seen = (if seen then m else Fin 0)"
| "max_loop values (idx # sel) m seen =
     (if length values \<le> unat idx then (if seen then m else Fin 0)
      else max_loop values sel (if num_lt m (values ! unat idx) then values ! unat idx else m) True)"

definition pushMinSelected :: "kernels option \<Rightarrow> f64_array \<Rightarrow> u32 list \<Rightarrow> jsnum" where
  "pushMinSelected b values sel =
     native_or (map_option (\<lambda>fn. fn values sel) (native_fn b k_agg_min_selected))
       (if sel = [] then Fin 0 else min_loop values sel PosInf False)"

definition pushMaxSelected :: "kernels option \<Rightarrow> f64_array \<Rightarrow> u32 list \<Rightarrow> jsnum" where
  "pushMaxSelected b values sel =
     native_or (map_option (\<lambda>fn. fn values sel) (native_fn b k_agg_max_selected))
       (if sel = [] then Fin 0 else max_loop values sel NegInf False)"

section \<open>Columns\<close>

definition cell_number :: "jsval \<Rightarrow> jsnum option" where
  "cell_number v = (case v of Num n \<Rightarrow> Some n | _ \<Rightarrow> None)"

definition columnize :: "row list \<Rightarrow> jstr \<Rightarrow> f64_array \<times> u32 list" where
  "columnize rs column =
     (map (\<lambda>r. case cell_number (row_get r column) of Some n \<Rightarrow> n | None \<Rightarrow> NaN) rs,
      map word_of_nat (filter (\<lambda>i. cell_number (row_get (rs ! i) column) \<noteq> None) [0 ..< length rs]))"

section \<open>The two implementations\<close>

lemma native_or_simps [simp]: "native_or None d = d" "native_or (Some (Inr a)) d = a" "native_or (Some (Inl e)) d = d"
  by (simp_all add: native_or_def)

lemma native_fn_simps [simp]: "native_fn None f = None" "native_fn (Some b) f = f b"
  by (simp_all add: native_fn_def)

lemma cmp_match: "cmpU32 v op t = matchU32 op v t" "cmpF64 x op y = matchF64 op x y"
  by simp_all

lemma fallback_filters:
  "fallbackFilterU32 vs op t = hits (\<lambda>v. matchU32 op v t) 0 vs"
  "fallbackFilterF64 ws op n = hits (\<lambda>v. matchF64 op v n) 0 ws"
  unfolding fallbackFilterU32_def fallbackFilterF64_def cmp_match
  using hits_filter [of "\<lambda>v. matchU32 op v t" 0 vs] hits_filter [of "\<lambda>v. matchF64 op v n" 0 ws]
  by (simp_all add: comp_def)

lemma fallbackSum_kahan: "fallbackSum vs s c = kahan vs s c"
  by (induction vs arbitrary: s c) (simp_all add: Let_def)

lemma fallbackSumSelected_kahan: "fallbackSumSelected vs sel s c = kahan (selected vs sel) s c"
  by (induction sel arbitrary: s c) (auto simp: Let_def)

lemma min_loop_fold: "min_loop vs sel m seen = (if seen \<or> selected vs sel \<noteq> [] then foldl min_of m (selected vs sel) else Fin 0)"
  by (induction sel arbitrary: m seen) (auto simp: min_of_def)

lemma max_loop_fold: "max_loop vs sel m seen = (if seen \<or> selected vs sel \<noteq> [] then foldl max_of m (selected vs sel) else Fin 0)"
  by (induction sel arbitrary: m seen) (auto simp: max_of_def)

lemma native_sel [simp]:
  "k_filter_u32 native_kernels = Some (bridge_filter zig_filterU32)"
  "k_filter_f64 native_kernels = Some (bridge_filter zig_filterF64)"
  "k_agg_sum native_kernels = Some bridge_sum"
  "k_agg_sum_selected native_kernels = Some (bridge_agg (\<lambda>values sel. kahan (selected values sel) (Fin 0) (Fin 0)))"
  "k_agg_min_selected native_kernels = Some (bridge_agg (zig_extremum min_of))"
  "k_agg_max_selected native_kernels = Some (bridge_agg (zig_extremum max_of))"
  by (simp_all add: native_kernels_def)

lemma bridge_filter_eq:
  assumes "kern values op t (length values) = out" and "fallback = out"
  shows "native_or (Some (bridge_filter kern values op t)) fallback = out"
  using assms by (simp add: bridge_filter_def)

lemma filters_agree:
  "pushFilterU32 (Some native_kernels) vs op n = pushFilterU32 None vs op n"
  "pushFilterF64 (Some native_kernels) ws op n = pushFilterF64 None ws op n"
  by (simp_all add: pushFilterU32_def pushFilterF64_def bridge_filter_eq zig_filters_hits fallback_filters)

lemma filterF64_indices:
  assumes "b = None \<or> b = Some native_kernels"
  shows "pushFilterF64 b ws op n = map word_of_nat (filter (\<lambda>i. cmpF64 (ws ! i) (PUSH_OP op) n) [0 ..< length ws])"
proof -
  have "pushFilterF64 b ws op n = pushFilterF64 None ws op n" using assms filters_agree(2) by blast
  then show ?thesis by (simp add: pushFilterF64_def fallbackFilterF64_def del: cmpF64.simps)
qed

definition op_clause :: "push_op \<Rightarrow> jstr \<Rightarrow> jsval \<Rightarrow> where_clause" where
  \<comment> \<open>\<open>{ [column]: { [op]: v } }\<close>\<close>
  "op_clause op column v = [(column, Cond (case op of
       OpEq \<Rightarrow> no_condition\<lparr>c_eq := v\<rparr> | OpNe \<Rightarrow> no_condition\<lparr>c_ne := v\<rparr>
     | OpGt \<Rightarrow> no_condition\<lparr>c_gt := v\<rparr> | OpGte \<Rightarrow> no_condition\<lparr>c_gte := v\<rparr>
     | OpLt \<Rightarrow> no_condition\<lparr>c_lt := v\<rparr> | OpLte \<Rightarrow> no_condition\<lparr>c_lte := v\<rparr>))]"

lemma op_clause_cell:
  "matchesWhere r (Some (op_clause op column (Num n))) =
     cmpF64 (case cell_number (row_get r column) of Some k \<Rightarrow> k | None \<Rightarrow> NaN) (PUSH_OP op) n"
  by (cases op; cases "row_get r column")
    (simp_all add: matchesWhere_def compilePerColumn_spec op_clause_def condition_spec_def operand_spec_def no_condition_def
      cell_number_def is_number_def num_eq_def num_le_def)

lemma fold_first:
  assumes "v \<noteq> NaN"
  shows "foldl min_of PosInf (v # vs) = foldl min_of v vs" "foldl max_of NegInf (v # vs) = foldl max_of v vs"
  using assms by (cases v; simp add: min_of_def max_of_def)+

lemma selected_all: "\<forall>i\<in>set sel. unat i < length values \<Longrightarrow> selected values sel = map (\<lambda>i. values ! unat i) sel"
  by (induction sel) auto

lemma extrema_agree:
  assumes "sel \<noteq> []" and "\<forall>i\<in>set sel. unat i < length values" and "values ! unat (hd sel) \<noteq> NaN"
    and "b = None \<or> b = Some native_kernels"
  shows "pushMinSelected b values sel = foldl min_of PosInf (map (\<lambda>i. values ! unat i) sel)"
    "pushMaxSelected b values sel = foldl max_of NegInf (map (\<lambda>i. values ! unat i) sel)"
proof -
  obtain i js where sel: "sel = i # js" using assms(1) by (cases sel) auto
  have "skip_leading values sel = sel" using assms(2) by (simp add: skip_leading_def sel)
  then have z: "zig_extremum step values sel = foldl step (values ! unat i) (map (\<lambda>i. values ! unat i) js)" for step
    using selected_all [OF assms(2)] by (simp add: zig_extremum_def sel)
  have v: "values ! unat i \<noteq> NaN" using assms(3) by (simp add: sel)
  show "pushMinSelected b values sel = foldl min_of PosInf (map (\<lambda>i. values ! unat i) sel)"
    using assms(1,4) z fold_first(1) [OF v] selected_all [OF assms(2)]
    by (auto simp: pushMinSelected_def bridge_agg_def min_loop_fold sel simp del: foldl_Cons)
  show "pushMaxSelected b values sel = foldl max_of NegInf (map (\<lambda>i. values ! unat i) sel)"
    using assms(1,4) z fold_first(2) [OF v] selected_all [OF assms(2)]
    by (auto simp: pushMaxSelected_def bridge_agg_def max_loop_fold sel simp del: foldl_Cons)
qed

section \<open>Properties\<close>

lemma sums_agree:
  "pushSum (Some native_kernels) ws = pushSum None ws"
  "pushSumSelected (Some native_kernels) ws sel = pushSumSelected None ws sel"
  by (simp_all add: pushSum_def pushSumSelected_def bridge_sum_def bridge_agg_def fallbackSum_kahan fallbackSumSelected_kahan)

text \<open>C34. The contract of \<open>pushdown.ts\<close> for the filters and the sums: with the native kernels the
  result is the one of the TypeScript loops, on every column (empty and over-long ones included, where
  the bridge throws), every operator, every target (\<open>NaN\<close> included) and every selection; and a kernel
  that throws is as good as absent.\<close>

theorem native_kernels_indistinguishable:
  "pushFilterU32 (Some native_kernels) vs op n = pushFilterU32 None vs op n
   \<and> pushFilterF64 (Some native_kernels) ws op n = pushFilterF64 None ws op n
   \<and> pushSum (Some native_kernels) ws = pushSum None ws
   \<and> pushSumSelected (Some native_kernels) ws sel = pushSumSelected None ws sel
   \<and> pushFilterU32 (Some (b\<lparr>k_filter_u32 := Some (\<lambda>_ _ _. Inl e)\<rparr>)) vs op n = pushFilterU32 None vs op n"
  by (simp add: filters_agree sums_agree) (simp add: pushFilterU32_def)

text \<open>C35. Pushing a filter down to a column does not change its meaning: the indices that
  \<open>pushFilterF64\<close> returns on the column \<open>columnize\<close> extracts are, ascending, those of the rows that
  the where clause \<open>{ [column]: { [op]: n } }\<close> accepts, whatever the cells hold (missing cells, strings
  and \<open>NaN\<close> included) and with or without the native kernels.\<close>

theorem pushdown_is_row_filter:
  "let rows_found = map word_of_nat (filter (\<lambda>i. matchesWhere (rs ! i) (Some (op_clause op column (Num n)))) [0 ..< length rs])
   in pushFilterF64 None (fst (columnize rs column)) op n = rows_found
      \<and> pushFilterF64 (Some native_kernels) (fst (columnize rs column)) op n = rows_found"
proof -
  have "filter (\<lambda>i. cmpF64 (fst (columnize rs column) ! i) (PUSH_OP op) n) [0 ..< length rs]
      = filter (\<lambda>i. matchesWhere (rs ! i) (Some (op_clause op column (Num n)))) [0 ..< length rs]"
    by (rule filter_cong) (simp_all add: columnize_def op_clause_cell del: cmpF64.simps)
  moreover have "length (fst (columnize rs column)) = length rs" by (simp add: columnize_def)
  ultimately show ?thesis by (simp add: Let_def filterF64_indices del: cmpF64.simps)
qed

lemma fold_extremum:
  assumes step: "\<And>m v. m \<noteq> NaN \<Longrightarrow> (step m v = m \<or> step m v = v) \<and> step m v \<noteq> NaN \<and> le (step m v) m \<and> (v = NaN \<or> le (step m v) v)"
    and trans: "\<And>a b c. le a b \<Longrightarrow> le b c \<Longrightarrow> le a c" and refl: "\<And>a. a \<noteq> NaN \<Longrightarrow> le a a"
  shows "m \<noteq> NaN \<Longrightarrow> foldl step m vs \<in> set (m # vs) \<and> foldl step m vs \<noteq> NaN \<and> (\<forall>v\<in>set (m # vs). v = NaN \<or> le (foldl step m vs) v)"
proof (induction vs arbitrary: m)
  case Nil
  then show ?case by (simp add: refl)
next
  case (Cons v vs)
  let ?r = "foldl step (step m v) vs"
  note s = step [OF Cons.prems, of v]
  have IH: "?r \<in> insert (step m v) (set vs)" "?r \<noteq> NaN" "\<forall>w\<in>set vs. w = NaN \<or> le ?r w" "le ?r (step m v)"
    using Cons.IH [of "step m v"] s by simp_all
  have "le ?r m" using s trans [OF IH(4), of m] by blast
  moreover have "v = NaN \<or> le ?r v" using s trans [OF IH(4), of v] by blast
  moreover have "?r \<in> set (m # v # vs)" using IH(1) s by auto
  ultimately show ?case using IH by simp
qed

lemma min_step: "m \<noteq> NaN \<Longrightarrow> (min_of m v = m \<or> min_of m v = v) \<and> min_of m v \<noteq> NaN \<and> num_le (min_of m v) m \<and> (v = NaN \<or> num_le (min_of m v) v)"
  by (auto simp: min_of_def num_lt_imp_le) (auto simp: num_le_def)

lemma max_step: "m \<noteq> NaN \<Longrightarrow> (max_of m v = m \<or> max_of m v = v) \<and> max_of m v \<noteq> NaN \<and> num_le m (max_of m v) \<and> (v = NaN \<or> num_le v (max_of m v))"
  by (auto simp: max_of_def num_lt_imp_le) (auto simp: num_le_def)

lemma fold_min_of:
  "m \<noteq> NaN \<Longrightarrow> foldl min_of m vs \<in> set (m # vs) \<and> foldl min_of m vs \<noteq> NaN
    \<and> (\<forall>v\<in>set (m # vs). v = NaN \<or> num_le (foldl min_of m vs) v)"
  by (rule fold_extremum [of min_of num_le]) (erule min_step num_le_refl | erule (1) num_le_trans | assumption)+

lemma fold_max_of:
  "m \<noteq> NaN \<Longrightarrow> foldl max_of m vs \<in> set (m # vs) \<and> foldl max_of m vs \<noteq> NaN
    \<and> (\<forall>v\<in>set (m # vs). v = NaN \<or> num_le v (foldl max_of m vs))"
  by (rule fold_extremum [of max_of "\<lambda>a b. num_le b a"]) (erule max_step num_le_refl | erule (1) num_le_trans [rotated] | erule (1) num_le_trans | assumption)+

text \<open>Over a selection whose indices are in range and whose first cell is a number other than
  \<open>NaN\<close>, \<open>pushMinSelected\<close> and \<open>pushMaxSelected\<close> return, with or without the native kernels, a
  selected cell that bounds every selected cell but the \<open>NaN\<close>s.\<close>

theorem selected_extrema:
  assumes "sel \<noteq> []" and "\<forall>i\<in>set sel. unat i < length values" and "values ! unat (hd sel) \<noteq> NaN"
    and "b = None \<or> b = Some native_kernels"
  shows "\<exists>i\<in>set sel. \<exists>j\<in>set sel. pushMinSelected b values sel = values ! unat i \<and> pushMaxSelected b values sel = values ! unat j
    \<and> (\<forall>k\<in>set sel. values ! unat k = NaN \<or> num_le (values ! unat i) (values ! unat k) \<and> num_le (values ! unat k) (values ! unat j))"
proof -
  let ?cells = "map (\<lambda>i. values ! unat i) sel"
  have c: "?cells = hd ?cells # tl ?cells" "hd ?cells \<noteq> NaN" using assms(1,3) by (cases sel; simp)+
  have m: "pushMinSelected b values sel = foldl min_of (hd ?cells) (tl ?cells)"
      "pushMaxSelected b values sel = foldl max_of (hd ?cells) (tl ?cells)"
    using extrema_agree [OF assms, unfolded fold_first [OF c(2), of "tl ?cells", folded c(1)]] .
  note lo = fold_min_of [OF c(2), of "tl ?cells", folded m c(1)] and hi = fold_max_of [OF c(2), of "tl ?cells", folded m c(1)]
  obtain i j where "i \<in> set sel" "pushMinSelected b values sel = values ! unat i"
      "j \<in> set sel" "pushMaxSelected b values sel = values ! unat j"
    using lo hi by auto
  then show ?thesis using lo hi by (intro bexI [of _ i] bexI [of _ j]) auto
qed

theorem selected_extrema_witness:
  "let values = [Fin 3, Fin 9, Fin 1]; sel = [0, 2] :: u32 list
   in \<exists>i\<in>set sel. \<exists>j\<in>set sel. pushMinSelected None values sel = values ! unat i \<and> pushMaxSelected None values sel = values ! unat j
    \<and> (\<forall>k\<in>set sel. values ! unat k = NaN \<or> num_le (values ! unat i) (values ! unat k) \<and> num_le (values ! unat k) (values ! unat j))"
  unfolding Let_def by (rule selected_extrema) simp_all

text \<open>Outside those selections the two implementations differ, against the contract at the head of
  the file: after a leading index out of range the kernel goes on and the loop gives up; when the
  first cell is \<open>NaN\<close> the kernel returns \<open>NaN\<close> and the loop the least other cell, or infinity.\<close>

theorem extrema_kernels_diverge:
  "pushMinSelected (Some native_kernels) [Fin 5] [7, 0] = Fin 5 \<and> pushMinSelected None [Fin 5] [7, 0] = Fin 0
   \<and> pushMinSelected (Some native_kernels) [NaN, Fin 5] [0, 1] = NaN \<and> pushMinSelected None [NaN, Fin 5] [0, 1] = Fin 5
   \<and> pushMaxSelected (Some native_kernels) [NaN] [0] = NaN \<and> pushMaxSelected None [NaN] [0] = NegInf"
  by (simp add: pushMinSelected_def pushMaxSelected_def bridge_agg_def zig_extremum_def skip_leading_def min_of_def max_of_def)

end
