(* ===== verification/NumText.thy ===== *)
theory NumText
  imports JsValue
begin

text \<open>
  Reading printed numbers back: \<open>Number\<close> on decimal texts, and the round trip of the safe integers
  through \<open>String\<close>.
\<close>

lemma digit_not: "is_digit c \<Longrightarrow> \<not> is_white_space c \<and> c \<noteq> 45 \<and> c \<noteq> 43 \<and> c \<noteq> 46 \<and> c \<noteq> 39 \<and> c \<noteq> 73"
  by (auto simp: is_digit_def is_white_space_def word_le_nat_alt word_unat_eq_iff)

lemma js_trim_id: "list_all (\<lambda>c. \<not> is_white_space c) s \<Longrightarrow> js_trim s = s"
proof -
  assume "list_all (\<lambda>c. \<not> is_white_space c) s"
  then have "dropWhile is_white_space s = s" "dropWhile is_white_space (rev s) = rev s"
    unfolding dropWhile_eq_self_iff by (auto simp: list_all_iff hd_rev)
  then show ?thesis by (simp add: js_trim_def)
qed

definition decimal :: "jstr \<Rightarrow> jstr \<Rightarrow> jstr" where
  "decimal a f = a @ (if f = [] then [] else 46 # f)"

lemma takeWhile_digits:
  assumes "list_all is_digit a" and "rest = [] \<or> \<not> is_digit (hd rest)"
  shows "takeWhile is_digit (a @ rest) = a" "dropWhile is_digit (a @ rest) = rest"
proof -
  have "\<forall>c\<in>set a. is_digit c" using assms(1) by (simp add: list_all_iff)
  moreover have "takeWhile is_digit rest = []" "dropWhile is_digit rest = rest" using assms(2) by (cases rest; simp)+
  ultimately show "takeWhile is_digit (a @ rest) = a" "dropWhile is_digit (a @ rest) = rest" by simp_all
qed

lemma parse_decimal:
  assumes "list_all is_digit a" and "a \<noteq> []" and "list_all is_digit f"
  shows "parse_unsigned_decimal (decimal a f) = Some (of_int (digits_value (a @ f)) * pow10 (- int (length f)))"
proof -
  have dot: "\<not> is_digit 46" by (simp add: is_digit_def)
  have a: "take_digits (decimal a f) = (a, if f = [] then [] else 46 # f)"
    using takeWhile_digits [OF assms(1), of "if f = [] then [] else 46 # f"] dot by (simp add: take_digits_def decimal_def)
  have f: "take_digits f = (f, [])" using takeWhile_digits [OF assms(3), of "[]"] by (simp add: take_digits_def)
  have d: "lit ''.'' = [46]" by (simp add: lit_eval)
  show ?thesis using a f assms(2) by (simp add: parse_unsigned_decimal_def Let_def d parse_exponent_def)
qed

lemma decimal_head:
  assumes "list_all is_digit a" and "a \<noteq> []" and "list_all is_digit f"
  shows "list_all (\<lambda>c. is_digit c \<or> c = 46) (decimal a f)" "is_digit (hd (decimal a f))" "decimal a f \<noteq> []"
  using assms by (auto simp: decimal_def list_all_iff)

lemma string_to_num_decimal:
  assumes "list_all is_digit a" and "a \<noteq> []" and "list_all is_digit f"
  shows "string_to_num (decimal a f) = to_double (of_int (digits_value (a @ f)) * pow10 (- int (length f)))"
proof -
  let ?s = "decimal a f"
  note h = decimal_head [OF assms]
  obtain c s where s: "?s = c # s" using h(3) by (cases ?s) auto
  have c: "is_digit c" using h(2) s by simp
  have "list_all (\<lambda>c. \<not> is_white_space c) ?s"
    by (rule list.pred_mono_strong [OF h(1)]) (auto dest: digit_not simp: is_white_space_def)
  then have t: "js_trim ?s = ?s" by (rule js_trim_id)
  have r: "radix_of_prefix (take 2 ?s) = None"
  proof (cases s)
    case (Cons d u)
    then have "is_digit d \<or> d = 46" using h(1) s by simp
    then have "d \<noteq> 120" "d \<noteq> 88" "d \<noteq> 111" "d \<noteq> 79" "d \<noteq> 98" "d \<noteq> 66" by (auto simp: is_digit_def word_le_nat_alt)
    then show ?thesis using Cons s by (simp add: radix_of_prefix_def lit_eval numeral_2_eq_2)
  qed (simp add: s radix_of_prefix_def lit_eval numeral_2_eq_2)
  have i: "lit ''Infinity'' = 73 # [110, 102, 105, 110, 105, 116, 121]" "lit ''-'' = [45]" "lit ''+'' = [43]" by (simp_all add: lit_eval)
  show ?thesis using t r i s digit_not [OF c] parse_decimal [OF assms]
    by (simp add: string_to_num_def Let_def signed_literal_def signed_num_def)
qed

lemma string_to_num_dec_digits:
  assumes "0 \<le> n" and "n \<le> 2 ^ 53"
  shows "string_to_num (dec_digits n) = int_num n"
proof -
  have "list_all is_digit (dec_digits n)" using dec_digits_digits [OF assms(1)] by (simp add: list_all_iff)
  from string_to_num_decimal [OF this, of "[]"] show ?thesis
    using assms to_double_int [of n] by (simp add: decimal_def pow10_def)
qed

lemma to_double_not_NaN: "to_double r \<noteq> NaN"
  by (simp add: to_double_def Let_def)

lemma dec_digits_all: "0 \<le> n \<Longrightarrow> list_all is_digit (dec_digits n)"
  using dec_digits_digits [of n] by (simp add: list_all_iff)

lemma dec_digits_head: "0 \<le> n \<Longrightarrow> is_digit (hd (dec_digits n))"
  using dec_digits_digits [of n] by simp

lemma js_trim_ends:
  assumes "s \<noteq> []" and "\<not> is_white_space (hd s)" and "\<not> is_white_space (last s)"
  shows "js_trim s = s"
proof -
  have "dropWhile is_white_space s = s" "dropWhile is_white_space (rev s) = rev s"
    unfolding dropWhile_eq_self_iff using assms by (simp_all add: hd_rev)
  then show ?thesis by (simp add: js_trim_def)
qed

lemma signed_text_back:
  assumes "\<bar>i\<bar> \<le> 2 ^ 53"
  shows "string_to_num ((if i < 0 then [45] else []) @ dec_digits \<bar>i\<bar>) = int_num i"
proof (cases "i < 0")
  case True
  let ?d = "dec_digits (- i)"
  have d: "list_all is_digit ?d" "?d \<noteq> []" using dec_digits_all [of "- i"] True by simp_all
  have m: "lit ''-'' = [45]" by (simp add: lit_eval)
  have trim: "js_trim (45 # ?d) = 45 # ?d"
    using d digit_not last_in_set [OF d(2)] by (intro js_trim_ends) (auto simp: list_all_iff is_white_space_def)
  have rad: "radix_of_prefix (take 2 (45 # ?d)) = None" by (cases ?d) (simp_all add: radix_of_prefix_def lit_eval)
  have "\<not> is_digit 73" by (simp add: is_digit_def)
  then have inf: "?d \<noteq> lit ''Infinity''" using d by (auto simp: lit_eval)
  have p: "parse_unsigned_decimal ?d = Some (of_int (- i))"
    using parse_decimal [OF d, of "[]"] True by (simp add: decimal_def pow10_def)
  have "to_double (of_int (- i)) = int_num (- i)" by (rule to_double_int) (use assms in simp)
  then show ?thesis using True inf p trim rad
    by (simp add: string_to_num_def Let_def m signed_literal_def signed_num_def)
next
  case False
  then show ?thesis using string_to_num_dec_digits [of i] assms by simp
qed

lemma integer_text_back:
  assumes "\<bar>i\<bar> \<le> 2 ^ 53"
  shows "string_to_num (num_to_string (int_num i)) = int_num i"
proof -
  have "lit ''-'' = [45]" by (simp add: lit_eval)
  then show ?thesis unfolding num_to_string_int [OF assms] by (simp only: signed_text_back [OF assms])
qed

end
