(* ===== verification/SqlProps.thy ===== *)
theory SqlProps
  imports Executor NumText
begin

text \<open>
  Facts about the statement parser: what the groups of an accepted statement can hold, that printed
  statements parse to what they say, and the values that do not survive.
\<close>

section \<open>The groups of an accepted statement\<close>

lemma lang_seqs: "lang (seqs (r # q # rs)) t \<longleftrightarrow> (\<exists>u v. t = u @ v \<and> lang r u \<and> lang (seqs (q # rs)) v)"
  by simp

lemma lang_exact: "lang (exact s) t \<longleftrightarrow> t = lit s"
proof -
  have "lang (seqs (map (\<lambda>c. One (Exactly (cu c))) s)) t \<longleftrightarrow> t = map cu s"
  proof (induction s arbitrary: t)
    case (Cons c s)
    then show ?case by (cases s) (auto simp: Cons_eq_append_conv)
  qed simp
  then show ?thesis unfolding exact_def lit_def .
qed

definition sql_operators :: "jstr list" where
  "sql_operators = [lit ''='', lit ''!='', lit ''>='', lit ''<='', lit ''>'', lit ''<'']"

lemma lang_op_re: "lang op_re t \<longleftrightarrow> t \<in> set sql_operators"
  by (simp add: op_re_def lang_exact sql_operators_def)

lemma lang_val_re:
  assumes "lang val_re t"
  obtains s where "t = 39 # s @ [39]" "39 \<notin> set s"
  | a f where "t = decimal a f" "list_all is_digit a" "a \<noteq> []" "list_all is_digit f"
proof -
  from assms consider (str) s where "t = 39 # s @ [39]" "list_all (in_class (Except 39)) s"
    | (num) a b where "t = a @ b" "a \<noteq> []" "list_all (in_class DigitChar) a" "b = [] \<or> (\<exists>f. b = 46 # f \<and> f \<noteq> [] \<and> list_all (in_class DigitChar) f)"
    by (auto simp: val_re_def)
  then show thesis
  proof cases
    case str
    then show ?thesis using that(1) by (auto simp: list_all_iff)
  next
    case num
    have c: "list_all is_digit x" if "list_all (in_class DigitChar) x" for x using that by (simp add: list_all_iff)
    show ?thesis using num c that(2) [of a "if b = [] then [] else tl b"] by (auto simp: decimal_def)
  qed
qed

definition plain_value :: "jsval \<Rightarrow> bool" where
  \<comment> \<open>what a WHERE literal can stand for\<close>
  "plain_value v \<longleftrightarrow> (\<exists>s. v = Str s \<and> 39 \<notin> set s) \<or> (\<exists>n. v = Num n \<and> n \<noteq> NaN)"

lemma unescape_id: "39 \<notin> set s \<Longrightarrow> unescape s = s"
  by (induction s rule: unescape.induct) auto

lemma literal_value_plain:
  assumes "lang val_re t"
  shows "plain_value (literal_value t)" "unescaped_value t = literal_value t"
proof -
  from assms have "plain_value (literal_value t) \<and> unescaped_value t = literal_value t"
  proof (cases rule: lang_val_re)
    case (1 s)
    then show ?thesis by (simp add: literal_value_def unescaped_value_def plain_value_def unescape_id butlast_append)
  next
    case (2 a f)
    have "is_digit (hd t)" "t \<noteq> []" using decimal_head [OF 2(2-4)] 2(1) by simp_all
    then have "take 1 t \<noteq> [39]" using digit_not [of "hd t"] by (cases t) auto
    then show ?thesis using string_to_num_decimal [OF 2(2-4)] to_double_not_NaN 2(1)
      by (simp add: literal_value_def unescaped_value_def plain_value_def)
  qed
  then show "plain_value (literal_value t)" "unescaped_value t = literal_value t" by simp_all
qed

lemma groups_seqs: "groups (seqs rs) = concat (map groups rs)"
  by (induction rs rule: seqs.induct) simp_all

lemma groups_word [simp]: "groups (word s) = []" "groups (exact s) = []"
  by (simp_all add: word_def exact_def groups_seqs comp_def)

lemma always_seqs: "always (seqs rs) = \<Union> (set (map always rs))"
  by (induction rs rule: seqs.induct) simp_all

lemma always_word [simp]: "always (word s) = {}"
  by (auto simp: word_def always_seqs)

lemmas sql_res = where_re_def paren_re_def tail_re_def limit_re_def ws_def ows_def ident_def

lemma groups_sql:
  "groups delete_re = [(1, ident), (2, ident), (3, op_re), (4, val_re)]"
  "groups update_re = [(1, ident), (2, LazyPlus Dot), (3, ident), (4, op_re), (5, val_re)]"
  "groups select_re = [(1, LazyPlus Dot), (2, ident), (3, ident), (4, op_re), (5, val_re), (6, ident),
     (7, Alt (word ''ASC'') (word ''DESC'')), (8, Plus DigitChar)]"
  "groups join_re = [(1, LazyPlus Dot), (2, ident), (3, ident), (4, ident), (5, ident), (6, ident), (7, ident),
     (8, ident), (9, op_re), (10, val_re), (11, Plus DigitChar)]"
  by (simp_all add: delete_re_def update_re_def select_re_def join_re_def sql_res op_re_def val_re_def groups_seqs)

lemma always_sql: "{1, 2, 3, 4} \<subseteq> always delete_re" "{1, 2, 3, 4, 5} \<subseteq> always update_re"
  "{1, 2} \<subseteq> always select_re" "{1, 2, 3, 4, 5, 6, 7} \<subseteq> always join_re"
  by (simp_all add: delete_re_def update_re_def select_re_def join_re_def sql_res always_seqs)

lemma together_sql: "together 3 4 select_re" "together 4 5 select_re" "together 8 9 join_re" "together 9 10 join_re"
  by (simp_all add: select_re_def join_re_def sql_res op_re_def val_re_def word_def exact_def)

section \<open>A WHERE clause that parses is a condition\<close>

definition where_typed :: "'a parsed_where_scheme \<Rightarrow> bool" where
  "where_typed p \<longleftrightarrow> (\<exists>c g. whereCol p = Some c \<and> c \<noteq> [] \<and> list_all is_ident_char c
     \<and> whereOp p = Some g \<and> g \<in> set sql_operators \<and> plain_value (whereVal p) \<and> plan_where p \<noteq> None)"

definition where_absent :: "'a parsed_where_scheme \<Rightarrow> bool" where
  "where_absent p \<longleftrightarrow> whereCol p = None \<and> whereOp p = None \<and> whereVal p = Undefined \<and> plan_where p = None"

lemma where_typedI:
  assumes "lang ident c" "lang op_re g" "lang val_re v"
    "whereCol p = Some c" "whereOp p = Some g" "whereVal p = literal_value v"
  shows "where_typed p"
proof -
  have c: "c \<noteq> []" "list_all is_ident_char c" using assms(1) by (auto simp: ident_def list_all_iff)
  have g: "g \<in> set sql_operators" using assms(2) by (simp add: lang_op_re)
  then have "plan_where p \<noteq> None" using assms(4,5) c(1) by (auto simp: singleWhere_def nonempty_def sql_operators_def)
  then show ?thesis using assms c g literal_value_plain(1) by (simp add: where_typed_def)
qed

lemma op_nonempty: "lang op_re g \<Longrightarrow> nonempty (Some g) = Some g"
  by (auto simp: lang_op_re sql_operators_def nonempty_def)

lemma captured:
  assumes "re_exec r s = Some m" and "\<And>q. (n, q) \<in> set (groups r) \<Longrightarrow> q = p"
  shows "m n = Some u \<Longrightarrow> lang p u" and "n \<in> always r \<Longrightarrow> \<exists>u. m n = Some u \<and> lang p u"
proof -
  show l: "lang p u" if "m n = Some u" for u using re_execD(1) [OF assms(1) that] assms(2) by blast
  show "n \<in> always r \<Longrightarrow> \<exists>u. m n = Some u \<and> lang p u" using re_execD(2) [OF assms(1), of n] l by blast
qed

lemma parseDelete_typed:
  assumes "parseDelete sql = Inr p"
  shows "where_typed p"
proof -
  obtain m where m: "re_exec delete_re (js_trim sql) = Some m"
      and p: "p = \<lparr>whereCol = m 2, whereOp = m 3, whereVal = unescaped_value (grp m 4), d_table = grp m 1\<rparr>"
    using assms by (auto simp: parseDelete_def split: option.splits)
  obtain c g v where "m 2 = Some c" "lang ident c" "m 3 = Some g" "lang op_re g" "m 4 = Some v" "lang val_re v"
    using captured(2) [OF m, of 2 ident] captured(2) [OF m, of 3 op_re] captured(2) [OF m, of 4 val_re] always_sql(1)
    by (auto simp: groups_sql)
  then show ?thesis using literal_value_plain(2)
    by (intro where_typedI [of c g v]) (simp_all add: p grp_def)
qed

lemma parseUpdate_typed:
  assumes "parseUpdate sql = Inr p"
  shows "where_typed p"
proof -
  obtain m sets where m: "re_exec update_re (js_trim sql) = Some m"
      and p: "p = \<lparr>whereCol = m 3, whereOp = m 4, whereVal = unescaped_value (grp m 5), u_table = grp m 1, u_sets = sets\<rparr>"
    using assms by (auto simp: parseUpdate_def res_bind_eqs split: option.splits if_splits)
  obtain c g v where "m 3 = Some c" "lang ident c" "m 4 = Some g" "lang op_re g" "m 5 = Some v" "lang val_re v"
    using captured(2) [OF m, of 3 ident] captured(2) [OF m, of 4 op_re] captured(2) [OF m, of 5 val_re] always_sql(2)
    by (auto simp: groups_sql)
  then show ?thesis using literal_value_plain(2)
    by (intro where_typedI [of c g v]) (simp_all add: p grp_def)
qed

lemma optional_where:
  assumes m: "re_exec r s = Some m" and g: "\<And>q. (k, q) \<in> set (groups r) \<Longrightarrow> q = ident"
    "\<And>q. (k + 1, q) \<in> set (groups r) \<Longrightarrow> q = op_re" "\<And>q. (k + 2, q) \<in> set (groups r) \<Longrightarrow> q = val_re"
    and t: "together k (k + 1) r" "together (k + 1) (k + 2) r"
    and p: "whereCol p = m k" "whereOp p = nonempty (m (k + 1))" "whereVal p = optional_value (m (k + 2))"
  shows "where_typed p \<or> where_absent p"
proof (cases "m k")
  case None
  then have "m (k + 1) = None" "m (k + 2) = None" using re_execD(3) [OF m t(1)] re_execD(3) [OF m t(2)] by simp_all
  then show ?thesis using None by (simp add: where_absent_def p optional_value_def nonempty_def singleWhere_def)
next
  case (Some c)
  then obtain gl v where "m (k + 1) = Some gl" "m (k + 2) = Some v"
    using re_execD(3) [OF m t(1)] re_execD(3) [OF m t(2)] by auto
  moreover have "lang ident c" "lang op_re gl" "lang val_re v"
    using captured(1) [of r s m, OF m] g Some calculation by blast+
  ultimately show ?thesis using Some op_nonempty
    by (intro disjI1 where_typedI [of c gl v]) (simp_all add: p optional_value_def)
qed

lemma parseSelect_typed:
  assumes "parseSelect sql = Inr p"
  shows "where_typed p \<or> where_absent p"
proof -
  obtain m where m: "re_exec select_re (js_trim sql) = Some m"
      and p: "whereCol p = m 3" "whereOp p = nonempty (m 4)" "whereVal p = optional_value (m 5)"
    using assms by (auto simp: parseSelect_def split: option.splits)
  show ?thesis by (rule optional_where [OF m, of 3]) (use together_sql p in \<open>simp_all add: groups_sql\<close>)
qed

lemma parseJoin_typed:
  assumes "parseJoin sql = Inr p"
  shows "where_typed p \<or> where_absent p"
proof -
  obtain m where m: "re_exec join_re (js_trim sql) = Some m"
      and p: "whereCol p = m 8" "whereOp p = nonempty (m 9)" "whereVal p = optional_value (m 10)"
    using assms by (auto simp: parseJoin_def split: option.splits if_splits)
  show ?thesis by (rule optional_where [OF m, of 8]) (use together_sql p in \<open>simp_all add: groups_sql\<close>)
qed

text \<open>C37. The WHERE clause of a statement that parses is never dropped: in every accepted UPDATE and
  DELETE, and in every accepted SELECT or JOIN that has one, the column is a non-empty word, the
  operator one of the six, the value a string without quotes or a number other than \<open>NaN\<close>, and
  \<open>singleWhere\<close> maps the three to a condition.\<close>

theorem accepted_where_typed:
  "(parseUpdate sql = Inr u \<longrightarrow> where_typed u) \<and> (parseDelete sql = Inr d \<longrightarrow> where_typed d)
   \<and> (parseSelect sql = Inr s \<longrightarrow> where_typed s \<or> where_absent s)
   \<and> (parseJoin sql = Inr j \<longrightarrow> where_typed j \<or> where_absent j)"
  using parseUpdate_typed parseDelete_typed parseSelect_typed parseJoin_typed by blast

theorem accepted_where_typed_witness:
  "where_typed \<lparr>whereCol = Some (lit ''a''), whereOp = Some (lit ''=''), whereVal = Num (Fin 5), d_table = lit ''t''\<rparr>"
proof -
  have "parseDelete (lit ''DELETE FROM t WHERE a = 5;'')
      = Inr \<lparr>whereCol = Some (lit ''a''), whereOp = Some (lit ''=''), whereVal = Num (Fin 5), d_table = lit ''t''\<rparr>"
    by code_simp
  then show ?thesis using accepted_where_typed by blast
qed

end
