(* ===== verification/SqlPrint.thy ===== *)
theory SqlPrint
  imports SqlProps
begin

text \<open>
  Round trips: statements written in the form the documentation gives parse to exactly what they say,
  whatever the names and the values, and the texts that the grammar does not carry.
\<close>

section \<open>Printed clauses\<close>

definition is_word :: "jstr \<Rightarrow> bool" where
  "is_word c \<longleftrightarrow> c \<noteq> [] \<and> list_all is_ident_char c"

fun print_value :: "jsval \<Rightarrow> jstr" where
  \<comment> \<open>a WHERE literal\<close>
  "print_value (Str s) = 39 # s @ [39]"
| "print_value (Num n) = dec_digits (num_int n)"
| "print_value _ = []"

definition printable :: "jsval \<Rightarrow> bool" where
  "printable v \<longleftrightarrow> (\<exists>s. v = Str s \<and> 39 \<notin> set s) \<or> (\<exists>n. v = Num (int_num n) \<and> 0 \<le> n \<and> n \<le> 2 ^ 53)"

definition print_where :: "jstr \<Rightarrow> jstr \<Rightarrow> jsval \<Rightarrow> jstr" where
  "print_where c g v = lit '' WHERE '' @ c @ lit '' '' @ g @ lit '' '' @ print_value v"

lemma ident_char_facts: "is_ident_char c \<Longrightarrow> \<not> is_white_space c \<and> c \<noteq> 39 \<and> c \<noteq> 44 \<and> c \<noteq> 40 \<and> c \<noteq> 41 \<and> c \<noteq> 42 \<and> c \<noteq> 59"
  by (auto simp: is_ident_char_def is_ident_start_def is_digit_def is_white_space_def word_le_nat_alt word_unat_eq_iff)

lemma stops_space_word: "is_word c \<Longrightarrow> stops SpaceChar (c @ s)"
  by (cases c) (auto simp: is_word_def dest: ident_char_facts)

lemma space_facts: "is_white_space 32" "\<not> is_ident_char 32" "lit '' '' = [32]"
  by (simp_all add: is_white_space_def is_ident_char_def is_ident_start_def is_digit_def lit_eval)

lemma eats_ws: "stops SpaceChar s \<Longrightarrow> eats ws [32] s m m"
  unfolding ws_def by (rule eats_Plus) (simp_all add: space_facts)

lemma eats_ows: "stops SpaceChar s \<Longrightarrow> eats ows [] s m m" "stops SpaceChar s \<Longrightarrow> eats ows [32] s m m"
  unfolding ows_def by (rule eats_Star; simp add: space_facts)+

lemma eats_ident: "is_word c \<Longrightarrow> stops WordChar s \<Longrightarrow> eats ident c s m m"
  unfolding ident_def by (rule eats_Plus) (auto simp: is_word_def list_all_iff)

lemma eats_op: "g \<in> set sql_operators \<Longrightarrow> stops (Exactly 61) s \<Longrightarrow> eats op_re g s m m"
  unfolding sql_operators_def
  by (cases s) (auto simp: eats_def picks_def op_re_def exact_def lit_eval)

lemma stops_space_op: "g \<in> set sql_operators \<Longrightarrow> stops SpaceChar (g @ s)"
  by (auto simp: sql_operators_def lit_eval is_white_space_def)

lemma stops_space_value: "printable v \<Longrightarrow> stops SpaceChar (print_value v @ s)"
proof -
  assume "printable v"
  then consider t where "v = Str t" | n where "v = Num (int_num n)" "0 \<le> n" by (auto simp: printable_def)
  then show ?thesis
  proof cases
    case 1
    then show ?thesis by (simp add: is_white_space_def)
  next
    case 2
    then show ?thesis using dec_digits_head [of n] digit_not by (cases "dec_digits n") auto
  qed
qed

definition after_value :: "jstr \<Rightarrow> bool" where
  \<comment> \<open>a text that does not continue a number\<close>
  "after_value s \<longleftrightarrow> stops DigitChar s \<and> stops (Exactly 46) s"

lemma eats_val:
  assumes "printable v" and "after_value s"
  shows "eats val_re (print_value v) s m m"
proof -
  from assms(1) consider t where "v = Str t" "39 \<notin> set t" | n where "v = Num (int_num n)" "0 \<le> n" by (auto simp: printable_def)
  then show ?thesis
  proof cases
    case 1
    have t: "list_all (in_class (Except 39)) t" using 1(2) by (auto simp: list_all_iff)
    have "eats (seqs [One (Exactly 39), Star (Except 39), One (Exactly 39)]) ([39] @ t @ [39]) s m m"
      by (rule eats_step [OF eats_One], simp, rule eats_step [OF eats_Star [OF t]], simp, simp add: eats_One)
    then show ?thesis unfolding val_re_def using 1 eats_Alt1 by fastforce
  next
    case 2
    let ?d = "dec_digits n"
    have h: "\<not> hd ?d = 39" using dec_digits_head [OF 2(2)] digit_not by blast
    have "eats (Seq (Plus DigitChar) (Opt (Seq (One (Exactly 46)) (Plus DigitChar)))) (?d @ []) s m m"
    proof (rule eats_Seq)
      show "eats (Plus DigitChar) ?d ([] @ s) m m"
        by (rule eats_Plus) (use dec_digits_all [OF 2(2)] assms(2) in \<open>auto simp: list_all_iff after_value_def\<close>)
      show "eats (Opt (Seq (One (Exactly 46)) (Plus DigitChar))) [] s m m"
        by (intro eats_skip refuses_Seq refuses_One) (use assms(2) in \<open>simp add: after_value_def\<close>)
    qed
    moreover have "refuses (seqs [One (Exactly 39), Star (Except 39), One (Exactly 39)]) (?d @ s)"
      by (rule refuses_seqs, rule refuses_One) (use h in \<open>cases ?d; simp\<close>)
    ultimately show ?thesis unfolding val_re_def using 2 eats_Alt2 by fastforce
  qed
qed

lemma eats_where:
  assumes "is_word c" and "g \<in> set sql_operators" and "printable v" and "after_value s"
  shows "eats (seqs (where_re k)) (print_where c g v) s m ((k + 2, print_value v) # (k + 1, g) # (k, c) # m)"
proof -
  have w: "lit '' WHERE '' = [32] @ lit ''WHERE'' @ [32]" by (simp add: lit_eval)
  have sp: "stops SpaceChar (lit ''WHERE'' @ x)" for x by (simp add: lit_eval is_white_space_def)
  show ?thesis unfolding where_re_def print_where_def w space_facts(3) append_assoc
    by (rule eats_step [OF eats_ws], simp add: sp,
        rule eats_step [OF eats_word], rule eats_step [OF eats_ws], simp add: stops_space_word assms(1),
        rule eats_step [OF eats_Cap [OF eats_ident [OF assms(1)]]], simp add: space_facts,
        rule eats_step [OF eats_ows(2)], simp add: stops_space_op assms(2),
        rule eats_step [OF eats_Cap [OF eats_op [OF assms(2)]]], simp,
        rule eats_step [OF eats_ows(2)], simp add: stops_space_value assms(3),
        simp add: eats_Cap eats_val assms(3,4))
qed

lemma concat_map_assoc: "concat (map f (concat (map g xs))) = concat (map (\<lambda>x. concat (map f (g x))) xs)"
  by (induction xs) simp_all

lemma results_seqs_append:
  "xs \<noteq> [] \<Longrightarrow> ys \<noteq> [] \<Longrightarrow> results (seqs (xs @ ys)) (a, m) = results (Seq (seqs xs) (seqs ys)) (a, m)"
proof (induction xs arbitrary: a m rule: seqs.induct)
  case (2 r)
  then show ?case by (cases ys) simp_all
next
  case (3 r q rs)
  then have "results (seqs (q # rs @ ys)) st = concat (map (results (seqs ys)) (results (seqs (q # rs)) st))" for st
    by (cases st) simp
  then have e: "results (seqs (q # rs @ ys)) = (\<lambda>st. concat (map (results (seqs ys)) (results (seqs (q # rs)) st)))"
    by (rule ext)
  show ?case by (simp add: concat_map_assoc e)
qed simp

lemma eats_append:
  assumes "xs \<noteq> []" "ys \<noteq> []" and "eats (seqs xs) t (u @ s) m m1" and "eats (seqs ys) u s m1 m2"
  shows "eats (seqs (xs @ ys)) (t @ u) s m m2"
  using eats_Seq [OF assms(3,4)] by (simp add: eats_def picks_def results_seqs_append [OF assms(1,2)])

definition terminator :: "jstr \<Rightarrow> bool" where
  \<comment> \<open>nothing, or the semicolon\<close>
  "terminator s \<longleftrightarrow> s = [] \<or> s = [59]"

lemma eats_tail: "terminator s \<Longrightarrow> eats (seqs tail_re) s [] m m"
proof -
  have n: "\<not> is_white_space 59" by (simp add: is_white_space_def)
  have e: "eats (seqs [Opt (One (Exactly 59)), End]) s [] m m" if "terminator s"
  proof (cases "s = []")
    case True
    then show ?thesis using eats_step [OF eats_skip [OF refuses_One, of "Exactly 59" "[] @ []"], of End "[]" m m] eats_End by simp
  next
    case False
    then have s: "s = [59] @ []" using that by (simp add: terminator_def)
    show ?thesis unfolding s by (rule eats_step [OF eats_Opt [OF eats_One]]) (simp_all add: eats_End)
  qed
  assume t: "terminator s"
  have "eats (seqs (ows # Opt (One (Exactly 59)) # [End])) ([] @ s) [] m m"
    by (rule eats_step [OF eats_ows(1)]) (use t e n in \<open>auto simp: terminator_def\<close>)
  then show ?thesis by (simp add: tail_re_def)
qed

lemma terminator_facts: "terminator s \<Longrightarrow> after_value s" "terminator s \<Longrightarrow> stops WordChar s"
  by (auto simp: terminator_def after_value_def is_digit_def is_ident_char_def is_ident_start_def)

lemma last_value: "printable v \<Longrightarrow> \<not> is_white_space (last (print_value v)) \<and> print_value v \<noteq> []"
proof -
  assume "printable v"
  then consider t where "v = Str t" | n where "v = Num (int_num n)" "0 \<le> n" by (auto simp: printable_def)
  then show ?thesis
  proof cases
    case 1
    then show ?thesis by (simp add: is_white_space_def)
  next
    case 2
    then have "is_digit (last (dec_digits n))" using dec_digits_digits [of n] by simp
    then show ?thesis using 2 digit_not by simp
  qed
qed

lemma value_read_back:
  assumes "printable v"
  shows "unescaped_value (print_value v) = v" "literal_value (print_value v) = v"
proof -
  from assms consider t where "v = Str t" "39 \<notin> set t" | n where "v = Num (int_num n)" "0 \<le> n" "n \<le> 2 ^ 53"
    by (auto simp: printable_def)
  then have "unescaped_value (print_value v) = v \<and> literal_value (print_value v) = v"
  proof cases
    case 1
    then show ?thesis by (simp add: unescaped_value_def literal_value_def unescape_id butlast_append)
  next
    case 2
    have "take 1 (dec_digits n) \<noteq> [39]" using dec_digits_head [OF 2(2)] digit_not by (cases "dec_digits n") auto
    then show ?thesis using 2 by (simp add: unescaped_value_def literal_value_def string_to_num_dec_digits)
  qed
  then show "unescaped_value (print_value v) = v" "literal_value (print_value v) = v" by simp_all
qed

lemma stops_word_where: "stops WordChar (print_where c g v @ s)"
proof -
  have "lit '' WHERE '' = 32 # lit ''WHERE ''" by (simp add: lit_eval)
  then show ?thesis by (simp add: print_where_def space_facts)
qed

definition print_delete :: "jstr \<Rightarrow> jstr \<Rightarrow> jstr \<Rightarrow> jsval \<Rightarrow> jstr \<Rightarrow> jstr" where
  "print_delete t c g v fin = lit ''DELETE FROM '' @ t @ print_where c g v @ fin"

lemma trim_statement:
  assumes "printable v" and "terminator fin" and "\<not> is_white_space x"
  shows "js_trim (x # s @ print_value v @ fin) = x # s @ print_value v @ fin"
proof (rule js_trim_ends)
  have n: "\<not> is_white_space 59" by (simp add: is_white_space_def)
  have "last (x # s @ print_value v @ fin) = (if fin = [] then last (print_value v) else last fin)"
    using last_value [OF assms(1)] by simp
  then show "\<not> is_white_space (last (x # s @ print_value v @ fin))"
    using last_value [OF assms(1)] assms(2) n by (auto simp: terminator_def)
qed (use assms(3) in simp_all)

lemma parseDelete_print:
  assumes "is_word t" "is_word c" "g \<in> set sql_operators" "printable v" "terminator fin"
  shows "parseDelete (print_delete t c g v fin) = Inr \<lparr>whereCol = Some c, whereOp = Some g, whereVal = v, d_table = t\<rparr>"
proof -
  have d: "lit ''DELETE FROM '' = lit ''DELETE'' @ [32] @ lit ''FROM'' @ [32]" by (simp add: lit_eval)
  have sp: "stops SpaceChar (lit ''FROM'' @ x)" for x by (simp add: lit_eval is_white_space_def)
  let ?s = "print_delete t c g v fin"
  have start: "eats (seqs [word ''DELETE'', ws, word ''FROM'', ws, Cap 1 ident]) (lit ''DELETE'' @ [32] @ lit ''FROM'' @ [32] @ t)
        ((print_where c g v @ fin) @ []) [] [(1, t)]"
    by (rule eats_step [OF eats_word], rule eats_step [OF eats_ws], simp add: sp, rule eats_step [OF eats_word],
        rule eats_step [OF eats_ws], simp add: stops_space_word assms(1))
      (simp add: eats_Cap eats_ident assms(1) stops_word_where)
  have rest: "eats (seqs (where_re 2 @ tail_re)) (print_where c g v @ fin) [] [(1, t)] [(4, print_value v), (3, g), (2, c), (1, t)]"
    by (rule eats_append) (use eats_where [OF assms(2-4), of fin 2] terminator_facts assms(5) eats_tail in
        \<open>simp_all add: where_re_def tail_re_def\<close>)
  have "eats (seqs ([word ''DELETE'', ws, word ''FROM'', ws, Cap 1 ident] @ where_re 2 @ tail_re))
      ((lit ''DELETE'' @ [32] @ lit ''FROM'' @ [32] @ t) @ print_where c g v @ fin) [] [] [(4, print_value v), (3, g), (2, c), (1, t)]"
    by (rule eats_append [OF _ _ start rest]) (simp_all add: where_re_def)
  then have e: "re_exec delete_re ?s = Some (map_of [(4, print_value v), (3, g), (2, c), (1, t)])"
    unfolding delete_re_def print_delete_def d by (intro eats_exec) simp
  have "js_trim ?s = ?s"
    using trim_statement [OF assms(4,5), of 68 "tl (lit ''DELETE FROM '' @ t @ lit '' WHERE '' @ c @ lit '' '' @ g @ lit '' '')"]
    by (simp add: print_delete_def print_where_def lit_eval is_white_space_def)
  then show ?thesis using e value_read_back [OF assms(4)] by (simp add: parseDelete_def grp_def)
qed

end
