(* ===== verification/SqlSelect.thy ===== *)
theory SqlSelect
  imports SqlPrint
begin

text \<open>
  The printed SELECT: a projection, and the three optional clauses in their order. The projection is a
  lazy group, so the proof follows the matcher through every split of the list that it tries before the
  right one.
\<close>

section \<open>The projection\<close>

lemma rev_runs:
  "list_all (in_class c) t \<Longrightarrow>
     \<exists>bs. rev (runs c (p, t @ s)) = map (\<lambda>i. (last_of p (take i t), drop i t @ s)) [0 ..< length t] @ (last_of p t, s) # bs"
proof (induction t arbitrary: p)
  case Nil
  obtain bs where "runs c (p, s) = bs @ [(p, s)]" using runs_last by blast
  then show ?case by (simp add: last_of_def)
next
  case (Cons x t)
  then obtain bs where bs: "rev (runs c (Some x, t @ s))
      = map (\<lambda>i. (last_of (Some x) (take i t), drop i t @ s)) [0 ..< length t] @ (last_of (Some x) t, s) # bs" by auto
  have l: "last_of (Some x) u = last_of p (x # u)" for u by (simp add: last_of_def)
  have u: "[0 ..< length (x # t)] = 0 # map Suc [0 ..< length t]" by (simp add: upt_conv_Cons map_Suc_upt del: upt_Suc)
  show ?case using Cons.prems bs unfolding u by (simp add: comp_def l last_of_def)
qed

lemma rev_runs1:
  assumes "list_all (in_class c) t" and "t \<noteq> []"
  shows "\<exists>bs. rev (runs1 c (p, t @ s)) = map (\<lambda>i. (last_of p (take i t), drop i t @ s)) [1 ..< length t] @ (last_of p t, s) # bs"
proof -
  obtain x u where t: "t = x # u" using assms(2) by (cases t) auto
  have l: "last_of (Some x) v = last_of p (x # v)" for v by (simp add: last_of_def)
  have i: "[1 ..< length t] = map Suc [0 ..< length u]" by (simp add: t map_Suc_upt)
  show ?thesis using rev_runs [of c u "Some x" s] assms(1) unfolding i by (simp add: t comp_def l)
qed

lemma eats_lazy_step:
  assumes "list_all (in_class c) t" and "t \<noteq> []" and "eats (seqs (q # rs)) u s ((n, t) # m) m'"
    and "\<And>v w. t = v @ w \<Longrightarrow> v \<noteq> [] \<Longrightarrow> w \<noteq> [] \<Longrightarrow> refuses (seqs (q # rs)) (w @ u @ s)"
  shows "eats (seqs (Cap n (LazyPlus c) # q # rs)) (t @ u) s m m'"
  unfolding eats_def
proof
  fix p
  obtain bs where bs: "rev (runs1 c (p, t @ u @ s))
      = map (\<lambda>i. (last_of p (take i t), drop i t @ u @ s)) [1 ..< length t] @ (last_of p t, u @ s) # bs"
    using rev_runs1 [OF assms(1,2)] by blast
  obtain z sts where z: "results (seqs (q # rs)) ((last_of p t, u @ s), (n, t) # m) = ((z, s), m') # sts"
    using assms(3) unfolding eats_def picks_def by blast
  have r: "results (seqs (q # rs)) ((y, drop i t @ u @ s), m1) = []" if "i \<in> set [1 ..< length t]" for y i m1
    using assms(4) [of "take i t" "drop i t"] that assms(2) by (simp add: refuses_def)
  have "results (seqs (Cap n (LazyPlus c) # q # rs)) ((p, t @ u @ s), m)
      = concat (map (\<lambda>b. results (seqs (q # rs)) (b, (n, consumed (p, t @ u @ s) b) # m)) (rev (runs1 c (p, t @ u @ s))))"
    by (simp add: comp_def)
  also have "\<dots> = ((z, s), m') # sts @ concat (map (\<lambda>b. results (seqs (q # rs)) (b, (n, consumed (p, t @ u @ s) b) # m)) bs)"
    unfolding bs using r z by (simp add: comp_def consumed_def del: seqs.simps)
  finally show "\<exists>q'. picks (seqs (Cap n (LazyPlus c) # q # rs)) ((p, (t @ u) @ s), m) ((q', s), m')"
    unfolding picks_def append_assoc by blast
qed

definition column_name :: "jstr \<Rightarrow> bool" where
  \<comment> \<open>a word other than FROM\<close>
  "column_name c \<longleftrightarrow> is_word c \<and> map ascii_upper c \<noteq> lit ''FROM''"

fun print_columns :: "projection \<Rightarrow> jstr" where
  "print_columns AllColumns = lit ''*''"
| "print_columns (Columns cs) = join_with (lit '', '') cs"

definition projection_ok :: "projection \<Rightarrow> bool" where
  "projection_ok p \<longleftrightarrow> (case p of AllColumns \<Rightarrow> True | Columns cs \<Rightarrow> cs \<noteq> [] \<and> list_all column_name cs)"

lemma lang_word: "lang (word w) t \<longleftrightarrow> map ascii_upper t = map (\<lambda>c. ascii_upper (cu c)) w"
proof -
  have "lang (seqs (map (\<lambda>c. One (Folded (cu c))) w)) t \<longleftrightarrow> map ascii_upper t = map (\<lambda>c. ascii_upper (cu c)) w"
  proof (induction w arbitrary: t)
    case (Cons c w)
    show ?case
    proof (cases w)
      case Nil
      then show ?thesis by (auto simp: map_eq_Cons_conv)
    next
      case (Cons d u)
      have "lang (seqs (map (\<lambda>c. One (Folded (cu c))) (c # w))) t \<longleftrightarrow>
          (\<exists>x v. t = x # v \<and> ascii_upper x = ascii_upper (cu c) \<and> lang (seqs (map (\<lambda>c. One (Folded (cu c))) w)) v)"
        unfolding Cons by (simp only: list.map lang_seqs lang.simps in_class.simps) (metis append_Cons append_Nil)
      then show ?thesis using Cons.IH by (simp only: map_eq_Cons_conv list.map)
    qed
  qed simp
  then show ?thesis unfolding word_def .
qed

lemma results_nonempty: "results r st \<noteq> [] \<longleftrightarrow> (\<exists>st'. st' \<in> set (results r st))"
  by (cases "results r st") auto

lemma ident_upper: "ascii_upper x \<in> set (lit ''FROM'') \<Longrightarrow> is_ident_char x"
  by (auto simp: lit_eval ascii_upper_def is_ident_char_def is_ident_start_def word_le_nat_alt word_unat_eq_iff unat_sub_if' split: if_splits)

lemma takeWhile_word:
  "list_all is_ident_char c \<Longrightarrow> stops WordChar s \<Longrightarrow> takeWhile is_ident_char (c @ s) = c"
  by (cases s) (auto simp: list_all_iff)

lemma refuses_word_FROM:
  assumes "column_name c" and "stops WordChar s"
  shows "refuses (seqs (ws # word ''FROM'' # ws # q # rs)) (32 # c @ s)"
  unfolding refuses_def
proof (intro allI, rule ccontr)
  fix p m
  assume "results (seqs (ws # word ''FROM'' # ws # q # rs)) ((p, 32 # c @ s), m) \<noteq> []"
  then obtain st1 st2 st3 where st: "st1 \<in> set (results ws ((p, 32 # c @ s), m))" "st2 \<in> set (results (word ''FROM'') st1)"
      "st3 \<in> set (results ws st2)"
    unfolding results_nonempty seqs.simps results_Seq by blast
  obtain t1 where t1: "32 # c @ s = t1 @ snd (fst st1)" "t1 \<noteq> []" "list_all is_white_space t1"
    using results_sound [OF st(1)] unfolding matched_def advance_def ws_def by (auto simp: list_all_iff)
  obtain t2 where t2: "snd (fst st1) = t2 @ snd (fst st2)" "map ascii_upper t2 = lit ''FROM''"
    using results_sound [OF st(2)] unfolding matched_def advance_def lang_word by (auto simp: lit_eval ascii_upper_def)
  obtain t3 where t3: "snd (fst st2) = t3 @ snd (fst st3)" "t3 \<noteq> []" "list_all is_white_space t3"
    using results_sound [OF st(3)] unfolding matched_def advance_def ws_def by (auto simp: list_all_iff)
  have c: "c \<noteq> []" "list_all is_ident_char c" "map ascii_upper c \<noteq> lit ''FROM''"
    using assms(1) by (simp_all add: column_name_def is_word_def)
  have "\<not> is_white_space (hd (c @ s))" using c(1,2) ident_char_facts by (cases c) auto
  then have "tl t1 = []" using t1 by (cases t1; cases "tl t1") (auto simp: append_eq_Cons_conv)
  then have cs: "c @ s = t2 @ snd (fst st2)" using t1(1,2) t2(1) by (cases t1) auto
  have "\<forall>x\<in>set t2. is_ident_char x"
  proof
    fix x
    assume "x \<in> set t2"
    then have "ascii_upper x \<in> set (lit ''FROM'')" unfolding t2(2) [symmetric] by simp
    then show "is_ident_char x" by (rule ident_upper)
  qed
  then have i2: "list_all is_ident_char t2" by (simp add: list_all_iff)
  have "stops WordChar (snd (fst st2))" using t3 ident_char_facts by (cases t3) auto
  then have "t2 = c" using takeWhile_word [OF i2] takeWhile_word [OF c(2) assms(2)] cs by metis
  then show False using c(3) t2(2) by simp
qed

lemma columns_suffix:
  assumes "list_all column_name cs" and "join_with [44, 32] cs = v @ w" and "w \<noteq> []"
  shows "\<not> is_white_space (hd w) \<or> (\<exists>c z. w = 32 # c @ z \<and> column_name c \<and> (z = [] \<or> hd z = 44))"
  using assms
proof (induction cs arbitrary: v)
  case (Cons c cs)
  have head: "\<not> is_white_space x" if "x \<in> set c" for x
    using Cons.prems(1) that ident_char_facts by (auto simp: column_name_def is_word_def list_all_iff)
  show ?case
  proof (cases cs)
    case Nil
    then have "c = v @ w" using Cons.prems(2) by simp
    then have "hd w \<in> set c" using Cons.prems(3) by simp
    then show ?thesis using head by blast
  next
    case (Cons d ds)
    then have e: "c @ 44 # 32 # join_with [44, 32] cs = v @ w" using Cons.prems(2) by simp
    show ?thesis
    proof (cases "length v < length c")
      case True
      then obtain y where "c = v @ y" "y \<noteq> []" "w = y @ 44 # 32 # join_with [44, 32] cs"
        using e by (auto simp: append_eq_append_conv2)
      then show ?thesis using head by (cases y) auto
    next
      case False
      then obtain y where y: "v = c @ y" "44 # 32 # join_with [44, 32] cs = y @ w" using e by (auto simp: append_eq_append_conv2)
      consider "y = []" | "y = [44]" | u where "y = 44 # 32 # u"
        using y(2) by (cases y; cases "tl y") auto
      then show ?thesis
      proof cases
        case 1
        then show ?thesis using y(2) by (auto simp: is_white_space_def)
      next
        case 2
        then have "w = 32 # d @ (if ds = [] then [] else 44 # 32 # join_with [44, 32] ds)"
          using y(2) Cons by (cases ds) simp_all
        moreover have "column_name d" using Cons.prems(1) Cons by simp
        ultimately show ?thesis 
          by (intro disjI2 exI [of _ d] exI [of _ "if ds = [] then [] else 44 # 32 # join_with [44, 32] ds"]) simp
      next
        case 3
        then show ?thesis using Cons.IH [of u] Cons.prems y(2) by simp
      qed
    qed
  qed
qed simp

section \<open>The optional clauses\<close>

fun print_dir :: "order_dir \<Rightarrow> jstr" where
  "print_dir Asc = lit ''ASC''"
| "print_dir Desc = lit ''DESC''"

definition print_opt_where :: "(jstr \<times> jstr \<times> jsval) option \<Rightarrow> jstr" where
  "print_opt_where w = (case w of None \<Rightarrow> [] | Some (c, g, v) \<Rightarrow> print_where c g v)"

definition print_order :: "(jstr \<times> order_dir) option \<Rightarrow> jstr" where
  "print_order od = (case od of None \<Rightarrow> [] | Some (c, d) \<Rightarrow> lit '' ORDER BY '' @ c @ lit '' '' @ print_dir d)"

definition print_limit :: "int option \<Rightarrow> jstr" where
  "print_limit l = (case l of None \<Rightarrow> [] | Some n \<Rightarrow> lit '' LIMIT '' @ dec_digits n)"

definition clause_end :: "code_unit list \<Rightarrow> jstr \<Rightarrow> bool" where
  \<comment> \<open>the end of the statement, or a space and a keyword that starts with one of the letters\<close>
  "clause_end ks s \<longleftrightarrow> terminator s \<or> (\<exists>k z. s = 32 # k # z \<and> k \<in> set ks)"

lemma clause_end_stops: "clause_end ks s \<Longrightarrow> after_value s" "clause_end ks s \<Longrightarrow> stops WordChar s"
  unfolding clause_end_def using terminator_facts space_facts by (auto simp: after_value_def is_digit_def)

lemma clause_end_app:
  "terminator fin \<Longrightarrow> clause_end [79, 76] (print_order od @ print_limit l @ fin)"
  "terminator fin \<Longrightarrow> clause_end [76] (print_limit l @ fin)"
  "terminator fin \<Longrightarrow> clause_end [87, 79, 76] (print_opt_where w @ print_order od @ print_limit l @ fin)"
  by (auto simp: clause_end_def print_order_def print_limit_def print_opt_where_def print_where_def lit_eval split: option.splits)

lemma skip_clause:
  assumes "clause_end ks s" and "\<forall>k\<in>set ks. \<not> is_white_space k \<and> ascii_upper k \<noteq> ascii_upper (cu h)"
  shows "eats (Opt (seqs (ws # word (h # w) # q # rs))) [] s m m"
proof (rule eats_skip)
  consider "terminator s" | k z where "s = 32 # k # z" "k \<in> set ks" using assms(1) by (auto simp: clause_end_def)
  then show "refuses (seqs (ws # word (h # w) # q # rs)) s"
  proof cases
    case 1
    then have "stops SpaceChar s" by (auto simp: terminator_def is_white_space_def)
    then show ?thesis unfolding ws_def by (intro refuses_seqs refuses_Plus)
  next
    case 2
    then show ?thesis unfolding ws_def using refuses_keyword assms(2) by blast
  qed
qed

fun where_caps :: "(jstr \<times> jstr \<times> jsval) option \<Rightarrow> captures" where
  "where_caps None = []"
| "where_caps (Some (c, g, v)) = [(5, print_value v), (4, g), (3, c)]"

fun order_caps :: "(jstr \<times> order_dir) option \<Rightarrow> captures" where
  "order_caps None = []"
| "order_caps (Some (c, d)) = [(7, print_dir d), (6, c)]"

fun limit_caps :: "int option \<Rightarrow> captures" where
  "limit_caps None = []"
| "limit_caps (Some n) = [(8, dec_digits n)]"

definition where_ok :: "(jstr \<times> jstr \<times> jsval) option \<Rightarrow> bool" where
  "where_ok w \<longleftrightarrow> (\<forall>c g v. w = Some (c, g, v) \<longrightarrow> is_word c \<and> g \<in> set sql_operators \<and> printable v)"

definition order_ok :: "(jstr \<times> order_dir) option \<Rightarrow> bool" where
  "order_ok od \<longleftrightarrow> (\<forall>c d. od = Some (c, d) \<longrightarrow> is_word c)"

definition limit_ok :: "int option \<Rightarrow> bool" where
  "limit_ok l \<longleftrightarrow> (\<forall>n. l = Some n \<longrightarrow> 0 \<le> n \<and> n \<le> 2 ^ 53)"

lemma eats_opt_where:
  assumes "where_ok w" and "clause_end [79, 76] s"
  shows "eats (Opt (seqs (where_re 3))) (print_opt_where w) s m (where_caps w @ m)"
proof (cases w)
  case None
  then show ?thesis using skip_clause [OF assms(2), of "CHR ''W''"]
    by (simp add: print_opt_where_def where_re_def is_white_space_def ascii_upper_def cu_def del: seqs.simps)
next
  case (Some x)
  then obtain c g v where "w = Some (c, g, v)" by (cases x) auto
  then show ?thesis using eats_where [of c g v s 3 m] clause_end_stops(1) [OF assms(2)] assms(1) eats_Opt
    by (simp add: where_ok_def print_opt_where_def)
qed

lemma eats_dir: "eats (Alt (word ''ASC'') (word ''DESC'')) (print_dir d) s m m"
proof (cases d)
  case Asc
  then show ?thesis using eats_Alt1 [OF eats_word] by simp
next
  case Desc
  have "refuses (word ''ASC'') (lit ''DESC'' @ s)"
    by (simp add: word_def refuses_Seq refuses_One lit_eval ascii_upper_def)
  then show ?thesis using eats_Alt2 eats_word Desc by (simp del: lit_append)
qed

lemma eats_order:
  assumes "order_ok od" and "clause_end [76] s"
  shows "eats (Opt (seqs [ws, word ''ORDER'', ws, word ''BY'', ws, Cap 6 ident, Opt (seqs [ws, Cap 7 (Alt (word ''ASC'') (word ''DESC''))])]))
    (print_order od) s m (order_caps od @ m)"
proof (cases od)
  case None
  then show ?thesis using skip_clause [OF assms(2), of "CHR ''O''"]
    by (simp add: print_order_def is_white_space_def ascii_upper_def cu_def del: seqs.simps)
next
  case (Some x)
  then obtain c d where od: "od = Some (c, d)" by (cases x) auto
  have c: "is_word c" using assms(1) od by (simp add: order_ok_def)
  have sp: "stops SpaceChar (lit ''ORDER'' @ y)" "stops SpaceChar (lit ''BY'' @ y)" "stops SpaceChar (print_dir d @ y)" for y
    by (cases d; simp add: lit_eval is_white_space_def)+
  have "eats (Opt (seqs [ws, Cap 7 (Alt (word ''ASC'') (word ''DESC''))])) ([32] @ print_dir d) s ((6, c) # m)
      ((7, print_dir d) # (6, c) # m)"
    by (rule eats_Opt, rule eats_step [OF eats_ws], simp add: sp) (simp add: eats_Cap eats_dir)
  then have "eats (seqs [ws, word ''ORDER'', ws, word ''BY'', ws, Cap 6 ident, Opt (seqs [ws, Cap 7 (Alt (word ''ASC'') (word ''DESC''))])])
      ([32] @ lit ''ORDER'' @ [32] @ lit ''BY'' @ [32] @ c @ [32] @ print_dir d) s m ((7, print_dir d) # (6, c) # m)"
    by (intro eats_step [OF eats_ws] eats_step [OF eats_word] eats_step [OF eats_Cap [OF eats_ident [OF c]]])
      (simp_all add: sp stops_space_word [OF c] space_facts)
  moreover have "print_order od = [32] @ lit ''ORDER'' @ [32] @ lit ''BY'' @ [32] @ c @ [32] @ print_dir d"
    by (simp add: print_order_def od lit_eval)
  ultimately show ?thesis using eats_Opt by (simp add: od)
qed

lemma eats_limit:
  assumes "limit_ok l" and "terminator s"
  shows "eats (limit_re 8) (print_limit l) s m (limit_caps l @ m)"
proof (cases l)
  case None
  have "clause_end [] s" using assms(2) by (simp add: clause_end_def)
  then show ?thesis using None skip_clause [of "[]" s "CHR ''L''"] by (simp add: print_limit_def limit_re_def del: seqs.simps)
next
  case (Some n)
  then have n: "0 \<le> n" using assms(1) by (simp add: limit_ok_def)
  have d: "eats (Cap 8 (Plus DigitChar)) (dec_digits n) s m ((8, dec_digits n) # m)"
    using dec_digits_all [OF n] terminator_facts(1) [OF assms(2)]
    by (intro eats_Cap eats_Plus) (auto simp: list_all_iff after_value_def)
  have sp: "stops SpaceChar (lit ''LIMIT'' @ y)" for y by (simp add: lit_eval is_white_space_def)
  have sd: "stops SpaceChar (dec_digits n @ y)" for y
    using dec_digits_head [OF n] digit_not by (cases "dec_digits n") auto
  have "eats (seqs [ws, word ''LIMIT'', ws, Cap 8 (Plus DigitChar)]) ([32] @ lit ''LIMIT'' @ [32] @ dec_digits n) s m ((8, dec_digits n) # m)"
    by (intro eats_step [OF eats_ws] eats_step [OF eats_word]) (use d in \<open>simp_all add: sp sd\<close>)
  moreover have "print_limit l = [32] @ lit ''LIMIT'' @ [32] @ dec_digits n" by (simp add: print_limit_def Some lit_eval)
  ultimately show ?thesis unfolding limit_re_def using eats_Opt by (simp add: Some)
qed

section \<open>The statement\<close>

record select_stmt =
  st_columns :: projection
  st_table :: jstr
  st_where :: "(jstr \<times> jstr \<times> jsval) option"
  st_order :: "(jstr \<times> order_dir) option"
  st_limit :: "int option"

definition stmt_ok :: "select_stmt \<Rightarrow> bool" where
  "stmt_ok q \<longleftrightarrow> projection_ok (st_columns q) \<and> is_word (st_table q) \<and> where_ok (st_where q) \<and> order_ok (st_order q) \<and> limit_ok (st_limit q)"

definition print_select :: "select_stmt \<Rightarrow> jstr \<Rightarrow> jstr" where
  "print_select q fin = lit ''SELECT '' @ print_columns (st_columns q) @ lit '' FROM '' @ st_table q @ print_opt_where (st_where q)
     @ print_order (st_order q) @ print_limit (st_limit q) @ fin"

definition stmt_plan :: "select_stmt \<Rightarrow> parsed_select" where
  "stmt_plan q = \<lparr>whereCol = map_option fst (st_where q), whereOp = map_option (\<lambda>(c, g, v). g) (st_where q),
     whereVal = (case st_where q of None \<Rightarrow> Undefined | Some (c, g, v) \<Rightarrow> v), s_table = st_table q, s_columns = st_columns q,
     s_orderCol = map_option fst (st_order q), s_orderDir = map_option snd (st_order q), s_limit = map_option int_num (st_limit q)\<rparr>"

lemma comma_space: "lit '', '' = [44, 32]"
  by (simp add: lit_eval)

lemma join_chars: "x \<in> set (join_with [44, 32] cs) \<Longrightarrow> x = 44 \<or> x = 32 \<or> (\<exists>c\<in>set cs. x \<in> set c)"
  by (induction "[44, 32 :: code_unit]" cs rule: join_with.induct) auto

lemma join_ends:
  "cs \<noteq> [] \<Longrightarrow> [] \<notin> set cs \<Longrightarrow> join_with sep cs \<noteq> [] \<and> hd (join_with sep cs) = hd (hd cs) \<and> last (join_with sep cs) = last (last cs)"
  by (induction sep cs rule: join_with.induct) auto

lemma split_char_no: "ch \<notin> set c \<Longrightarrow> split_char ch c = [c]"
  by (induction c) auto

lemma split_char_at: "ch \<notin> set c \<Longrightarrow> split_char ch (c @ ch # s) = c # split_char ch s"
  by (induction c) auto

lemma split_join:
  assumes "cs \<noteq> []" and "\<forall>c\<in>set cs. 44 \<notin> set c"
  shows "split_char 44 (x @ join_with [44, 32] cs) = (if 44 \<in> set x then split_char 44 (x @ join_with [44, 32] cs) else (x @ hd cs) # map ((#) 32) (tl cs))"
  using assms
proof (induction cs arbitrary: x)
  case (Cons c cs)
  show ?case
  proof (cases cs)
    case Nil
    then show ?thesis using Cons.prems by (simp add: split_char_no)
  next
    case (Cons d ds)
    have "split_char 44 ((x @ c) @ 44 # ([32] @ join_with [44, 32] cs)) = (x @ c) # split_char 44 ([32] @ join_with [44, 32] cs)" if "44 \<notin> set x"
      by (rule split_char_at) (use that Cons.prems(2) in simp)
    then show ?thesis using Cons.IH [of "[32]"] Cons.prems(2) Cons by simp
  qed
qed simp

lemma word_trim: "is_word c \<Longrightarrow> js_trim c = c" "is_word c \<Longrightarrow> js_trim (32 # c) = c"
proof -
  assume c: "is_word c"
  then have ends: "\<not> is_white_space (hd c)" "\<not> is_white_space (last c)" "c \<noteq> []"
    using ident_char_facts by (auto simp: is_word_def list_all_iff)
  then show "js_trim c = c" by (intro js_trim_ends)
  then show "js_trim (32 # c) = c" using space_facts by (simp add: js_trim_def)
qed

lemma columns_text:
  assumes "projection_ok p"
  shows "list_all (in_class Dot) (print_columns p)" "print_columns p \<noteq> []" "\<not> is_white_space (hd (print_columns p))"
    "parse_columns (print_columns p) = p"
proof -
  have "list_all (in_class Dot) (print_columns p) \<and> print_columns p \<noteq> [] \<and> \<not> is_white_space (hd (print_columns p))
      \<and> parse_columns (print_columns p) = p"
  proof (cases p)
    case AllColumns
    have "js_trim (lit ''*'') = lit ''*''" by (rule js_trim_ends) (simp_all add: lit_eval is_white_space_def)
    then show ?thesis using AllColumns by (simp add: parse_columns_def lit_eval is_line_terminator_def is_white_space_def)
  next
    case (Columns cs)
    let ?t = "join_with [44, 32] cs"
    have cs: "cs \<noteq> []" "\<forall>c\<in>set cs. is_word c" using assms Columns by (auto simp: projection_ok_def list_all_iff column_name_def)
    have ident: "is_ident_char x" if "c \<in> set cs" "x \<in> set c" for c x
      using cs(2) that by (auto simp: is_word_def list_all_iff)
    have ne: "[] \<notin> set cs" using cs(2) by (auto simp: is_word_def)
    have h: "?t \<noteq> []" "hd ?t = hd (hd cs)" "last ?t = last (last cs)" using join_ends [OF cs(1) ne, of "[44, 32]"] by simp_all
    have ends: "is_ident_char (hd ?t)" "is_ident_char (last ?t)"
      using h cs(1) ne ident [of "hd cs" "hd (hd cs)"] ident [of "last cs" "last (last cs)"] by (metis hd_in_set last_in_set)+
    have dot: "\<not> is_line_terminator x" if "x \<in> set ?t" for x
    proof -
      have "is_white_space x" if "is_line_terminator x"
        using that by (auto simp: is_line_terminator_def is_white_space_def)
      moreover have "\<not> is_line_terminator 44" "\<not> is_line_terminator 32" by (simp_all add: is_line_terminator_def)
      ultimately show ?thesis using join_chars [OF that] ident ident_char_facts by blast
    qed
    have trim: "js_trim ?t = ?t" using h(1) ends ident_char_facts by (intro js_trim_ends) auto
    have "?t \<noteq> lit ''*''" using ends(1) by (auto simp: lit_eval is_ident_char_def is_ident_start_def is_digit_def)
    moreover have "split_char 44 ?t = hd cs # map ((#) 32) (tl cs)"
      using split_join [OF cs(1), of "[]"] ident ident_char_facts by fastforce
    moreover have "map js_trim (hd cs # map ((#) 32) (tl cs)) = cs"
      using cs word_trim by (cases cs) (auto simp: map_idI)
    ultimately have "parse_columns ?t = Columns cs" by (simp add: parse_columns_def Let_def trim)
    then show ?thesis using h(1) ends dot ident_char_facts Columns by (auto simp: comma_space list_all_iff)
  qed
  then show "list_all (in_class Dot) (print_columns p)" "print_columns p \<noteq> []" "\<not> is_white_space (hd (print_columns p))"
    "parse_columns (print_columns p) = p" by simp_all
qed

lemma refuses_inner:
  assumes "projection_ok p" and "print_columns p = v @ w" and "v \<noteq> []" and "w \<noteq> []"
  shows "refuses (seqs (ws # word ''FROM'' # ws # q # rs)) (w @ 32 # u)"
proof (cases p)
  case AllColumns
  then have "length (v @ w) = length (lit ''*'')" using arg_cong [OF assms(2), of length] by simp
  then show ?thesis using assms(3,4) by (cases v; cases w) auto
next
  case (Columns cs)
  then have "list_all column_name cs" "join_with [44, 32] cs = v @ w" using assms(1,2) by (simp_all add: projection_ok_def comma_space)
  then consider "\<not> is_white_space (hd w)" | c z where "w = 32 # c @ z" "column_name c" "z = [] \<or> hd z = 44"
    using columns_suffix [of cs v w] assms(4) by blast
  then show ?thesis
  proof cases
    case 1
    then show ?thesis unfolding ws_def using assms(4) by (intro refuses_seqs refuses_Plus) (cases w; simp)
  next
    case 2
    have "\<not> is_ident_char 44" by (simp add: is_ident_char_def is_ident_start_def is_digit_def)
    then have "stops WordChar (z @ 32 # u)" using 2(3) space_facts by (cases z) auto
    then show ?thesis using refuses_word_FROM [OF 2(2)] 2(1) by simp
  qed
qed

lemma eats_select:
  assumes "stmt_ok q" and "terminator fin"
  shows "eats select_re (lit ''SELECT'' @ [32] @ print_columns (st_columns q) @ [32] @ lit ''FROM'' @ [32] @ st_table q
     @ print_opt_where (st_where q) @ print_order (st_order q) @ print_limit (st_limit q) @ fin) [] []
     (limit_caps (st_limit q) @ order_caps (st_order q) @ where_caps (st_where q) @ [(2, st_table q), (1, print_columns (st_columns q))])"
proof -
  let ?cols = "print_columns (st_columns q)" and ?w = "print_opt_where (st_where q)" and ?o = "print_order (st_order q)"
    and ?l = "print_limit (st_limit q)" and ?m = "[(2, st_table q), (1, print_columns (st_columns q))]"
  have ok: "projection_ok (st_columns q)" "is_word (st_table q)" "where_ok (st_where q)" "order_ok (st_order q)" "limit_ok (st_limit q)"
    using assms(1) by (simp_all add: stmt_ok_def)
  have sp: "stops SpaceChar (lit ''FROM'' @ y)" for y by (simp add: lit_eval is_white_space_def)
  have sc: "stops SpaceChar (?cols @ y)" for y using columns_text(2,3) [OF ok(1)] by (cases ?cols) auto
  have tail: "eats (seqs (Opt (seqs (where_re 3)) # Opt (seqs [ws, word ''ORDER'', ws, word ''BY'', ws, Cap 6 ident,
        Opt (seqs [ws, Cap 7 (Alt (word ''ASC'') (word ''DESC''))])]) # limit_re 8 # tail_re)) (?w @ ?o @ ?l @ fin) [] m
      (limit_caps (st_limit q) @ order_caps (st_order q) @ where_caps (st_where q) @ m)" for m
    unfolding tail_re_def
    by (rule eats_step [OF eats_opt_where [OF ok(3)]], use clause_end_app(1) assms(2) in simp,
        rule eats_step [OF eats_order [OF ok(4)]], use clause_end_app(2) assms(2) in simp,
        rule eats_step [OF eats_limit [OF ok(5)]], use assms(2) in simp)
      (use eats_tail [OF assms(2)] in \<open>simp add: tail_re_def\<close>)
  have from_on: "eats (seqs (ws # word ''FROM'' # ws # Cap 2 ident # Opt (seqs (where_re 3)) # Opt (seqs [ws, word ''ORDER'', ws, word ''BY'', ws, Cap 6 ident,
        Opt (seqs [ws, Cap 7 (Alt (word ''ASC'') (word ''DESC''))])]) # limit_re 8 # tail_re))
      ([32] @ lit ''FROM'' @ [32] @ st_table q @ ?w @ ?o @ ?l @ fin) [] [(1, ?cols)]
      (limit_caps (st_limit q) @ order_caps (st_order q) @ where_caps (st_where q) @ ?m)"
    by (rule eats_step [OF eats_ws], simp add: sp, rule eats_step [OF eats_word], rule eats_step [OF eats_ws],
        simp add: stops_space_word [OF ok(2)], rule eats_step [OF eats_Cap [OF eats_ident [OF ok(2)]]],
        use clause_end_stops(2) [OF clause_end_app(3) [OF assms(2)]] in simp, rule tail)
  have e: "select_re = seqs (word ''SELECT'' # ws # Cap 1 (LazyPlus Dot) # ws # word ''FROM'' # ws # Cap 2 ident # Opt (seqs (where_re 3))
      # Opt (seqs [ws, word ''ORDER'', ws, word ''BY'', ws, Cap 6 ident, Opt (seqs [ws, Cap 7 (Alt (word ''ASC'') (word ''DESC''))])])
      # limit_re 8 # tail_re)"
    by (simp only: select_re_def append_Cons append_Nil)
  show ?thesis unfolding e
    by (rule eats_step [OF eats_word], rule eats_step [OF eats_ws], simp add: sc,
        rule eats_lazy_step [OF columns_text(1,2) [OF ok(1)] from_on])
      (simp del: seqs.simps add: refuses_inner [OF ok(1)])
qed

lemma last_nonspace:
  assumes "t \<noteq> []" "\<not> is_white_space (last t)"
  shows "\<not> is_white_space (last (x # s @ t))"
  using assms by simp

lemma stmt_last:
  assumes "stmt_ok q" and "terminator fin"
  shows "\<not> is_white_space (last (print_select q fin))" "js_trim (print_select q fin) = print_select q fin"
proof -
  have n: "\<not> is_white_space 59" by (simp add: is_white_space_def)
  have t: "st_table q \<noteq> []" "\<not> is_white_space (last (st_table q))"
    using assms(1) ident_char_facts by (auto simp: stmt_ok_def is_word_def list_all_iff)
  have w: "st_where q = None \<or> \<not> is_white_space (last (print_opt_where (st_where q))) \<and> print_opt_where (st_where q) \<noteq> []"
  proof (cases "st_where q")
    case (Some x)
    then obtain c g v where x: "st_where q = Some (c, g, v)" by (cases x) auto
    have "printable v" using assms(1) by (simp add: stmt_ok_def where_ok_def x)
    then show ?thesis using last_value [of v] x by (simp add: print_opt_where_def print_where_def)
  qed simp
  have od: "st_order q = None \<or> \<not> is_white_space (last (print_order (st_order q))) \<and> print_order (st_order q) \<noteq> []"
  proof (cases "st_order q")
    case (Some x)
    then obtain c d where x: "st_order q = Some (c, d)" by (cases x) auto
    show ?thesis by (cases d) (simp_all add: x print_order_def lit_eval is_white_space_def)
  qed simp
  have l: "st_limit q = None \<or> \<not> is_white_space (last (print_limit (st_limit q))) \<and> print_limit (st_limit q) \<noteq> []"
  proof (cases "st_limit q")
    case (Some k)
    then have "0 \<le> k" using assms(1) by (simp add: stmt_ok_def limit_ok_def)
    then have "is_digit (last (dec_digits k))" using dec_digits_digits [of k] by simp
    then show ?thesis using Some digit_not by (simp add: print_limit_def)
  qed simp
  have e: "print_opt_where None = []" "print_order None = []" "print_limit None = []"
    by (simp_all add: print_opt_where_def print_order_def print_limit_def)
  have "print_select q fin = 83 # tl (lit ''SELECT '') @ print_columns (st_columns q) @ lit '' FROM '' @ st_table q
      @ print_opt_where (st_where q) @ print_order (st_order q) @ print_limit (st_limit q) @ fin"
    by (simp add: print_select_def lit_eval)
  moreover have "\<not> is_white_space (last (st_table q @ print_opt_where (st_where q) @ print_order (st_order q) @ print_limit (st_limit q) @ fin))"
    using t w od l e assms(2) n by (auto simp: terminator_def)
  ultimately show l: "\<not> is_white_space (last (print_select q fin))" using t(1) by simp
  show "js_trim (print_select q fin) = print_select q fin"
    by (rule js_trim_ends [OF _ _ l]) (simp_all add: print_select_def lit_eval is_white_space_def)
qed

definition select_caps :: "select_stmt \<Rightarrow> nat \<rightharpoonup> jstr" where
  "select_caps q = map_of (limit_caps (st_limit q) @ order_caps (st_order q) @ where_caps (st_where q)
     @ [(2, st_table q), (1, print_columns (st_columns q))])"

lemma where_caps_lookup:
  "map_of (where_caps w) 3 = map_option fst w" "map_of (where_caps w) 4 = map_option (\<lambda>(c, g, v). g) w"
  "map_of (where_caps w) 5 = map_option (\<lambda>(c, g, v). print_value v) w"
  "k \<notin> {3, 4, 5} \<Longrightarrow> map_of (where_caps w) k = None"
  by (cases w rule: where_caps.cases; simp)+

lemma order_caps_lookup:
  "map_of (order_caps od) 6 = map_option fst od" "map_of (order_caps od) 7 = map_option (\<lambda>(c, d). print_dir d) od"
  "k \<notin> {6, 7} \<Longrightarrow> map_of (order_caps od) k = None"
  by (cases od rule: order_caps.cases; simp)+

lemma limit_caps_lookup:
  "map_of (limit_caps l) 8 = map_option dec_digits l" "k \<noteq> 8 \<Longrightarrow> map_of (limit_caps l) k = None"
  by (cases l; simp)+

lemma select_caps_lookup:
  "select_caps q 1 = Some (print_columns (st_columns q))" "select_caps q 2 = Some (st_table q)"
  "select_caps q 3 = map_option fst (st_where q)" "select_caps q 4 = map_option (\<lambda>(c, g, v). g) (st_where q)"
  "select_caps q 5 = map_option (\<lambda>(c, g, v). print_value v) (st_where q)"
  "select_caps q 6 = map_option fst (st_order q)" "select_caps q 7 = map_option (\<lambda>(c, d). print_dir d) (st_order q)"
  "select_caps q 8 = map_option dec_digits (st_limit q)"
  by (simp_all add: select_caps_def map_add_def where_caps_lookup order_caps_lookup limit_caps_lookup split: option.splits)

lemma plan_fields:
  assumes "stmt_ok q"
  shows "nonempty (map_option (\<lambda>(c, g, v). g) (st_where q)) = map_option (\<lambda>(c, g, v). g) (st_where q)"
    "optional_value (map_option (\<lambda>(c, g, v). print_value v) (st_where q)) = (case st_where q of None \<Rightarrow> Undefined | Some (c, g, v) \<Rightarrow> v)"
    "(case nonempty (map_option (\<lambda>(c, d). print_dir d) (st_order q)) of
        Some d \<Rightarrow> Some (if word_toLowerCase d = lit ''asc'' then Asc else Desc)
      | None \<Rightarrow> (case nonempty (map_option fst (st_order q)) of Some _ \<Rightarrow> Some Asc | None \<Rightarrow> None)) = map_option snd (st_order q)"
    "map_option string_to_num (nonempty (map_option dec_digits (st_limit q))) = map_option int_num (st_limit q)"
proof -
  have ok: "where_ok (st_where q)" "order_ok (st_order q)" "limit_ok (st_limit q)" using assms by (simp_all add: stmt_ok_def)
  have op: "g \<noteq> []" if "g \<in> set sql_operators" for g using that by (auto simp: sql_operators_def)
  show "nonempty (map_option (\<lambda>(c, g, v). g) (st_where q)) = map_option (\<lambda>(c, g, v). g) (st_where q)"
    using ok(1) op by (auto simp: nonempty_def where_ok_def)
  show "optional_value (map_option (\<lambda>(c, g, v). print_value v) (st_where q)) = (case st_where q of None \<Rightarrow> Undefined | Some (c, g, v) \<Rightarrow> v)"
    using ok(1) value_read_back(2) by (auto simp: optional_value_def where_ok_def split: option.splits)
  have dir: "word_toLowerCase (print_dir k) = (if k = Asc then lit ''asc'' else lit ''desc'')" "print_dir k \<noteq> []" for k
    by (cases k; simp add: word_toLowerCase_def lit_eval ascii_lower_def)+
  show "(case nonempty (map_option (\<lambda>(c, d). print_dir d) (st_order q)) of
        Some d \<Rightarrow> Some (if word_toLowerCase d = lit ''asc'' then Asc else Desc)
      | None \<Rightarrow> (case nonempty (map_option fst (st_order q)) of Some _ \<Rightarrow> Some Asc | None \<Rightarrow> None)) = map_option snd (st_order q)"
  proof (cases "st_order q")
    case (Some x)
    have "(if word_toLowerCase (print_dir k) = lit ''asc'' then Asc else Desc) = k" for k using dir(1) [of k] by (cases k) auto
    then show ?thesis using dir(2) Some by (cases x) (simp add: nonempty_def)
  qed (simp add: nonempty_def)
  show "map_option string_to_num (nonempty (map_option dec_digits (st_limit q))) = map_option int_num (st_limit q)"
    using ok(3) by (cases "st_limit q") (auto simp: nonempty_def limit_ok_def string_to_num_dec_digits)
qed

lemma parseSelect_print:
  assumes "stmt_ok q" and "terminator fin"
  shows "parseSelect (print_select q fin) = Inr (stmt_plan q)"
proof -
  have d: "lit ''SELECT '' = lit ''SELECT'' @ [32]" "lit '' FROM '' = [32] @ lit ''FROM'' @ [32]" by (simp_all add: lit_eval)
  have e: "re_exec select_re (print_select q fin) = Some (select_caps q)"
    using eats_exec [OF eats_select [OF assms]] unfolding select_caps_def by (simp add: print_select_def d)
  have c: "parse_columns (print_columns (st_columns q)) = st_columns q" using columns_text(4) assms(1) by (simp add: stmt_ok_def)
  show ?thesis
    unfolding parseSelect_def stmt_last(2) [OF assms] e option.case select_caps_lookup plan_fields [OF assms(1)] grp_def c
    by (simp add: stmt_plan_def)
qed

end
