(* ===== verification/SqlInsert.thy ===== *)
theory SqlInsert
  imports SqlSelect
begin

text \<open>
  The printed INSERT: literals and the quote-aware list splitter invert printing, so a row written as a
  statement comes back cell by cell, quotes, commas and semicolons in its strings included. A closing
  parenthesis in a string does not: the grammar ends the list at the first one.
\<close>

section \<open>Literals\<close>

fun escape :: "jstr \<Rightarrow> jstr" where
  "escape [] = []"
| "escape (c # s) = (if c = 39 then 39 # 39 # escape s else c # escape s)"

fun print_literal :: "jsval \<Rightarrow> jstr" where
  "print_literal (Str s) = 39 # escape s @ [39]"
| "print_literal Null = lit ''NULL''"
| "print_literal (Bool b) = (if b then lit ''TRUE'' else lit ''FALSE'')"
| "print_literal (Num n) = (if num_int n < 0 then 45 # dec_digits (- num_int n) else dec_digits (num_int n))"
| "print_literal _ = []"

definition literal_ok :: "jsval \<Rightarrow> bool" where
  "literal_ok v \<longleftrightarrow> (\<exists>s. v = Str s) \<or> v = Null \<or> (\<exists>b. v = Bool b) \<or> (\<exists>i. v = Num (int_num i) \<and> \<bar>i\<bar> \<le> 2 ^ 53)"

lemma unescape_escape: "unescape (escape s) = s"
proof (induction s)
  case (Cons c s)
  then show ?case
  proof (cases "c = 39")
    case False
    then show ?thesis using Cons by (cases "escape s") auto
  qed simp
qed simp

definition is_int_text :: "jstr \<Rightarrow> bool" where
  "is_int_text t \<longleftrightarrow> (\<exists>d. list_all is_digit d \<and> d \<noteq> [] \<and> (t = d \<or> t = 45 # d))"

lemma int_text:
  assumes "is_int_text t"
  shows "t \<noteq> []" "\<not> is_white_space (hd t)" "\<not> is_white_space (last t)" "hd t \<noteq> 39"
    "re_exec number_re t \<noteq> None" "js_toUpperCase t \<notin> {lit ''NULL'', lit ''TRUE'', lit ''FALSE''}"
    "\<forall>x\<in>set t. x = 45 \<or> is_digit x"
proof -
  obtain d where d: "list_all is_digit d" "d \<noteq> []" "t = d \<or> t = 45 # d" using assms by (auto simp: is_int_text_def)
  show x: "\<forall>x\<in>set t. x = 45 \<or> is_digit x" using d by (auto simp: list_all_iff)
  have n45: "\<not> is_white_space 45" by (simp add: is_white_space_def)
  show t0: "t \<noteq> []" using d by auto
  show "\<not> is_white_space (hd t)" "\<not> is_white_space (last t)" "hd t \<noteq> 39"
    using x n45 digit_not hd_in_set [OF t0] last_in_set [OF t0] by (metis, metis, force)
  have "stops DigitChar ([] :: jstr)" "list_all (in_class DigitChar) d" using d(1) by (auto simp: list_all_iff)
  note e = eats_Plus [OF this(2) d(2) this(1)]
  have o: "eats (seqs [Opt (Seq (One (Exactly 46)) (Plus DigitChar)), End]) ([] @ []) [] [] []"
    by (rule eats_step [OF eats_skip [OF refuses_Seq [OF refuses_One]]]) (simp_all add: eats_End)
  have r: "eats (seqs [Plus DigitChar, Opt (Seq (One (Exactly 46)) (Plus DigitChar)), End]) (d @ [] @ []) [] [] []"
    by (rule eats_step [OF _ o]) (use e in simp)
  have "eats number_re t [] [] []" unfolding number_re_def
  proof (cases "t = d")
    case True
    have "stops (Exactly 45) ((d @ [] @ []) @ [])" using d(1,2) digit_not by (cases d) auto
    then have "eats (Opt (One (Exactly 45))) [] ((d @ [] @ []) @ []) [] []" by (intro eats_skip refuses_One)
    from eats_step [OF this r] show "eats (seqs [Opt (One (Exactly 45)), Plus DigitChar, Opt (Seq (One (Exactly 46)) (Plus DigitChar)), End]) t [] [] []"
      using True by simp
  next
    case False
    have "eats (Opt (One (Exactly 45))) [45] ((d @ [] @ []) @ []) [] []" by (intro eats_Opt eats_One) simp
    from eats_step [OF this r] show "eats (seqs [Opt (One (Exactly 45)), Plus DigitChar, Opt (Seq (One (Exactly 46)) (Plus DigitChar)), End]) t [] [] []"
      using False d(3) by simp
  qed
  then show "re_exec number_re t \<noteq> None" using eats_exec by fastforce
  have "upper_unit (hd t) = [hd t]"
  proof -
    have "hd t = 45 \<or> is_digit (hd t)" using x hd_in_set [OF t0] by blast
    then have "unat (hd t) < 97" by (auto simp: is_digit_def word_le_nat_alt)
    then show ?thesis by (auto simp: upper_unit_def word_le_nat_alt)
  qed
  then have h: "hd (js_toUpperCase t) = hd t" using t0 by (cases t) (simp_all add: js_toUpperCase_def)
  have "hd t = 45 \<or> is_digit (hd t)" using x hd_in_set [OF t0] by blast
  then have "hd t \<noteq> 78" "hd t \<noteq> 84" "hd t \<noteq> 70" by (auto simp: is_digit_def)
  moreover have "hd (lit ''NULL'') = 78" "hd (lit ''TRUE'') = 84" "hd (lit ''FALSE'') = 70" by (simp_all add: lit_eval)
  ultimately show "js_toUpperCase t \<notin> {lit ''NULL'', lit ''TRUE'', lit ''FALSE''}" using h by auto
qed

lemma string_to_num_int:
  assumes "\<bar>i\<bar> \<le> 2 ^ 53"
  shows "is_int_text (print_literal (Num (int_num i)))" "string_to_num (print_literal (Num (int_num i))) = int_num i"
proof -
  show "is_int_text (print_literal (Num (int_num i)))"
    using dec_digits_all [of "- i"] dec_digits_all [of i] by (cases "i < 0") (auto simp: is_int_text_def)
  show "string_to_num (print_literal (Num (int_num i))) = int_num i"
    using signed_text_back [OF assms] by (cases "i < 0") simp_all
qed

lemma parse_print_literal:
  assumes "literal_ok v"
  shows "parseLiteral (print_literal v) = Inr v" "js_trim (print_literal v) = print_literal v"
    "js_trim (32 # print_literal v) = print_literal v" "print_literal v \<noteq> []"
proof -
  have ends: "print_literal v \<noteq> [] \<and> \<not> is_white_space (hd (print_literal v)) \<and> \<not> is_white_space (last (print_literal v))"
  proof -
    consider s where "v = Str s" | "v = Null" | b where "v = Bool b" | i where "v = Num (int_num i)" "\<bar>i\<bar> \<le> 2 ^ 53"
      using assms by (auto simp: literal_ok_def)
    then show ?thesis
    proof cases
      case 4
      then show ?thesis using int_text [OF string_to_num_int(1) [of i]] by simp
    qed (simp_all add: is_white_space_def lit_eval)
  qed
  then show t: "js_trim (print_literal v) = print_literal v" by (intro js_trim_ends) auto
  then show "js_trim (32 # print_literal v) = print_literal v" using space_facts by (simp add: js_trim_def)
  show "print_literal v \<noteq> []" using ends by blast
  consider s where "v = Str s" | "v = Null" | b where "v = Bool b" | i where "v = Num (int_num i)" "\<bar>i\<bar> \<le> 2 ^ 53"
    using assms by (auto simp: literal_ok_def)
  then show "parseLiteral (print_literal v) = Inr v"
  proof cases
    case 1
    then show ?thesis using t by (simp add: parseLiteral_def unescape_escape butlast_append)
  next
    case 2
    have "parseLiteral (print_literal Null) = Inr Null" by code_simp
    then show ?thesis using 2 by simp
  next
    case 3
    have "parseLiteral (print_literal (Bool True)) = Inr (Bool True)" "parseLiteral (print_literal (Bool False)) = Inr (Bool False)"
      by code_simp+
    then show ?thesis using 3 by (cases b) (simp_all del: print_literal.simps)
  next
    case 4
    have i: "is_int_text (print_literal v)" "string_to_num (print_literal v) = int_num i" using string_to_num_int 4 by simp_all
    show ?thesis using t int_text [OF i(1)] i(2) 4(1) by (simp add: parseLiteral_def Let_def)
  qed
qed

section \<open>Lists\<close>

definition balanced :: "jstr \<Rightarrow> bool" where
  \<comment> \<open>an item the splitter takes whole when no quote follows\<close>
  "balanced x \<longleftrightarrow> (\<forall>rest parts cur. take 1 rest \<noteq> [39] \<longrightarrow> split_loop (x @ rest) parts cur False = split_loop rest parts (cur @ x) False)"

lemma balanced_plain: "39 \<notin> set x \<Longrightarrow> 44 \<notin> set x \<Longrightarrow> balanced x"
proof -
  assume x: "39 \<notin> set x" "44 \<notin> set x"
  have "split_loop (x @ rest) parts cur False = split_loop rest parts (cur @ x) False" for rest parts cur
    using x by (induction x arbitrary: cur) auto
  then show ?thesis by (simp add: balanced_def)
qed

lemma split_escaped:
  "take 1 rest \<noteq> [39] \<Longrightarrow> split_loop (escape s @ 39 # rest) parts cur True = split_loop rest parts (cur @ escape s @ [39]) False"
  by (induction s arbitrary: cur) auto

lemma balanced_literal: "literal_ok v \<Longrightarrow> balanced (print_literal v)"
proof -
  assume v: "literal_ok v"
  then consider s where "v = Str s" | "v = Null" | b where "v = Bool b" | i where "v = Num (int_num i)" "\<bar>i\<bar> \<le> 2 ^ 53"
    by (auto simp: literal_ok_def)
  then show ?thesis
  proof cases
    case 1
    then show ?thesis by (simp add: balanced_def split_escaped)
  next
    case 4
    have n: "\<not> is_digit 44" "\<not> is_digit 39" by (simp_all add: is_digit_def)
    have "\<forall>x\<in>set (print_literal v). x = 45 \<or> is_digit x" using int_text(7) string_to_num_int(1) 4 by blast
    then show ?thesis using n by (intro balanced_plain) auto
  qed (auto intro!: balanced_plain simp: lit_eval)
qed

lemma split_items:
  assumes "xs \<noteq> []" and "\<forall>x\<in>set xs. balanced x"
  shows "\<exists>ps q. split_loop (join_with [44, 32] xs) parts cur False = (ps, q, False)
    \<and> ps @ [js_trim q] = parts @ js_trim (cur @ hd xs) # map (\<lambda>x. js_trim (32 # x)) (tl xs)"
  using assms
proof (induction xs arbitrary: parts cur)
  case (Cons x xs)
  have x: "take 1 rest \<noteq> [39] \<Longrightarrow> split_loop (x @ rest) parts cur False = split_loop rest parts (cur @ x) False" for rest parts cur
    using Cons.prems(2) by (simp add: balanced_def)
  show ?case
  proof (cases xs)
    case Nil
    then show ?thesis using x [of "[]" parts cur] by simp
  next
    case (Cons y ys)
    have "split_loop (join_with [44, 32] (x # xs)) parts cur False
        = split_loop (join_with [44, 32] xs) (parts @ [js_trim (cur @ x)]) [32] False"
      using x [of "44 # 32 # join_with [44, 32] xs" parts cur] Cons by simp
    then show ?thesis using Cons.IH [of "parts @ [js_trim (cur @ x)]" "[32]"] Cons.prems(2) Cons by simp
  qed
qed simp

lemma splitList_join:
  assumes "xs \<noteq> []" and "\<forall>x\<in>set xs. balanced x \<and> js_trim x = x \<and> js_trim (32 # x) = x \<and> x \<noteq> []"
  shows "splitList (join_with [44, 32] xs) = Inr xs"
proof -
  have "\<forall>x\<in>set xs. balanced x" using assms(2) by blast
  from split_items [OF assms(1) this, of "[]" "[]"] obtain ps q where
    s: "split_loop (join_with [44, 32] xs) [] [] False = (ps, q, False)"
      "ps @ [js_trim q] = js_trim (hd xs) # map (\<lambda>x. js_trim (32 # x)) (tl xs)" by auto
  have "js_trim (hd xs) # map (\<lambda>x. js_trim (32 # x)) (tl xs) = xs" using assms by (cases xs) (auto simp: map_idI)
  moreover have "filter (\<lambda>p. p \<noteq> []) xs = xs" using assms(2) by (simp add: filter_id_conv)
  ultimately show ?thesis using s by (simp add: splitList_def)
qed

lemma balanced_word: "is_word c \<Longrightarrow> balanced c"
  using ident_char_facts by (intro balanced_plain) (auto simp: is_word_def list_all_iff)

lemma split_words: "cs \<noteq> [] \<Longrightarrow> list_all is_word cs \<Longrightarrow> splitList (join_with [44, 32] cs) = Inr cs"
  using balanced_word word_trim by (intro splitList_join) (auto simp: list_all_iff is_word_def)

lemma split_literals:
  "vs \<noteq> [] \<Longrightarrow> list_all literal_ok vs \<Longrightarrow> splitList (join_with [44, 32] (map print_literal vs)) = Inr (map print_literal vs)"
  using balanced_literal parse_print_literal by (intro splitList_join) (auto simp: list_all_iff)

lemma parse_literals: "list_all literal_ok vs \<Longrightarrow> res_map parseLiteral (map print_literal vs) = Inr vs"
  using parse_print_literal(1) by (auto simp: res_map_eq_Inr list_all2_conv_all_nth list_all_iff)

section \<open>The statement\<close>

definition insertable :: "jsval \<Rightarrow> bool" where
  \<comment> \<open>a literal without a closing parenthesis\<close>
  "insertable v \<longleftrightarrow> literal_ok v \<and> (\<forall>s. v = Str s \<longrightarrow> 41 \<notin> set s)"

definition print_insert :: "jstr \<Rightarrow> jstr list \<Rightarrow> jsval list \<Rightarrow> jstr \<Rightarrow> jstr" where
  "print_insert t cs vs fin = lit ''INSERT INTO '' @ t @ lit '' ('' @ join_with (lit '', '') cs @ lit '') VALUES ('' @
     join_with (lit '', '') (map print_literal vs) @ lit '')'' @ fin"

lemma literal_no_paren: "insertable v \<Longrightarrow> 41 \<notin> set (print_literal v)"
proof -
  assume i: "insertable v"
  have e: "41 \<notin> set (escape s)" if "41 \<notin> set s" for s using that by (induction s) auto
  from i consider s where "v = Str s" "41 \<notin> set s" | "v = Null" | b where "v = Bool b" | i where "v = Num (int_num i)" "\<bar>i\<bar> \<le> 2 ^ 53"
    by (auto simp: insertable_def literal_ok_def)
  then show ?thesis
  proof cases
    case 4
    have "\<forall>x\<in>set (print_literal v). x = 45 \<or> is_digit x" using int_text(7) string_to_num_int(1) 4 by blast
    then show ?thesis by (auto simp: is_digit_def)
  qed (auto simp: e lit_eval)
qed

lemma eats_paren:
  assumes "x \<noteq> []" and "41 \<notin> set x" and "eats (seqs (q # rs)) u s ((n, x) # m) m'"
  shows "eats (seqs (paren_re n @ q # rs)) ([40] @ x @ [41] @ u) s m m'"
proof -
  have x: "list_all (in_class (Except 41)) x" using assms(2) by (auto simp: list_all_iff)
  show ?thesis unfolding paren_re_def append_Cons append_Nil
    by (rule eats_step [where t = "[40]" and u = "x @ 41 # u", unfolded append_Cons append_Nil], rule eats_One, simp,
        rule eats_step [OF eats_Cap [OF eats_Plus [OF x assms(1)]], where u = "41 # u"], simp,
        rule eats_step [where t = "[41]" and u = u, unfolded append_Cons append_Nil], rule eats_One, simp, rule assms(3))
qed

lemma join_literals:
  assumes "vs \<noteq> []" and "list_all insertable vs"
  shows "join_with [44, 32] (map print_literal vs) \<noteq> []" "41 \<notin> set (join_with [44, 32] (map print_literal vs))"
proof -
  have "print_literal v \<noteq> []" if "v \<in> set vs" for v
    using parse_print_literal(4) [of v] that assms(2) by (simp add: list_all_iff insertable_def)
  then have "[] \<notin> set (map print_literal vs)" by (auto dest: sym)
  then show "join_with [44, 32] (map print_literal vs) \<noteq> []" using join_ends [of "map print_literal vs" "[44, 32]"] assms(1) by simp
  show "41 \<notin> set (join_with [44, 32] (map print_literal vs))"
    using join_chars [of 41 "map print_literal vs"] literal_no_paren assms(2) by (auto simp: list_all_iff)
qed

lemma join_words:
  assumes "cs \<noteq> []" and "list_all is_word cs"
  shows "join_with [44, 32] cs \<noteq> []" "41 \<notin> set (join_with [44, 32] cs)"
proof -
  have "[] \<notin> set cs" using assms(2) by (auto simp: list_all_iff is_word_def)
  then show "join_with [44, 32] cs \<noteq> []" using join_ends [of cs "[44, 32]"] assms(1) by simp
  show "41 \<notin> set (join_with [44, 32] cs)"
    using join_chars [of 41 cs] ident_char_facts assms(2) by (fastforce simp: list_all_iff is_word_def)
qed

lemma parseInsert_print:
  assumes "is_word t" "cs \<noteq> []" "list_all is_word cs" "length vs = length cs" "list_all insertable vs" "terminator fin"
  shows "parseInsert (print_insert t cs vs fin) = Inr \<lparr>i_table = t, i_columns = cs, i_values = vs\<rparr>"
proof -
  let ?c = "join_with [44, 32] cs" and ?v = "join_with [44, 32] (map print_literal vs)"
  have vs: "vs \<noteq> []" "list_all literal_ok vs" using assms(2,4,5) by (auto simp: list_all_iff insertable_def)
  have sp: "stops SpaceChar (lit ''INTO'' @ x)" "stops SpaceChar (lit ''VALUES'' @ x)" "stops SpaceChar (40 # x)" for x
    by (simp_all add: lit_eval is_white_space_def)
  have vals: "eats (seqs (paren_re 3 @ ows # Opt (One (Exactly 59)) # [End])) ([40] @ ?v @ [41] @ fin) [] [(2, ?c), (1, t)] [(3, ?v), (2, ?c), (1, t)]"
    by (rule eats_paren [OF join_literals [OF vs(1) assms(5)]]) (use eats_tail [OF assms(6)] in \<open>simp add: tail_re_def\<close>)
  have values_kw: "eats (seqs (ws # word ''VALUES'' # ows # q # rs)) ([32] @ lit ''VALUES'' @ [32] @ x) [] m m'"
    if "eats (seqs (q # rs)) x [] m m'" "stops SpaceChar x" for q rs x m m'
    by (rule eats_step [OF eats_ws], simp add: sp, rule eats_step [OF eats_word], rule eats_step [OF eats_ows(2)])
      (use that in simp_all)
  have start: "eats (seqs (word ''INSERT'' # ws # word ''INTO'' # ws # Cap 1 ident # ows # q # rs))
      (lit ''INSERT'' @ [32] @ lit ''INTO'' @ [32] @ t @ [32] @ x) [] [] m'"
    if "eats (seqs (q # rs)) x [] [(1, t)] m'" "stops SpaceChar x" for q rs x m'
    by (rule eats_step [OF eats_word], rule eats_step [OF eats_ws], simp add: sp, rule eats_step [OF eats_word],
        rule eats_step [OF eats_ws], simp add: stops_space_word [OF assms(1)],
        rule eats_step [OF eats_Cap [OF eats_ident [OF assms(1)]]], simp add: space_facts, rule eats_step [OF eats_ows(2)])
      (use that in simp_all)
  have paren: "paren_re n @ rs = One (Exactly 40) # Cap n (Plus (Except 41)) # One (Exactly 41) # rs" for n rs
    by (simp add: paren_re_def)
  have s40: "stops SpaceChar ([40] @ x)" for x by (simp add: is_white_space_def)
  note mid = values_kw [OF vals [unfolded paren] s40]
  note cols = eats_paren [OF join_words [OF assms(2,3)] mid]
  note all = start [OF cols [unfolded paren] s40]
  have "insert_re = seqs (word ''INSERT'' # ws # word ''INTO'' # ws # Cap 1 ident # ows # One (Exactly 40) # Cap 2 (Plus (Except 41))
      # One (Exactly 41) # ws # word ''VALUES'' # ows # One (Exactly 40) # Cap 3 (Plus (Except 41)) # One (Exactly 41) # ows
      # Opt (One (Exactly 59)) # [End])"
    by (simp only: insert_re_def paren_re_def tail_re_def append_Cons append_Nil)
  moreover have "print_insert t cs vs fin = lit ''INSERT'' @ [32] @ lit ''INTO'' @ [32] @ t @ [32] @ [40] @ ?c @ [41] @ [32] @
      lit ''VALUES'' @ [32] @ [40] @ ?v @ [41] @ fin"
    by (simp add: print_insert_def comma_space) (simp add: lit_eval)
  ultimately have e: "re_exec insert_re (print_insert t cs vs fin) = Some (map_of [(3, ?v), (2, ?c), (1, t)])"
    using eats_exec [OF all] by simp
  have "js_trim (print_insert t cs vs fin) = print_insert t cs vs fin"
    using assms(6) by (intro js_trim_ends) (auto simp: print_insert_def terminator_def lit_eval is_white_space_def)
  moreover have "map js_trim cs = cs" using assms(3) word_trim(1) by (auto simp: list_all_iff intro: map_idI)
  ultimately show ?thesis
    using e split_words [OF assms(2,3)] split_literals [OF vs] parse_literals [OF vs(2)] assms(2,4)
    by (simp add: parseInsert_def grp_def)
qed

section \<open>Properties\<close>

text \<open>C23. A SELECT (any projection of columns not named FROM, any combination of WHERE, ORDER BY and
  LIMIT) and a DELETE, written in the documented form with or without the semicolon, parse to exactly the
  clauses that were written.\<close>

theorem select_delete_roundtrip:
  assumes "stmt_ok q" and "terminator fin" and "is_word t" and "is_word c" and "g \<in> set sql_operators" and "printable v"
    and "terminator fin'"
  shows "parseSelect (print_select q fin) = Inr (stmt_plan q)
    \<and> parseDelete (print_delete t c g v fin') = Inr \<lparr>whereCol = Some c, whereOp = Some g, whereVal = v, d_table = t\<rparr>"
  using parseSelect_print [OF assms(1,2)] parseDelete_print [OF assms(3-7)] by blast

definition ex_select :: select_stmt where
  "ex_select = \<lparr>st_columns = Columns [lit ''a'', lit ''b''], st_table = lit ''t'', st_where = Some (lit ''a'', lit ''>='', Num (int_num 7)),
     st_order = Some (lit ''b'', Desc), st_limit = Some 3\<rparr>"

theorem select_delete_roundtrip_witness:
  "parseSelect (print_select ex_select [59]) = Inr (stmt_plan ex_select)
    \<and> parseDelete (print_delete (lit ''t'') (lit ''a'') (lit ''!='') (Str (lit ''x)y'')) []) =
        Inr \<lparr>whereCol = Some (lit ''a''), whereOp = Some (lit ''!=''), whereVal = Str (lit ''x)y''), d_table = lit ''t''\<rparr>"
proof (rule select_delete_roundtrip)
  have w: "is_word (lit ''a'')" "is_word (lit ''b'')" "is_word (lit ''t'')" by code_simp+
  then show "is_word (lit ''t'')" "is_word (lit ''a'')" by simp_all
  have g: "lit ''>='' \<in> set sql_operators" "lit ''!='' \<in> set sql_operators" by (simp_all add: sql_operators_def)
  then show "lit ''!='' \<in> set sql_operators" by simp
  have "column_name (lit ''a'')" "column_name (lit ''b'')" by code_simp+
  moreover have "printable (Num (int_num 7))" unfolding printable_def by (intro disjI2 exI [of _ 7]) simp
  ultimately show "stmt_ok ex_select" using w g
    by (simp add: stmt_ok_def ex_select_def projection_ok_def where_ok_def order_ok_def limit_ok_def)
  show "printable (Str (lit ''x)y''))" by (simp add: printable_def lit_eval)
  show "terminator [59]" "terminator []" by (simp_all add: terminator_def)
qed

text \<open>C22. A row written as an INSERT parses back to the same columns and the same values, in order: strings
  with quotes, commas, semicolons or keywords in them, integers of either sign up to \<open>2 ^ 53\<close>, booleans
  and NULL. Only the closing parenthesis is excluded, at which the grammar ends the list.\<close>

theorem insert_roundtrip:
  assumes "is_word t" "cs \<noteq> []" "list_all is_word cs" "length vs = length cs" "list_all insertable vs" "terminator fin"
  shows "parseInsert (print_insert t cs vs fin) = Inr \<lparr>i_table = t, i_columns = cs, i_values = vs\<rparr>"
  using assms by (rule parseInsert_print)

theorem insert_roundtrip_witness:
  "parseInsert (print_insert (lit ''t'') [lit ''a'', lit ''b''] [Str [105, 39, 44, 59], Num (int_num (- 4))] [])
     = Inr \<lparr>i_table = lit ''t'', i_columns = [lit ''a'', lit ''b''], i_values = [Str [105, 39, 44, 59], Num (int_num (- 4))]\<rparr>"
proof (rule insert_roundtrip)
  show "is_word (lit ''t'')" "list_all is_word [lit ''a'', lit ''b'']" by code_simp+
  have "literal_ok (Num (int_num (- 4)))" unfolding literal_ok_def by (intro disjI2 exI [of _ "- 4"]) simp
  then show "list_all insertable [Str [105, 39, 44, 59], Num (int_num (- 4))]"
    by (simp add: insertable_def literal_ok_def)
qed (simp_all add: terminator_def)

fun without :: "code_unit \<Rightarrow> re \<Rightarrow> bool" where
  \<comment> \<open>no text of the pattern holds the character\<close>
  "without x (One c) \<longleftrightarrow> \<not> in_class c x"
| "without x (Plus c) \<longleftrightarrow> \<not> in_class c x"
| "without x (Star c) \<longleftrightarrow> \<not> in_class c x"
| "without x (LazyPlus c) \<longleftrightarrow> \<not> in_class c x"
| "without x (Opt r) \<longleftrightarrow> without x r"
| "without x (Cap n r) \<longleftrightarrow> without x r"
| "without x (Alt r s) \<longleftrightarrow> without x r \<and> without x s"
| "without x (Seq r s) \<longleftrightarrow> without x r \<and> without x s"
| "without x _ \<longleftrightarrow> True"

lemma without_lang: "without x r \<Longrightarrow> lang r t \<Longrightarrow> x \<notin> set t"
  by (induction r arbitrary: t) (auto simp: list_all_iff)

lemma lang_seqs_append: "xs \<noteq> [] \<Longrightarrow> ys \<noteq> [] \<Longrightarrow> lang (seqs (xs @ ys)) t \<longleftrightarrow> (\<exists>u v. t = u @ v \<and> lang (seqs xs) u \<and> lang (seqs ys) v)"
proof (induction xs arbitrary: t rule: seqs.induct)
  case (2 r)
  then show ?case by (cases ys) auto
next
  case (3 r q rs)
  then have IH: "lang (seqs ((q # rs) @ ys)) t \<longleftrightarrow> (\<exists>u v. t = u @ v \<and> lang (seqs (q # rs)) u \<and> lang (seqs ys) v)" for t by simp
  have "lang (seqs ((r # q # rs) @ ys)) t \<longleftrightarrow> (\<exists>u v. t = u @ v \<and> lang r u \<and> lang (seqs ((q # rs) @ ys)) v)" by simp
  also have "\<dots> \<longleftrightarrow> (\<exists>u v w. t = u @ v @ w \<and> lang r u \<and> lang (seqs (q # rs)) v \<and> lang (seqs ys) w)" unfolding IH by blast
  also have "\<dots> \<longleftrightarrow> (\<exists>u v. t = u @ v \<and> lang (seqs (r # q # rs)) u \<and> lang (seqs ys) v)" by (simp only: lang_seqs) (metis append_assoc)
  finally show ?case .
qed simp

lemma count_without: "without x r \<Longrightarrow> lang r t \<Longrightarrow> count_list t x = 0"
  using without_lang count_list_0_iff by fast

lemma insert_parens:
  assumes "lang insert_re t"
  shows "count_list t 41 = 2"
proof -
  let ?a = "[word ''INSERT'', ws, word ''INTO'', ws, Cap 1 ident, ows, One (Exactly 40), Cap 2 (Plus (Except 41))]"
    and ?b = "[ws, word ''VALUES'', ows, One (Exactly 40), Cap 3 (Plus (Except 41))]"
  have i: "insert_re = seqs (?a @ [One (Exactly 41)] @ ?b @ [One (Exactly 41)] @ tail_re)"
    by (simp only: insert_re_def paren_re_def append_Cons append_Nil append_assoc)
  have w: "without 41 (seqs ?a)" "without 41 (seqs ?b)" "without 41 (seqs tail_re)"
    by (simp_all add: word_def ws_def ows_def ident_def tail_re_def cu_def ascii_upper_def is_white_space_def is_ident_char_def
        is_ident_start_def is_digit_def)
  have ne: "?b @ [One (Exactly 41)] @ tail_re \<noteq> []" "[One (Exactly 41)] @ tail_re \<noteq> []" "tail_re \<noteq> []" by (simp_all add: tail_re_def)
  note split = lang_seqs_append [THEN iffD1]
  obtain t1 r1 where 1: "t = t1 @ r1" "lang (seqs ?a) t1" "lang (seqs ([One (Exactly 41)] @ ?b @ [One (Exactly 41)] @ tail_re)) r1"
    using split [OF _ _ assms [unfolded i]] by blast
  obtain x r2 where 2: "r1 = x @ r2" "lang (seqs [One (Exactly 41)]) x" "lang (seqs (?b @ [One (Exactly 41)] @ tail_re)) r2"
    using split [OF _ ne(1) 1(3)] by blast
  obtain t2 r3 where 3: "r2 = t2 @ r3" "lang (seqs ?b) t2" "lang (seqs ([One (Exactly 41)] @ tail_re)) r3"
    using split [OF _ ne(2) 2(3)] by blast
  obtain y t3 where 4: "r3 = y @ t3" "lang (seqs [One (Exactly 41)]) y" "lang (seqs tail_re) t3"
    using split [OF _ ne(3) 3(3)] by blast
  have "t = t1 @ [41] @ t2 @ [41] @ t3" using 1(1) 2(1,2) 3(1) 4(1,2) by simp
  then show ?thesis using count_without [OF w(1)] count_without [OF w(2)] count_without [OF w(3)] 1(2) 3(2) 4(3)
    by simp
qed

text \<open>An accepted INSERT holds exactly two closing parentheses, so a row with a string that contains one
  cannot be written: the parser throws instead of storing another value.\<close>

theorem insert_refuses_parenthesis:
  assumes "parseInsert sql = Inr plan"
  shows "count_list (js_trim sql) 41 = 2"
proof -
  obtain m where "re_exec insert_re (js_trim sql) = Some m" using assms by (auto simp: parseInsert_def split: option.splits)
  then obtain st where "st \<in> set (results insert_re ((None, js_trim sql), []))" by (auto simp: re_exec_def split: list.splits)
  moreover have "snd (fst st) = []"
    by (rule results_at_end [OF _ calculation]) (simp add: insert_re_def paren_re_def tail_re_def)
  ultimately have "lang insert_re (js_trim sql)"
    using results_sound [of st insert_re "((None, js_trim sql), [])"] unfolding matched_def advance_def by auto
  then show ?thesis by (rule insert_parens)
qed

theorem insert_refuses_parenthesis_witness:
  "count_list (js_trim (lit ''INSERT INTO t (a) VALUES (1)'')) 41 = 2"
  by (rule insert_refuses_parenthesis [of _ "\<lparr>i_table = lit ''t'', i_columns = [lit ''a''], i_values = [Num (Fin 1)]\<rparr>"]) code_simp

text \<open>A literal that starts and ends with a quote is taken as one string whatever stands between: the
  list splitter and \<open>parseLiteral\<close> accept two adjacent strings as a single value with a bare quote, where
  the documentation promises an error.\<close>

theorem adjacent_strings_accepted:
  "parseInsert (lit ''INSERT INTO t (a) VALUES ('' @ [39, 97, 39, 32, 39, 98, 39] @ lit '')'')
     = Inr \<lparr>i_table = lit ''t'', i_columns = [lit ''a''], i_values = [Str [97, 39, 32, 39, 98]]\<rparr>"
  by code_simp

end
