(* ===== verification/SqlExec.thy ===== *)
theory SqlExec
  imports SqlInsert DbProps
begin

text \<open>
  What executed statements do to the tables: the write loops of UPDATE and DELETE against the rows the
  scan found, the error behaviour of every statement, and statements in text form run end to end.
\<close>

section \<open>The write loops\<close>

definition rows_in :: "table \<Rightarrow> (jstr \<times> row) list \<Rightarrow> bool" where
  "rows_in t kr \<longleftrightarrow> jm_ok kr \<and> set kr \<subseteq> set (rows t)"

lemma wf_row:
  assumes "wf_table t" and "(k, r) \<in> set (rows t)"
  shows "map_of (rows t) k = Some r" "encodePk (row_get r (primaryKeyName (schema_of t))) = Inr k"
proof -
  show m: "map_of (rows t) k = Some r" using assms by (simp add: wf_table_def)
  show "encodePk (row_get r (primaryKeyName (schema_of t))) = Inr k" using assms(1) m by (auto simp: wf_table_def row_ok_def)
qed

lemma delete_loop_rows:
  assumes "wf_table t" and "rows_in t kr"
  shows "\<exists>t'. delete_loop (primaryKeyName (schema_of t)) (map snd kr) n t = (Inr (n + length kr), t')
    \<and> rows t' = filter (\<lambda>(k, r). k \<notin> set (jm_keys kr)) (rows t)"
  using assms
proof (induction kr arbitrary: t n)
  case Nil
  then show ?case by simp
next
  case (Cons x kr)
  obtain k r where x: "x = (k, r)" by (cases x)
  let ?pk = "primaryKeyName (schema_of t)"
  have kr: "(k, r) \<in> set (rows t)" "k \<notin> set (jm_keys kr)" "rows_in t kr"
    using Cons.prems(2) x by (auto simp: rows_in_def)
  obtain t1 where d: "tbl_delete (row_get r ?pk) t = (Inr True, t1)" and r1: "rows t1 = AList.delete k (rows t)"
    using wf_row [OF Cons.prems(1) kr(1)] by (cases rule: tbl_delete_cases [of "row_get r ?pk" t]) auto
  have w: "wf_table t1" "primaryKeyName (schema_of t1) = ?pk"
    using wf_table_delete [OF Cons.prems(1), of "row_get r ?pk"] schema_of_methods(3) [of "row_get r ?pk" t] d by simp_all
  have "rows_in t1 kr" using kr(2,3) by (auto simp: rows_in_def r1 set_delete image_iff)
  from Cons.IH [OF w(1) this, of "n + 1"] show ?case
    using d w(2) x r1 by (auto simp: AList.delete_eq intro!: filter_cong)
qed

definition patch_rows :: "jstr set \<Rightarrow> row \<Rightarrow> (jstr \<times> row) list \<Rightarrow> (jstr \<times> row) list" where
  \<comment> \<open>the rows with the patch merged into those under the keys\<close>
  "patch_rows ks p m = map (\<lambda>(k, r). (k, if k \<in> ks then r ++ p else r)) m"

lemma patch_rows_facts [simp]: "jm_keys (patch_rows ks p m) = jm_keys m" "patch_rows {} p m = m"
  "length (patch_rows ks p m) = length m"
  by (auto simp: patch_rows_def comp_def case_prod_beta)

lemma patch_rows_step: "k \<notin> ks \<Longrightarrow> patch_rows ks p (patch_rows {k} p m) = patch_rows (insert k ks) p m"
  by (auto simp: patch_rows_def)

lemma update_patch_rows:
  "jm_ok m \<Longrightarrow> map_of m k = Some r \<Longrightarrow> AList.update k (r ++ p) m = patch_rows {k} p m"
  by (auto simp: update_present patch_rows_def dest: eq_key_imp_eq_value)

lemma update_loop_rows:
  assumes "wf_table t" and "rows_in t kr"
  shows "\<exists>res t' i. update_loop (primaryKeyName (schema_of t)) p (map snd kr) n t = (res, t') \<and> i \<le> length kr
    \<and> rows t' = patch_rows (set (jm_keys (take i kr))) p (rows t)
    \<and> (res = Inr (n + length kr) \<and> i = length kr \<or> (\<exists>e. res = Inl e) \<and> i < length kr)"
  using assms
proof (induction kr arbitrary: t n)
  case Nil
  then show ?case by simp
next
  case (Cons x kr)
  obtain k r where x: "x = (k, r)" by (cases x)
  let ?pk = "primaryKeyName (schema_of t)"
  have kr: "(k, r) \<in> set (rows t)" "k \<notin> set (jm_keys kr)" "rows_in t kr" "jm_ok (rows t)"
    using Cons.prems x by (auto simp: rows_in_def wf_table_def)
  have m: "map_of (rows t) k = Some r" "encodePk (row_get r ?pk) = Inr k" by (rule wf_row [OF Cons.prems(1) kr(1)])+
  show ?case
  proof (cases rule: tbl_update_cases [of "row_get r ?pk" p t])
    case (1 e)
    then show ?thesis by (intro exI [of _ "Inl e"] exI [of _ t] exI [of _ 0]) (simp add: x)
  next
    case (3 k' cur)
    define t1 where "t1 = indexRow k' (cur ++ p) ((deindexRow k' cur t)\<lparr>rows := AList.update k' (cur ++ p) (rows t)\<rparr>)"
    have u: "tbl_update (row_get r ?pk) p t = (Inr (Some (cur ++ p)), t1)" using 3(5) by (simp add: t1_def)
    have k': "k' = k" "cur = r" using 3(1,2) m by simp_all
    have r1: "rows t1 = patch_rows {k} p (rows t)" using update_patch_rows [OF kr(4) m(1)] by (simp add: t1_def k')
    have w: "wf_table t1" "primaryKeyName (schema_of t1) = ?pk"
      using wf_table_update [OF Cons.prems(1), of "row_get r ?pk" p] schema_of_methods(2) [of "row_get r ?pk" p t] u by simp_all
    have "rows_in t1 kr" using kr(2,3) by (force simp: rows_in_def r1 patch_rows_def)
    from Cons.IH [OF w(1) this, of "n + 1"] obtain res t' i where IH: "update_loop ?pk p (map snd kr) (n + 1) t1 = (res, t')"
        "i \<le> length kr" "rows t' = patch_rows (set (jm_keys (take i kr))) p (rows t1)"
        "res = Inr (n + 1 + length kr) \<and> i = length kr \<or> (\<exists>e. res = Inl e) \<and> i < length kr"
      unfolding w(2) by blast
    have "k \<notin> set (jm_keys (take i kr))" using kr(2) set_take_subset [of i kr] by auto
    then have "rows t' = patch_rows (set (jm_keys (take (Suc i) (x # kr)))) p (rows t)"
      using IH(3) patch_rows_step by (simp add: r1 x)
    then show ?thesis using IH u by (intro exI [of _ res] exI [of _ t'] exI [of _ "Suc i"]) (auto simp: x)
  qed (use m in simp)
qed

lemma scan_hits:
  assumes "wf_table t"
  shows "tbl_scan t w = map snd (filter (\<lambda>(k, r). matchesWhere r w) (rows t))" "rows_in t (filter (\<lambda>(k, r). matchesWhere r w) (rows t))"
proof -
  have "(\<lambda>(k, r). matchesWhere r w) = (\<lambda>x :: jstr \<times> row. matchesWhere (snd x) w)" by auto
  then show "tbl_scan t w = map snd (filter (\<lambda>(k, r). matchesWhere r w) (rows t))"
    by (simp add: tbl_scan_def filter_map comp_def)
  have "jm_ok (rows t)" using assms by (simp add: wf_table_def)
  then show "rows_in t (filter (\<lambda>(k, r). matchesWhere r w) (rows t))"
    by (auto simp: rows_in_def distinct_map inj_on_def)
qed

lemma hit_keys:
  assumes "jm_ok m"
  shows "filter (\<lambda>(k, r). k \<notin> set (jm_keys (filter P m))) m = filter (\<lambda>x. \<not> P x) m"
proof (rule filter_cong)
  fix x
  assume x: "x \<in> set m"
  obtain k r where kr: "x = (k, r)" by (cases x)
  have "k \<in> set (jm_keys (filter P m)) \<longleftrightarrow> P (k, r)"
  proof
    assume "k \<in> set (jm_keys (filter P m))"
    then obtain r' where "(k, r') \<in> set m" "P (k, r')" by auto
    moreover have "r' = r" using eq_key_imp_eq_value [OF assms calculation(1)] x kr by blast
    ultimately show "P (k, r)" by simp
  next
    assume "P (k, r)"
    then have "(k, r) \<in> set (filter P m)" using x kr by simp
    then show "k \<in> set (jm_keys (filter P m))" unfolding set_map by (rule rev_image_eqI) simp
  qed
  then show "(case x of (k, r) \<Rightarrow> k \<notin> set (jm_keys (filter P m))) = (\<not> P x)" by (simp only: kr prod.case)
qed (rule refl)

section \<open>Conditions and classes of statements\<close>

definition cell_test :: "jstr \<Rightarrow> jsval \<Rightarrow> jsval \<Rightarrow> bool" where
  \<comment> \<open>what each operator asks of a cell: equality is by identity of type and value, order only holds of numbers\<close>
  "cell_test g v x \<longleftrightarrow>
     (if g = lit ''='' then strict_eq x v
      else if g = lit ''!='' then \<not> strict_eq x v
      else is_number x \<and> (if g = lit ''>'' then js_lt v x else if g = lit ''>='' then js_le v x
        else if g = lit ''<'' then js_lt x v else js_le x v))"

lemma single_condition: "matchesWhere r (Some [(c, Cond k)]) \<longleftrightarrow> condition_spec k (row_get r c)"
  by (simp add: matchesWhere_def compilePerColumn_spec)

lemma plan_where_test:
  assumes "c \<noteq> []" and "g \<in> set sql_operators" and "v \<noteq> Undefined"
  shows "matchesWhere r (singleWhere (Some c) (Some g) v) \<longleftrightarrow> cell_test g v (row_get r c)"
proof -
  have c: "nonempty (Some c) = Some c" using assms(1) by (simp add: nonempty_def)
  note u = singleWhere_def c nonempty_def single_condition condition_spec_def operand_spec_def no_condition_def cell_test_def
  consider "g = lit ''=''" | "g = lit ''!=''" | "g = lit ''>=''" | "g = lit ''<=''" | "g = lit ''>''" | "g = lit ''<''"
    using assms(2) by (auto simp: sql_operators_def)
  then show ?thesis by cases (simp_all add: u lit_eval assms)
qed

definition hit :: "'a parsed_where_scheme \<Rightarrow> row \<Rightarrow> bool" where
  "hit p r \<longleftrightarrow> cell_test (the (whereOp p)) (whereVal p) (row_get r (the (whereCol p)))"

lemma hit_matches:
  assumes "where_typed p"
  shows "matchesWhere r (plan_where p) \<longleftrightarrow> hit p r"
proof -
  obtain c g where p: "whereCol p = Some c" "c \<noteq> []" "whereOp p = Some g" "g \<in> set sql_operators" "plain_value (whereVal p)"
    using assms by (auto simp: where_typed_def)
  have "whereVal p \<noteq> Undefined" using p(5) by (auto simp: plain_value_def)
  then show ?thesis using plan_where_test [OF p(2,4)] by (simp add: p(1,3) hit_def)
qed

lemma head_word:
  assumes "k \<noteq> []" and "list_all (\<lambda>c. \<not> is_white_space c) k"
  shows "takeWhile (\<lambda>c. \<not> is_white_space c) (js_trim (k @ 32 # s)) = k"
proof -
  have k: "\<forall>c\<in>set k. \<not> is_white_space c" using assms(2) by (simp add: list_all_iff)
  have d: "dropWhile is_white_space (k @ 32 # s) = k @ 32 # s" using assms(1) k by (cases k) simp_all
  have rk: "dropWhile is_white_space (rev k) = rev k" unfolding dropWhile_eq_self_iff using assms(1) k by (simp add: hd_rev)
  show ?thesis
  proof (cases "\<forall>c\<in>set s. is_white_space c")
    case True
    then have "dropWhile is_white_space (rev s @ 32 # rev k) = rev k"
      using rk space_facts(1) by (simp add: dropWhile_append)
    then show ?thesis using k by (simp add: js_trim_def d)
  next
    case False
    then obtain y where "dropWhile is_white_space (rev s @ 32 # rev k) = y @ 32 # rev k" by (auto simp: dropWhile_append)
    then have "js_trim (k @ 32 # s) = k @ 32 # rev y" by (simp add: js_trim_def d)
    then show ?thesis using k space_facts(1) by simp
  qed
qed

lemma classify_head:
  "classifyStatement (lit ''DELETE'' @ 32 # s) = Inr DeleteStmt" "classifyStatement (lit ''INSERT'' @ 32 # s) = Inr InsertStmt"
  "classifyStatement (lit ''SELECT'' @ 32 # s) = Inr SelectStmt" "classifyStatement (lit ''UPDATE'' @ 32 # s) = Inr UpdateStmt"
proof -
  have h: "takeWhile (\<lambda>c. \<not> is_white_space c) (js_trim (lit ''DELETE'' @ 32 # s)) = lit ''DELETE''"
    "takeWhile (\<lambda>c. \<not> is_white_space c) (js_trim (lit ''INSERT'' @ 32 # s)) = lit ''INSERT''"
    "takeWhile (\<lambda>c. \<not> is_white_space c) (js_trim (lit ''SELECT'' @ 32 # s)) = lit ''SELECT''"
    "takeWhile (\<lambda>c. \<not> is_white_space c) (js_trim (lit ''UPDATE'' @ 32 # s)) = lit ''UPDATE''"
    by (rule head_word; simp add: lit_eval is_white_space_def)+
  show "classifyStatement (lit ''DELETE'' @ 32 # s) = Inr DeleteStmt" "classifyStatement (lit ''INSERT'' @ 32 # s) = Inr InsertStmt"
    "classifyStatement (lit ''SELECT'' @ 32 # s) = Inr SelectStmt" "classifyStatement (lit ''UPDATE'' @ 32 # s) = Inr UpdateStmt"
    unfolding classifyStatement_def Let_def h by (simp_all add: lit_eval js_toUpperCase_def upper_unit_def)
qed

section \<open>Statements on a catalog\<close>

lemma db_on_present:
  assumes "map_of (tables db) n = Some t" and "m t = (r, t')"
  shows "db_on n m db = (r, db\<lparr>tables := AList.update n t' (tables db)\<rparr>)"
  using assms by (simp add: db_on_def db_table_def)

lemma db_on_unchanged:
  assumes "map_of (tables db) n = Some t" and "m t = (r, t)"
  shows "db_on n m db = (r, db)"
  using assms update_triv [OF assms(1)] by (simp add: db_on_def db_table_def)

lemma run_delete_rows:
  assumes "wf_table t" and "where_typed p" and "map_of (tables db) (d_table p) = Some t"
  shows "\<exists>t'. run_delete p db = (Inr (Deleted (length (filter (hit p) (jm_values (rows t))))), db\<lparr>tables := AList.update (d_table p) t' (tables db)\<rparr>)
    \<and> rows t' = filter (\<lambda>(k, r). \<not> hit p r) (rows t) \<and> wf_table t' \<and> schema_of t' = schema_of t"
proof -
  let ?hits = "filter (\<lambda>(k, r). hit p r) (rows t)"
  have h: "(\<lambda>(k, r). matchesWhere r (plan_where p)) = (\<lambda>(k :: jstr, r). hit p r)" using hit_matches [OF assms(2)] by auto
  note scan = scan_hits [OF assms(1), of "plan_where p", unfolded h]
  obtain t' where t': "delete_loop (primaryKeyName (schema_of t)) (map snd ?hits) 0 t = (Inr (0 + length ?hits), t')"
      "rows t' = filter (\<lambda>(k, r). k \<notin> set (jm_keys ?hits)) (rows t)"
    using delete_loop_rows [OF assms(1) scan(2), of 0] by blast
  have len: "length (filter (hit p) (jm_values (rows t))) = length ?hits"
  proof -
    have "(\<lambda>(k :: jstr, r). hit p r) = (\<lambda>x. hit p (snd x))" by auto
    then show ?thesis by (simp add: filter_map comp_def)
  qed
  have neg: "(\<lambda>x. \<not> (case x of (k, r) \<Rightarrow> hit p r)) = (\<lambda>(k :: jstr, r). \<not> hit p r)" by auto
  have "rows t' = filter (\<lambda>(k, r). \<not> hit p r) (rows t)"
    using hit_keys [of "rows t" "\<lambda>(k, r). hit p r"] assms(1) t'(2) unfolding neg by (simp add: wf_table_def)
  moreover have "wf_table t' \<and> schema_of t' = schema_of t"
    using delete_loop_wf [OF assms(1), of "primaryKeyName (schema_of t)" "map snd ?hits" 0] t'(1) by simp
  moreover have "run_delete p db = (Inr (Deleted (length (filter (hit p) (jm_values (rows t))))), db\<lparr>tables := AList.update (d_table p) t' (tables db)\<rparr>)"
    unfolding run_delete_def len using db_on_present [OF assms(3), of "\<lambda>t. delete_loop (primaryKeyName (schema_of t)) (tbl_scan t (plan_where p)) 0 t"] t'(1)
    by (simp add: scan(1) tagged_def)
  ultimately show ?thesis by blast
qed

lemma run_update_rows:
  assumes "wf_table t" and "where_typed p" and "map_of (tables db) (u_table p) = Some t"
  shows "\<exists>res t' i. run_update p db = (res, db\<lparr>tables := AList.update (u_table p) t' (tables db)\<rparr>)
    \<and> i \<le> length (filter (\<lambda>(k, r). hit p r) (rows t))
    \<and> rows t' = patch_rows (set (jm_keys (take i (filter (\<lambda>(k, r). hit p r) (rows t))))) (update_patch p) (rows t)
    \<and> (res = Inr (Updated (length (filter (\<lambda>(k, r). hit p r) (rows t)))) \<and> i = length (filter (\<lambda>(k, r). hit p r) (rows t))
       \<or> (\<exists>e. res = Inl e) \<and> i < length (filter (\<lambda>(k, r). hit p r) (rows t)))"
proof -
  let ?hits = "filter (\<lambda>(k, r). hit p r) (rows t)"
  have h: "(\<lambda>(k, r). matchesWhere r (plan_where p)) = (\<lambda>(k :: jstr, r). hit p r)" using hit_matches [OF assms(2)] by auto
  note scan = scan_hits [OF assms(1), of "plan_where p", unfolded h]
  obtain res t' i where l: "update_loop (primaryKeyName (schema_of t)) (update_patch p) (map snd ?hits) 0 t = (res, t')"
      "i \<le> length ?hits" "rows t' = patch_rows (set (jm_keys (take i ?hits))) (update_patch p) (rows t)"
      "res = Inr (0 + length ?hits) \<and> i = length ?hits \<or> (\<exists>e. res = Inl e) \<and> i < length ?hits"
    using update_loop_rows [OF assms(1) scan(2), of "update_patch p" 0] by blast
  have "run_update p db = tagged Updated (res, db\<lparr>tables := AList.update (u_table p) t' (tables db)\<rparr>)"
    unfolding run_update_def
    using db_on_present [OF assms(3), of "\<lambda>t. update_loop (primaryKeyName (schema_of t)) (update_patch p) (tbl_scan t (plan_where p)) 0 t"] l(1)
    by (simp add: scan(1))
  then show ?thesis using l(2-4)
    by (intro exI [of _ "case res of Inl e \<Rightarrow> Inl e | Inr n \<Rightarrow> Inr (Updated n)"] exI [of _ t'] exI [of _ i])
      (auto simp: tagged_def)
qed

lemma failed_unchanged:
  assumes "wf_db db" and "executeSql sql db = (Inl e, db')" and "classifyStatement sql \<noteq> Inr UpdateStmt"
  shows "db' = db"
proof (cases rule: executeSql_cases [of sql db])
  case (2 plan)
  then have "run_create plan db = (Inl e, db')" using assms(2) by simp
  then show ?thesis
    by (cases rule: db_createTable_cases [of "c_table plan" "c_columns plan" db]) (simp_all add: run_create_def tagged_def)
next
  case (3 plan)
  then have r: "run_insert plan db = (Inl e, db')" using assms(2) by simp
  show ?thesis
  proof (cases "map_of (tables db) (i_table plan)")
    case None
    then show ?thesis using r by (simp add: run_insert_def tagged_def db_on_def db_table_def)
  next
    case (Some t)
    show ?thesis
    proof (cases rule: tbl_insert_cases [of "insert_row plan" t])
      case (1 e')
      then show ?thesis using r db_on_unchanged [OF Some, of "tbl_insert (insert_row plan)"] 1(1) by (simp add: run_insert_def tagged_def)
    next
      case (2 k)
      then show ?thesis using r db_on_present [OF Some, of "tbl_insert (insert_row plan)"] 2(3) by (simp add: run_insert_def tagged_def)
    qed
  qed
next
  case (5 plan)
  then have r: "run_delete plan db = (Inl e, db')" using assms(2) by simp
  show ?thesis
  proof (cases "map_of (tables db) (d_table plan)")
    case None
    then show ?thesis using r by (simp add: run_delete_def tagged_def db_on_def db_table_def)
  next
    case (Some t)
    have "wf_table t" using assms(1) Some by (simp add: wf_db_def)
    from run_delete_rows [OF this parseDelete_typed [OF 5(2)] Some] show ?thesis using r by auto
  qed
qed (use assms in simp_all)

section \<open>Reads\<close>

definition select_spec :: "select_stmt \<Rightarrow> row list \<Rightarrow> row list" where
  \<comment> \<open>filter, sort, cut off, project\<close>
  "select_spec q rs =
     (let found = (case st_where q of None \<Rightarrow> rs | Some (c, g, v) \<Rightarrow> filter (\<lambda>r. cell_test g v (row_get r c)) rs);
          ordered = (case st_order q of None \<Rightarrow> found | Some (c, d) \<Rightarrow> js_sort (order_cmp c d) found);
          first = (case st_limit q of None \<Rightarrow> ordered | Some n \<Rightarrow> take (nat n) ordered)
      in case st_columns q of AllColumns \<Rightarrow> first | Columns cs \<Rightarrow> map (project cs) first)"

lemma scan_plan:
  assumes "where_ok w" and "whereCol p = map_option fst w" "whereOp p = map_option (\<lambda>(c, g, v). g) w"
    "whereVal p = (case w of None \<Rightarrow> Undefined | Some (c, g, v) \<Rightarrow> v)"
  shows "tbl_scan t (plan_where p) = (case w of None \<Rightarrow> jm_values (rows t)
     | Some (c, g, v) \<Rightarrow> filter (\<lambda>r. cell_test g v (row_get r c)) (jm_values (rows t)))"
proof (cases w)
  case None
  then show ?thesis using assms(2-4) by (simp add: tbl_scan_def singleWhere_def nonempty_def)
next
  case (Some x)
  obtain c g v where x: "x = (c, g, v)" by (cases x) auto
  have "is_word c" "g \<in> set sql_operators" "printable v" using assms(1) Some x by (auto simp: where_ok_def)
  then have "c \<noteq> []" "g \<in> set sql_operators" "v \<noteq> Undefined" by (auto simp: is_word_def printable_def)
  then show ?thesis using assms(2-4) plan_where_test by (simp add: tbl_scan_def Some x)
qed

lemma no_count_star: "projection_ok p \<Longrightarrow> \<not> isCountStar p"
proof (cases p)
  case (Columns cs)
  assume "projection_ok p"
  then have w: "\<forall>c\<in>set cs. \<forall>x\<in>set c. is_ident_char x" using Columns
    by (auto simp: projection_ok_def column_name_def is_word_def list_all_iff)
  have u: "is_ident_char x \<Longrightarrow> 42 \<notin> set (upper_unit x)" for x
    by (auto simp: upper_unit_def is_ident_char_def is_ident_start_def is_digit_def word_le_nat_alt word_unat_eq_iff unat_sub)
  show "\<not> isCountStar p"
  proof
    assume c: "isCountStar p"
    then obtain d where d: "cs = [d]" using Columns by (cases cs) (auto simp: isCountStar_def)
    then have "js_toUpperCase d = lit ''COUNT(*)''" using c Columns by (simp add: isCountStar_def)
    then have "42 \<in> set (js_toUpperCase d)" by (simp add: lit_eval)
    then show False using w d u by (auto simp: js_toUpperCase_def)
  qed
qed (simp add: isCountStar_def)

lemma executeSelect_print:
  assumes "stmt_ok q" and "terminator fin" and "map_of (tables db) (st_table q) = Some t"
  shows "executeSelect db (print_select q fin) = Inr (select_spec q (jm_values (rows t)))"
proof -
  have ok: "projection_ok (st_columns q)" "where_ok (st_where q)" "order_ok (st_order q)" "limit_ok (st_limit q)"
    using assms(1) by (simp_all add: stmt_ok_def)
  let ?p = "stmt_plan q"
  have scan: "tbl_scan t (plan_where ?p) = (case st_where q of None \<Rightarrow> jm_values (rows t)
     | Some (c, g, v) \<Rightarrow> filter (\<lambda>r. cell_test g v (row_get r c)) (jm_values (rows t)))"
    by (rule scan_plan [OF ok(2)]) (simp_all add: stmt_plan_def)
  have pq: "plan_query ?p = new_QueryBuilder\<lparr>whereClause := plan_where ?p\<rparr>"
    by (cases "plan_where ?p") (simp_all add: plan_query_def new_QueryBuilder_def q_where_def)
  have order: "nonempty (s_orderCol ?p) = map_option fst (st_order q)" "st_order q = Some (c, d) \<Longrightarrow> c \<noteq> []" for c d
    using ok(3) by (auto simp: order_ok_def is_word_def nonempty_def stmt_plan_def)
  have limit: "slice_to xs (int_num n) = take (nat n) xs" if "st_limit q = Some n" for n and xs :: "row list"
    using slice_nat(2) [of xs "nat n"] ok(4) that by (simp add: limit_ok_def)
  have sel: "s_table ?p = st_table q" "s_columns ?p = st_columns q" "s_limit ?p = map_option int_num (st_limit q)"
    "s_orderDir ?p = map_option snd (st_order q)" by (simp_all add: stmt_plan_def)
  have tb: "db_table db (st_table q) = Inr t" using assms(3) by simp
  note q_simps = q_all_def q_select_def q_orderBy_def q_limit_def new_QueryBuilder_def q_sorted_def num_is_zero_def
  show ?thesis
    unfolding executeSelect_def parseSelect_print [OF assms(1,2)] res_bind_simps Let_def sel order(1) pq tb
    using no_count_star [OF ok(1)] order(2) limit
    by (cases "st_columns q"; cases "st_order q"; cases "st_limit q") (auto simp: select_spec_def q_simps scan)
qed

lemma insert_row_map: "insert_row plan = map_of (rev (zip (i_columns plan) (i_values plan)))"
proof -
  have "foldl (\<lambda>r (c, v). r(c \<mapsto> v)) m cvs = m ++ map_of (rev cvs)" for m :: row and cvs
    by (induction cvs arbitrary: m) (auto simp: map_add_def fun_eq_iff split: option.splits)
  then show ?thesis by (simp add: insert_row_def)
qed

lemma zero_text: "lit ''0'' = dec_digits 0"
  by code_simp

lemma num_eq_text: "num_eq a (Fin q) \<Longrightarrow> num_to_string a = num_to_string (Fin q)"
  by (cases a) (auto simp: num_eq_def num_norm_def pos_to_string_def zero_text split: if_splits)

lemma num_eq_refl: "num_eq (Fin q) (Fin q)"
  by (simp add: num_eq_def)

lemma strict_eq_key: "printable v \<Longrightarrow> strict_eq x v \<Longrightarrow> encodePk x = encodePk v"
  using num_eq_text by (cases x; cases v) (fastforce simp: printable_def simp del: num_to_string.simps)+

lemma found_by_key:
  assumes "wf_table t" and "tbl_insert r t = (Inr a, t')" and "printable v" and "row_get r (primaryKeyName (schema_of t)) = v"
  shows "filter (\<lambda>r. cell_test (lit ''='') v (row_get r (primaryKeyName (schema_of t)))) (jm_values (rows t')) = [r]"
proof (cases rule: tbl_insert_cases [of r t])
  case (2 k)
  have k: "encodePk v = Inr k" using 2(1) assms(4) by (simp add: row_ok_def)
  have "\<not> strict_eq (row_get r' (primaryKeyName (schema_of t))) v" if "(k', r') \<in> set (rows t)" for k' r'
  proof
    assume "strict_eq (row_get r' (primaryKeyName (schema_of t))) v"
    then have "k' = k" using strict_eq_key [OF assms(3)] wf_row(2) [OF assms(1) that] k by simp
    then show False using wf_row(1) [OF assms(1) that] 2(2) by simp
  qed
  then have "filter (\<lambda>r. strict_eq (row_get r (primaryKeyName (schema_of t))) v) (jm_values (rows t)) = []"
    by (auto simp: filter_empty_conv)
  moreover have "strict_eq v v" using assms(3) num_eq_refl by (auto simp: printable_def)
  moreover have "rows t' = rows t @ [(k, r)]" using 2(3) assms(2) by auto
  ultimately show ?thesis using assms(4) by (simp add: cell_test_def)
qed (use assms(2) in simp)

lemma execute_insert_print:
  assumes "is_word t" "cs \<noteq> []" "list_all is_word cs" "length vs = length cs" "list_all insertable vs" "terminator fin"
  shows "executeSql (print_insert t cs vs fin) db
    = tagged (\<lambda>_. Inserted 1) (db_on t (tbl_insert (map_of (rev (zip cs vs)))) db)"
proof -
  have "print_insert t cs vs fin = lit ''INSERT'' @ 32 # (lit ''INTO '' @ t @ lit '' ('' @ join_with (lit '', '') cs @ lit '') VALUES ('' @
     join_with (lit '', '') (map print_literal vs) @ lit '')'' @ fin)"
    by (simp add: print_insert_def lit_eval)
  then show ?thesis using parseInsert_print [OF assms] classify_head(2)
    by (simp add: executeSql_def run_insert_def insert_row_map)
qed

section \<open>Properties\<close>

text \<open>C8. A DELETE in text form, run on any reachable database: it reports how many rows satisfy its
  condition, removes exactly those, keeps the others in their order, changes no other table, and never
  throws.\<close>

theorem sql_delete_exact:
  assumes "reachable_db db" and "map_of (tables db) t = Some tb"
    and "is_word t" and "where_ok (Some (c, g, v))" and "terminator fin"
  shows "\<exists>db' tb'. executeSql (print_delete t c g v fin) db
      = (Inr (Deleted (length (filter (\<lambda>r. cell_test g v (row_get r c)) (jm_values (rows tb))))), db')
    \<and> map_of (tables db') = (map_of (tables db))(t \<mapsto> tb') \<and> schema_of tb' = schema_of tb
    \<and> rows tb' = filter (\<lambda>(k, r). \<not> cell_test g v (row_get r c)) (rows tb)"
proof -
  let ?p = "\<lparr>whereCol = Some c, whereOp = Some g, whereVal = v, d_table = t\<rparr>"
  have w: "is_word c" "g \<in> set sql_operators" "printable v" using assms(4) by (simp_all add: where_ok_def)
  have wf: "wf_table tb" using reachable_db_wf [OF assms(1)] assms(2) by (simp add: wf_db_def)
  have p: "parseDelete (print_delete t c g v fin) = Inr ?p" by (rule parseDelete_print [OF assms(3) w assms(5)])
  have "print_delete t c g v fin = lit ''DELETE'' @ 32 # (lit ''FROM '' @ t @ print_where c g v @ fin)"
    by (simp add: print_delete_def lit_eval)
  then have "executeSql (print_delete t c g v fin) db = run_delete ?p db" using p classify_head(1) by (simp add: executeSql_def)
  moreover have "hit ?p = (\<lambda>r. cell_test g v (row_get r c))" by (rule ext) (simp add: hit_def)
  ultimately show ?thesis using run_delete_rows [OF wf parseDelete_typed [OF p], of db] assms(2) by (auto simp: map_of_update)
qed

text \<open>C9. An UPDATE that parses, run on any reachable database: the rows its condition matched are patched
  one after the other, in order. Either all of them are and the statement reports their number, or it
  throws at one of them and exactly the ones before it stay patched. No other row and no other table
  changes.\<close>

theorem sql_update_outcomes:
  assumes "reachable_db db" and "classifyStatement sql = Inr UpdateStmt" and "parseUpdate sql = Inr p"
    and "map_of (tables db) (u_table p) = Some tb" and "hits = filter (\<lambda>(k, r). hit p r) (rows tb)"
  shows "\<exists>res db' tb' i. executeSql sql db = (res, db')
    \<and> map_of (tables db') = (map_of (tables db))(u_table p \<mapsto> tb')
    \<and> rows tb' = patch_rows (set (jm_keys (take i hits))) (update_patch p) (rows tb)
    \<and> (res = Inr (Updated (length hits)) \<and> i = length hits \<or> (\<exists>e. res = Inl e) \<and> i < length hits)"
proof -
  have wf: "wf_table tb" using reachable_db_wf [OF assms(1)] assms(4) by (simp add: wf_db_def)
  have "executeSql sql db = run_update p db" using assms(2,3) by (simp add: executeSql_def)
  then show ?thesis using run_update_rows [OF wf parseUpdate_typed [OF assms(3)] assms(4)] unfolding assms(5)
    by (force simp: map_of_update)
qed

text \<open>C36. A statement of any other kind that throws leaves the database as it was.\<close>

theorem failed_statement_changes_nothing:
  assumes "reachable_db db" and "executeSql sql db = (Inl e, db')" and "classifyStatement sql \<noteq> Inr UpdateStmt"
  shows "db' = db"
  using failed_unchanged [OF reachable_db_wf [OF assms(1)] assms(2,3)] .

text \<open>C10. A SELECT in text form (no JOIN, any projection of named columns) returns the rows that satisfy its
  condition, sorted by the ORDER BY column, cut off at the limit, then projected.\<close>

theorem sql_select_pipeline:
  assumes "stmt_ok q" and "terminator fin" and "map_of (tables db) (st_table q) = Some t"
  shows "executeSelect db (print_select q fin) = Inr (select_spec q (jm_values (rows t)))"
  using assms by (rule executeSelect_print)

text \<open>C4. An INSERT that returns can be read back: on any reachable database, for a key that can be written
  in a WHERE clause, the SELECT of that key returns exactly the row of the written columns and
  values.\<close>

theorem sql_insert_then_select:
  assumes "reachable_db db" and "executeSql (print_insert t cs vs fin) db = (Inr res, db')"
    and "is_word t" "cs \<noteq> []" "list_all is_word cs" "length vs = length cs" "list_all insertable vs" "terminator fin"
    and "map_of (tables db) t = Some tb" and "pk = primaryKeyName (schema_of tb)" and "is_word pk"
    and "r = map_of (rev (zip cs vs))" and "printable (row_get r pk)" and "terminator fin'"
  shows "res = Inserted 1 \<and> executeSelect db' (print_select \<lparr>st_columns = AllColumns, st_table = t,
      st_where = Some (pk, lit ''='', row_get r pk), st_order = None, st_limit = None\<rparr> fin') = Inr [r]"
proof -
  let ?q = "\<lparr>st_columns = AllColumns, st_table = t, st_where = Some (pk, lit ''='', row_get r pk), st_order = None, st_limit = None\<rparr>"
  have wf: "wf_table tb" using reachable_db_wf [OF assms(1)] assms(9) by (simp add: wf_db_def)
  have run: "tagged (\<lambda>_. Inserted 1) (db_on t (tbl_insert r) db) = (Inr res, db')"
    using assms(2,12) execute_insert_print [OF assms(3-8)] by simp
  obtain a tb' where i: "tbl_insert r tb = (Inr a, tb')" "res = Inserted 1" "map_of (tables db') t = Some tb'"
    using run db_on_present [OF assms(9), of "tbl_insert r"]
    by (cases "tbl_insert r tb"; cases "fst (tbl_insert r tb)") (auto simp: tagged_def map_of_update)
  have ok: "stmt_ok ?q" using assms(3,11,13)
    by (simp add: stmt_ok_def projection_ok_def where_ok_def order_ok_def limit_ok_def sql_operators_def)
  have "select_spec ?q (jm_values (rows tb')) = [r]"
    using found_by_key [OF wf i(1) assms(13)] assms(10) by (simp add: select_spec_def)
  then show ?thesis using executeSelect_print [OF ok assms(14), of db' tb'] i(2,3) by simp
qed


section \<open>Concrete statements\<close>

definition two_db :: database where
  "two_db = \<lparr>tables = [(lit ''t'', ex_table2)]\<rparr>"

lemma two_db_reachable: "reachable_db two_db"
proof -
  have "two_db = db_step (OnTable (lit ''t'') (OpInsert (ex_row 3 ''b''))) (db_step (OnTable (lit ''t'') (OpInsert (ex_row 7 ''a''))) ex_db)"
    by (simp add: two_db_def ex_db_def ex_table2_def db_on_def db_table_def case_prod_beta)
  then show ?thesis using ex_db_reachable reachable_db.step by metis
qed

lemma two_db_table: "map_of (tables two_db) (lit ''t'') = Some ex_table2"
  by (simp add: two_db_def)

theorem sql_delete_exact_witness:
  "\<exists>db'. executeSql (print_delete (lit ''t'') (lit ''id'') (lit ''>'') (Num (int_num 5)) []) two_db = (Inr (Deleted 1), db')"
proof -
  have w: "is_word (lit ''t'')" "is_word (lit ''id'')" by code_simp+
  have "printable (Num (int_num 5))" unfolding printable_def by (intro disjI2 exI [of _ 5]) simp
  then have o: "where_ok (Some (lit ''id'', lit ''>'', Num (int_num 5)))" using w by (simp add: where_ok_def sql_operators_def)
  have "length (filter (\<lambda>r. cell_test (lit ''>'') (Num (int_num 5)) (row_get r (lit ''id''))) (jm_values (rows ex_table2))) = 1"
    by code_simp
  then show ?thesis using sql_delete_exact [OF two_db_reachable two_db_table w(1) o, of "[]"] by (auto simp: terminator_def)
qed

definition part_sql :: jstr where
  "part_sql = lit ''UPDATE t SET id = 7, name = NULL WHERE id > 0''"

definition part_plan :: parsed_update where
  "part_plan = \<lparr>whereCol = Some (lit ''id''), whereOp = Some (lit ''>''), whereVal = Num (Fin 0), u_table = lit ''t'',
     u_sets = [(lit ''id'', Num (Fin 7)), (lit ''name'', Null)]\<rparr>"

lemma part_parse: "parseUpdate part_sql = Inr part_plan"
  by code_simp

lemma part_class: "classifyStatement part_sql = Inr UpdateStmt"
  by code_simp

theorem sql_update_outcomes_witness:
  "\<exists>res db' i. executeSql part_sql two_db = (res, db')
     \<and> (res = Inr (Updated (length (filter (\<lambda>(k, r). hit part_plan r) (rows ex_table2)))) \<or> i < length (filter (\<lambda>(k, r). hit part_plan r) (rows ex_table2)))"
  using sql_update_outcomes [OF two_db_reachable part_class part_parse _ refl, of ex_table2] two_db_table
  by (auto simp: part_plan_def)

lemma dup_fails: "\<not> is_ok (fst (executeSql (lit ''INSERT INTO t (id) VALUES (7)'') two_db))"
  by code_simp

lemma dup_class: "classifyStatement (lit ''INSERT INTO t (id) VALUES (7)'') = Inr InsertStmt"
  by code_simp

theorem failed_statement_changes_nothing_witness:
  "snd (executeSql (lit ''INSERT INTO t (id) VALUES (7)'') two_db) = two_db"
proof -
  obtain e db' where r: "executeSql (lit ''INSERT INTO t (id) VALUES (7)'') two_db = (Inl e, db')"
    using dup_fails by (cases "executeSql (lit ''INSERT INTO t (id) VALUES (7)'') two_db"; cases "fst (executeSql (lit ''INSERT INTO t (id) VALUES (7)'') two_db)")
      (auto simp: is_ok_def)
  show ?thesis using failed_statement_changes_nothing [OF two_db_reachable r] unfolding r dup_class by simp
qed

definition last_name :: select_stmt where
  "last_name = \<lparr>st_columns = Columns [lit ''name''], st_table = lit ''t'', st_where = None, st_order = Some (lit ''id'', Desc), st_limit = Some 1\<rparr>"

theorem sql_select_pipeline_witness:
  "executeSelect two_db (print_select last_name []) = Inr (select_spec last_name (jm_values (rows ex_table2)))"
proof (rule sql_select_pipeline)
  have "is_word (lit ''t'')" "is_word (lit ''id'')" "column_name (lit ''name'')" by code_simp+
  then show "stmt_ok last_name" by (simp add: last_name_def stmt_ok_def projection_ok_def where_ok_def order_ok_def limit_ok_def)
  show "map_of (tables two_db) (st_table last_name) = Some ex_table2" using two_db_table by (simp add: last_name_def)
qed (simp add: terminator_def)

lemma fresh_insert: "is_ok (fst (executeSql (print_insert (lit ''t'') [lit ''id'', lit ''name''] [Num (int_num 5), Str (lit ''x'')] []) ex_db))"
  by code_simp

theorem sql_insert_then_select_witness:
  "\<exists>res db' r. executeSql (print_insert (lit ''t'') [lit ''id'', lit ''name''] [Num (int_num 5), Str (lit ''x'')] []) ex_db = (Inr res, db')
    \<and> executeSelect db' (print_select \<lparr>st_columns = AllColumns, st_table = lit ''t'',
      st_where = Some (lit ''id'', lit ''='', Num (int_num 5)), st_order = None, st_limit = None\<rparr> []) = Inr [r]"
proof -
  let ?sql = "print_insert (lit ''t'') [lit ''id'', lit ''name''] [Num (int_num 5), Str (lit ''x'')] []"
    and ?r = "map_of (rev (zip [lit ''id'', lit ''name''] [Num (int_num 5), Str (lit ''x'')]))"
  obtain res db' where ex: "executeSql ?sql ex_db = (Inr res, db')"
    using fresh_insert by (cases "executeSql ?sql ex_db"; cases "fst (executeSql ?sql ex_db)") (auto simp: is_ok_def)
  have w: "is_word (lit ''t'')" "is_word (lit ''id'')" "is_word (lit ''name'')" by code_simp+
  have pk: "lit ''id'' = primaryKeyName (schema_of ex_table)" by code_simp
  have cell: "row_get ?r (lit ''id'') = Num (int_num 5)" by (simp add: row_get_def lit_eval)
  have p: "printable (Num (int_num 5))" unfolding printable_def by (intro disjI2 exI [of _ 5]) simp
  have "literal_ok (Num (int_num 5))" unfolding literal_ok_def by (intro disjI2 exI [of _ "5"]) simp
  then have "list_all insertable [Num (int_num 5), Str (lit ''x'')]" by (simp add: insertable_def literal_ok_def lit_eval)
  from sql_insert_then_select [OF ex_db_reachable ex w(1) _ _ _ this _ _ pk w(2) refl, where fin' = "[]"]
  show ?thesis using ex w cell p by (auto simp: terminator_def ex_db_def)
qed


definition cells :: "jstr \<Rightarrow> database \<Rightarrow> jsval list list" where
  \<comment> \<open>the cells \<open>id\<close> and \<open>name\<close> of the rows of a table\<close>
  "cells t db = (case map_of (tables db) t of None \<Rightarrow> []
     | Some tb \<Rightarrow> map (\<lambda>r. [row_get r (lit ''id''), row_get r (lit ''name'')]) (jm_values (rows tb)))"

text \<open>An UPDATE can take effect in part: this one assigns the key 7 to the rows 7 and 3. The first row is
  patched, the second throws because its key would change, and the first row keeps its patch.\<close>

theorem sql_update_partial:
  "cells (lit ''t'') two_db = [[Num (Fin 7), Str (lit ''a'')], [Num (Fin 3), Str (lit ''b'')]]
   \<and> \<not> is_ok (fst (executeSql part_sql two_db))
   \<and> cells (lit ''t'') (snd (executeSql part_sql two_db)) = [[Num (Fin 7), Null], [Num (Fin 3), Str (lit ''b'')]]"
proof -
  have "executeSql part_sql two_db = run_update part_plan two_db" by (simp add: executeSql_def part_class part_parse)
  moreover have "\<not> is_ok (fst (run_update part_plan two_db))" by code_simp
  moreover have "cells (lit ''t'') (snd (run_update part_plan two_db)) = [[Num (Fin 7), Null], [Num (Fin 3), Str (lit ''b'')]]" by code_simp
  moreover have "cells (lit ''t'') two_db = [[Num (Fin 7), Str (lit ''a'')], [Num (Fin 3), Str (lit ''b'')]]" by code_simp
  ultimately show ?thesis by simp
qed
end
