(* ===== verification/Paths.thy ===== *)
theory Paths
  imports JsValue
begin

text \<open>
  The functions of \<open>node:path\<close> that \<open>client/addon.ts\<close> and \<open>catalog_store.ts\<close> call, on POSIX paths:
  \<open>dirname\<close>, \<open>join\<close> and \<open>resolve\<close>, with the normalisation of \<open>.\<close>, \<open>..\<close> and repeated separators.
\<close>

abbreviation path_sep :: code_unit where
  \<comment> \<open>\<open>path.sep\<close>\<close>
  "path_sep \<equiv> 47"

definition dirname :: "jstr \<Rightarrow> jstr" where
  "dirname p =
     (if p = [] then lit ''.''
      else let parent = dropWhile (\<lambda>c. c \<noteq> path_sep) (dropWhile (\<lambda>c. c = path_sep) (rev (tl p)))
           in if parent = [] then (if hd p = path_sep then [path_sep] else lit ''.'')
              else if hd p = path_sep \<and> length parent = 1 then [path_sep, path_sep] else take (length parent) p)"

fun normal_segments :: "bool \<Rightarrow> jstr list \<Rightarrow> jstr list \<Rightarrow> jstr list" where
  \<comment> \<open>\<open>normalizeString\<close>, with the segments kept so far and whether \<open>..\<close> may stay in front\<close>
  "normal_segments allow kept [] = kept"
| "normal_segments allow kept (s # ss) =
     (if s = [] \<or> s = lit ''.'' then normal_segments allow kept ss
      else if s = lit ''..'' then
        (if kept \<noteq> [] \<and> last kept \<noteq> lit ''..'' then normal_segments allow (butlast kept) ss
         else normal_segments allow (if allow then kept @ [s] else kept) ss)
      else normal_segments allow (kept @ [s]) ss)"

definition is_absolute :: "jstr \<Rightarrow> bool" where
  "is_absolute p \<longleftrightarrow> take 1 p = [path_sep]"

definition normalize :: "jstr \<Rightarrow> jstr" where
  "normalize p =
     (if p = [] then lit ''.''
      else let body = join_with [path_sep] (normal_segments (\<not> is_absolute p) [] (split_char path_sep p));
               trailing = (last p = path_sep)
           in if is_absolute p then path_sep # body @ (if body \<noteq> [] \<and> trailing then [path_sep] else [])
              else if body = [] then (if trailing then lit ''./'' else lit ''.'')
              else body @ (if trailing then [path_sep] else []))"

definition path_join :: "jstr list \<Rightarrow> jstr" where
  "path_join parts = normalize (join_with [path_sep] (filter (\<lambda>s. s \<noteq> []) parts))"

definition path_resolve :: "jstr \<Rightarrow> jstr \<Rightarrow> jstr" where
  \<comment> \<open>against the working directory, an absolute path\<close>
  "path_resolve cwd p =
     path_sep # join_with [path_sep] (normal_segments False [] (split_char path_sep (if is_absolute p then p else cwd @ path_sep # p)))"

fun js_includes_part :: "jstr \<Rightarrow> jstr \<Rightarrow> bool" where
  \<comment> \<open>\<open>s.includes(part)\<close>\<close>
  "js_includes_part part [] = (part = [])"
| "js_includes_part part (c # s) = (take (length part) (c # s) = part \<or> js_includes_part part s)"

end
