(* ===== verification/Json.thy ===== *)
theory Json
  imports NumText Codec Utf8
begin

text \<open>
  \<open>JSON.stringify(v, null, 2)\<close> and \<open>JSON.parse\<close> of the language on the values the SDK passes to them, over
  UTF-16 text: indentation, escapes, lone surrogates, the number grammar, and objects whose repeated
  names keep the last value. Parsing inverts printing on values with distinct names and safe integers.
\<close>

datatype json =
    JNull
  | JBool bool
  | JNum jsnum
  | JStr jstr
  | JArr "json list"
  | JObj "(jstr \<times> json) list"

section \<open>Printing\<close>

definition hex4 :: "code_unit \<Rightarrow> jstr" where
  "hex4 c = map (\<lambda>d. hex_digit (uint c div d mod 16)) [4096, 256, 16, 1]"

definition quote_unit :: "code_unit \<Rightarrow> jstr" where
  \<comment> \<open>a code unit that is not half of a surrogate pair\<close>
  "quote_unit c =
     (if c = 34 \<or> c = 92 then [92, c]
      else if c = 8 then [92, 98] else if c = 9 then [92, 116] else if c = 10 then [92, 110]
      else if c = 12 then [92, 102] else if c = 13 then [92, 114]
      else if c < 32 \<or> is_high c \<or> is_low c then 92 # 117 # hex4 c else [c])"

fun quote_body :: "jstr \<Rightarrow> jstr" where
  "quote_body [] = []"
| "quote_body [c] = quote_unit c"
| "quote_body (c # d # s) =
     (if is_high c \<and> is_low d then c # d # quote_body s else quote_unit c @ quote_body (d # s))"

definition quote_json :: "jstr \<Rightarrow> jstr" where
  "quote_json s = 34 # quote_body s @ [34]"

definition newline :: "nat \<Rightarrow> jstr" where
  \<comment> \<open>a line feed and the indentation\<close>
  "newline k = 10 # replicate k 32"

definition finite_num :: "jsnum \<Rightarrow> bool" where
  "finite_num n \<longleftrightarrow> n \<noteq> NaN \<and> n \<noteq> PosInf \<and> n \<noteq> NegInf"

fun stringify :: "nat \<Rightarrow> json \<Rightarrow> jstr" where
  "stringify k JNull = lit ''null''"
| "stringify k (JBool b) = (if b then lit ''true'' else lit ''false'')"
| "stringify k (JNum n) = (if finite_num n then num_to_string n else lit ''null'')"
| "stringify k (JStr s) = quote_json s"
| "stringify k (JArr xs) =
     (if xs = [] then [91, 93]
      else 91 # join_with [44] (map (\<lambda>x. newline (k + 2) @ stringify (k + 2) x) xs) @ newline k @ [93])"
| "stringify k (JObj kvs) =
     (if kvs = [] then [123, 125]
      else 123 # join_with [44] (map (\<lambda>(key, v). newline (k + 2) @ quote_json key @ [58, 32] @ stringify (k + 2) v) kvs)
        @ newline k @ [125])"

section \<open>Parsing\<close>

definition json_space :: "code_unit \<Rightarrow> bool" where
  "json_space c \<longleftrightarrow> c = 32 \<or> c = 10 \<or> c = 13 \<or> c = 9"

abbreviation skip_ws :: "jstr \<Rightarrow> jstr" where
  "skip_ws \<equiv> dropWhile json_space"

definition expect :: "code_unit \<Rightarrow> jstr \<Rightarrow> jstr option" where
  \<comment> \<open>the text behind the character, if it is the next token\<close>
  "expect c s = (case skip_ws s of [] \<Rightarrow> None | d # r \<Rightarrow> if d = c then Some r else None)"

definition simple_escape :: "code_unit \<Rightarrow> code_unit option" where
  "simple_escape e = map_of [(34, 34), (92, 92), (47, 47), (98, 8), (102, 12), (110, 10), (114, 13), (116, 9)] e"

definition hex_unit :: "jstr \<Rightarrow> code_unit option" where
  "hex_unit ds = map_option word_of_int (parse_radix 16 ds 0)"

fun parse_chars :: "jstr \<Rightarrow> (jstr \<times> jstr) option" where
  \<comment> \<open>a string behind its opening quote, and the text behind the closing one\<close>
  "parse_chars [] = None"
| "parse_chars (c # s) =
     (if c = 34 then Some ([], s)
      else if c = 92 then
        (case s of [] \<Rightarrow> None
         | e # s1 \<Rightarrow>
             if e = 117 then
               (case s1 of a # b # x # y # s2 \<Rightarrow>
                  (case hex_unit [a, b, x, y] of None \<Rightarrow> None | Some u \<Rightarrow> map_option (apfst ((#) u)) (parse_chars s2))
                | _ \<Rightarrow> None)
             else (case simple_escape e of None \<Rightarrow> None | Some u \<Rightarrow> map_option (apfst ((#) u)) (parse_chars s1)))
      else if c < 32 then None
      else map_option (apfst ((#) c)) (parse_chars s))"

definition number_fraction :: "jstr \<Rightarrow> (jstr \<times> jstr) option" where
  "number_fraction s =
     (if take 1 s = [46] then
        (case take_digits (drop 1 s) of (f, r) \<Rightarrow> if f = [] then None else Some (46 # f, r))
      else Some ([], s))"

definition number_exponent :: "jstr \<Rightarrow> (jstr \<times> jstr) option" where
  "number_exponent s =
     (if take 1 s = [101] \<or> take 1 s = [69] then
        (let sg = (if take 1 (drop 1 s) = [43] \<or> take 1 (drop 1 s) = [45] then take 1 (drop 1 s) else []) in
         case take_digits (drop (1 + length sg) s) of (x, r) \<Rightarrow> if x = [] then None else Some (101 # sg @ x, r))
      else Some ([], s))"

definition parse_number :: "jstr \<Rightarrow> (json \<times> jstr) option" where
  \<comment> \<open>\<open>-? (0 | [1-9][0-9]*) (. [0-9]+)? ([eE] [+-]? [0-9]+)?\<close>\<close>
  "parse_number s =
     (let sg = (if take 1 s = [45] then [45] else []) in
      case take_digits (drop (length sg) s) of (ds, _) \<Rightarrow>
        if ds = [] then None
        else let whole = (if hd ds = 48 then [48] else ds) in
          case number_fraction (drop (length sg + length whole) s) of None \<Rightarrow> None
          | Some (f, r1) \<Rightarrow>
              (case number_exponent r1 of None \<Rightarrow> None
               | Some (x, r2) \<Rightarrow> Some (JNum (string_to_num (sg @ whole @ f @ x)), r2)))"

text \<open>The tests of the remaining length always succeed (\<open>parse_shorter\<close>); they are what termination rests on.\<close>

function parse_value :: "jstr \<Rightarrow> (json \<times> jstr) option"
  and parse_elements :: "jstr \<Rightarrow> (json list \<times> jstr) option"
  and parse_members :: "jstr \<Rightarrow> ((jstr \<times> json) list \<times> jstr) option"
where
  "parse_value t =
     (case skip_ws t of [] \<Rightarrow> None
      | c # s \<Rightarrow>
          if c = 34 then map_option (apfst JStr) (parse_chars s)
          else if c = 91 then
            (case expect 93 s of Some r \<Rightarrow> Some (JArr [], r) | None \<Rightarrow> map_option (apfst JArr) (parse_elements s))
          else if c = 123 then
            (case expect 125 s of Some r \<Rightarrow> Some (JObj [], r)
             | None \<Rightarrow> map_option (apfst (\<lambda>kvs. JObj (foldl (\<lambda>m (k, v). AList.update k v m) [] kvs))) (parse_members s))
          else if take 4 (c # s) = lit ''null'' then Some (JNull, drop 3 s)
          else if take 4 (c # s) = lit ''true'' then Some (JBool True, drop 3 s)
          else if take 5 (c # s) = lit ''false'' then Some (JBool False, drop 4 s)
          else parse_number (c # s))"
| "parse_elements s =
     (case parse_value s of None \<Rightarrow> None
      | Some (v, r) \<Rightarrow>
          (case expect 44 r of
             Some r1 \<Rightarrow> if length r1 < length s then map_option (apfst ((#) v)) (parse_elements r1) else None
           | None \<Rightarrow> map_option (\<lambda>r1. ([v], r1)) (expect 93 r)))"
| "parse_members s =
     (case expect 34 s of None \<Rightarrow> None
      | Some s1 \<Rightarrow>
          (case parse_chars s1 of None \<Rightarrow> None
           | Some (key, s2) \<Rightarrow>
               (case expect 58 s2 of None \<Rightarrow> None
                | Some s3 \<Rightarrow>
                    if \<not> length s3 < length s then None
                    else (case parse_value s3 of None \<Rightarrow> None
                          | Some (v, r) \<Rightarrow>
                              (case expect 44 r of
                                 Some r1 \<Rightarrow> if length r1 < length s then map_option (apfst ((#) (key, v))) (parse_members r1) else None
                               | None \<Rightarrow> map_option (\<lambda>r1. ([(key, v)], r1)) (expect 125 r))))))"
  by pat_completeness auto
termination
proof (relation "measure (\<lambda>x. case x of Inl s \<Rightarrow> 2 * length s | Inr (Inl s) \<Rightarrow> 2 * length s + 1 | Inr (Inr s) \<Rightarrow> 2 * length s + 1)", goal_cases)
  case 1
  then show ?case by simp
next
  case (2 t c s)
  have "length (skip_ws t) \<le> length t" by (rule length_dropWhile_le)
  then show ?case using 2 by simp
next
  case (3 t c s)
  have "length (skip_ws t) \<le> length t" by (rule length_dropWhile_le)
  then show ?case using 3 by simp
qed simp_all

definition json_parse :: "jstr \<Rightarrow> json option" where
  \<comment> \<open>\<open>JSON.parse\<close>, \<open>None\<close> for a \<open>SyntaxError\<close>\<close>
  "json_parse s = (case parse_value s of None \<Rightarrow> None | Some (v, r) \<Rightarrow> if skip_ws r = [] then Some v else None)"

definition get_prop :: "json \<Rightarrow> jstr \<Rightarrow> json option" where
  \<comment> \<open>an own property of a value that is not \<open>null\<close>\<close>
  "get_prop j name = (case j of JObj kvs \<Rightarrow> map_of kvs name | _ \<Rightarrow> None)"

declare parse_value.simps [simp del] parse_elements.simps [simp del] parse_members.simps [simp del]


section \<open>Parsing inverts printing\<close>

lemma hex_digit_back:
  assumes "0 \<le> n" and "n < 16"
  shows "hex_digit_value (hex_digit n) = Some n"
proof -
  have "n = 0 \<or> n = 1 \<or> n = 2 \<or> n = 3 \<or> n = 4 \<or> n = 5 \<or> n = 6 \<or> n = 7 \<or> n = 8 \<or> n = 9 \<or> n = 10 \<or> n = 11 \<or> n = 12
      \<or> n = 13 \<or> n = 14 \<or> n = 15" using assms by arith
  then show ?thesis by (elim disjE) (simp_all add: hex_digit_def hex_digit_value_def is_digit_def)
qed

lemma hex4_back: "hex_unit (hex4 c) = Some c"
proof -
  let ?u = "uint c"
  have u: "0 \<le> ?u" "?u < 65536" using uint_unit_bound by auto
  define a b x y where abxy: "a = ?u div 4096" "b = ?u div 256 mod 16" "x = ?u div 16 mod 16" "y = ?u mod 16"
  have a: "0 \<le> a" "a < 16" using u unfolding abxy by linarith+
  have m: "?u div 4096 mod 16 = a" "?u div 256 mod 16 = b" "?u div 16 mod 16 = x" "?u div 1 mod 16 = y"
    using a by (simp_all add: abxy)
  have rest: "0 \<le> b" "b < 16" "0 \<le> x" "x < 16" "0 \<le> y" "y < 16" unfolding abxy by simp_all
  have d: "?u div 256 div 16 = a" "?u div 16 div 16 = ?u div 256"
    using zdiv_zmult2_eq [of 16 ?u 256] zdiv_zmult2_eq [of 16 ?u 16] by (simp_all add: abxy)
  have "16 * a + b = ?u div 256" using mult_div_mod_eq [of 16 "?u div 256"] unfolding d(1) abxy(2) [symmetric] .
  moreover have "16 * (?u div 256) + x = ?u div 16" using mult_div_mod_eq [of 16 "?u div 16"] unfolding d(2) abxy(3) [symmetric] .
  moreover have "16 * (?u div 16) + y = ?u" using mult_div_mod_eq [of 16 ?u] unfolding abxy(4) [symmetric] .
  ultimately have sum: "16 * (16 * (16 * a + b) + x) + y = ?u" by simp
  have "hex4 c = [hex_digit a, hex_digit b, hex_digit x, hex_digit y]" unfolding hex4_def list.map m ..
  then have "hex_unit (hex4 c) = Some (word_of_int (16 * (16 * (16 * a + b) + x) + y))"
    using a rest by (simp add: hex_unit_def hex_digit_back)
  then show ?thesis unfolding sum by simp
qed

lemma quote_unit_back: "parse_chars (quote_unit c @ t) = map_option (apfst ((#) c)) (parse_chars t)"
proof (cases "c < 32 \<or> is_high c \<or> is_low c")
  case True
  obtain a b x y where h: "hex4 c = [a, b, x, y]" by (simp add: hex4_def)
  then have "hex_unit [a, b, x, y] = Some c" using hex4_back [of c] by simp
  then show ?thesis using True h by (auto simp: quote_unit_def simple_escape_def)
next
  case False
  then show ?thesis by (auto simp: quote_unit_def simple_escape_def)
qed

lemma surrogate_facts: "is_high c \<or> is_low c \<Longrightarrow> c \<noteq> 34 \<and> c \<noteq> 92 \<and> \<not> c < 32"
  by (auto simp: is_high_def is_low_def word_less_def)

lemma quote_back: "parse_chars (quote_body s @ 34 # r) = Some (s, r)"
proof (induction s rule: quote_body.induct)
  case (3 c d s)
  then show ?case using surrogate_facts [of c] surrogate_facts [of d] by (simp add: quote_unit_back)
qed (simp_all add: quote_unit_back)

definition number_ends :: "jstr \<Rightarrow> bool" where
  "number_ends r \<longleftrightarrow> r = [] \<or> (\<not> is_digit (hd r) \<and> hd r \<noteq> 46 \<and> hd r \<noteq> 101 \<and> hd r \<noteq> 69)"

lemma dec_digits_zero: "0 < n \<Longrightarrow> hd (dec_digits n) \<noteq> 48"
proof (induction n rule: dec_digits.induct)
  case (1 n)
  show ?case
  proof (cases "n < 10")
    case True
    then have "n \<in> {1, 2, 3, 4, 5, 6, 7, 8, 9}" using "1.prems" by auto
    then show ?thesis by (elim insertE) (subst dec_digits.simps; simp)+
  next
    case False
    then show ?thesis using 1 by (subst dec_digits.simps) simp
  qed
qed

lemma digits_back:
  assumes "0 \<le> n" and "number_ends r"
  shows "take_digits (dec_digits n @ r) = (dec_digits n, r)" "hd (dec_digits n) = 48 \<Longrightarrow> dec_digits n = [48]"
    "number_fraction r = Some ([], r)" "number_exponent r = Some ([], r)" "hd (dec_digits n) \<noteq> 45"
proof -
  have d: "list_all is_digit (dec_digits n)" by (rule dec_digits_all [OF assms(1)])
  have "r = [] \<or> \<not> is_digit (hd r)" using assms(2) by (auto simp: number_ends_def)
  from takeWhile_digits [OF d this] show "take_digits (dec_digits n @ r) = (dec_digits n, r)" by (simp add: take_digits_def)
  show "dec_digits n = [48]" if "hd (dec_digits n) = 48"
  proof -
    have "n = 0" using dec_digits_zero [of n] that assms(1) by linarith
    then show ?thesis by (subst dec_digits.simps) simp
  qed
  show "number_fraction r = Some ([], r)" "number_exponent r = Some ([], r)"
    using assms(2) by (cases r; simp add: number_ends_def number_fraction_def number_exponent_def)+
  show "hd (dec_digits n) \<noteq> 45" using dec_digits_head [OF assms(1)] digit_not by blast
qed

lemma number_back:
  assumes "\<bar>i\<bar> \<le> 2 ^ 53" and "number_ends r"
  shows "parse_number (num_to_string (int_num i) @ r) = Some (JNum (int_num i), r)"
proof -
  let ?d = "dec_digits \<bar>i\<bar>" and ?sg = "if i < 0 then [45] else []"
  have t: "num_to_string (int_num i) = ?sg @ ?d" using num_to_string_int [OF assms(1)] by (simp add: lit_eval)
  have n: "string_to_num (?sg @ ?d) = int_num i" using signed_text_back [OF assms(1)] by simp
  note b = digits_back [of "\<bar>i\<bar>", OF _ assms(2)]
  obtain c cs where d: "?d = c # cs" by (cases ?d) auto
  have sg: "(if take 1 (?sg @ ?d @ r) = [45] then [45] else []) = ?sg" using b(5) d by simp
  have w: "(if hd ?d = 48 then [48] else ?d) = ?d" using b(2) by simp
  show ?thesis
    unfolding t append_assoc parse_number_def Let_def sg using b(1,3,4) n w by simp
qed

fun json_ok :: "json \<Rightarrow> bool" where
  \<comment> \<open>safe integers and distinct names throughout\<close>
  "json_ok (JNum n) \<longleftrightarrow> (\<exists>i. n = int_num i \<and> \<bar>i\<bar> \<le> 2 ^ 53)"
| "json_ok (JArr xs) \<longleftrightarrow> (\<forall>x\<in>set xs. json_ok x)"
| "json_ok (JObj kvs) \<longleftrightarrow> distinct (map fst kvs) \<and> (\<forall>kv\<in>set kvs. json_ok (snd kv))"
| "json_ok _ \<longleftrightarrow> True"

lemma skip_space: "list_all json_space w \<Longrightarrow> skip_ws (w @ s) = skip_ws s"
  by (induction w) simp_all

lemma newline_space: "list_all json_space (newline k)"
  by (simp add: newline_def json_space_def list_all_iff)

lemma parse_value_space: "parse_value (newline k @ s) = parse_value s"
  using skip_space [OF newline_space, of k s] by (simp add: parse_value.simps)

lemma expect_simps:
  "\<not> json_space d \<Longrightarrow> expect c (d # s) = (if d = c then Some s else None)"
  "expect c (newline k @ s) = expect c s"
  using skip_space [OF newline_space, of k s] by (simp_all add: expect_def)

lemma not_space: "\<not> json_space 34" "\<not> json_space 44" "\<not> json_space 58" "\<not> json_space 91" "\<not> json_space 93" "\<not> json_space 123"
  "\<not> json_space 125" "json_space 32"
  by (simp_all add: json_space_def)

lemma digit_not_space: "is_digit c \<Longrightarrow> \<not> json_space c"
  by (auto simp: json_space_def is_digit_def)

lemma stringify_head:
  assumes "json_ok j"
  shows "\<exists>c s. stringify k j = c # s \<and> \<not> json_space c \<and> c \<noteq> 93"
proof (cases j)
  case (JNum n)
  then obtain i where n: "n = int_num i" "\<bar>i\<bar> \<le> 2 ^ 53" using assms by auto
  obtain c cs where d: "dec_digits \<bar>i\<bar> = c # cs" by (cases "dec_digits \<bar>i\<bar>") auto
  have c: "is_digit c" using dec_digits_head [of "\<bar>i\<bar>"] d by simp
  have "stringify k j = (if i < 0 then [45] else []) @ c # cs"
    using num_to_string_int [OF n(2)] d by (simp add: JNum n(1) finite_num_def lit_eval)
  then show ?thesis using digit_not_space [OF c] c by (auto simp: json_space_def is_digit_def)
qed (auto simp: lit_eval json_space_def quote_json_def)

lemma update_all: "distinct (map fst kvs) \<Longrightarrow> foldl (\<lambda>m (k, v). AList.update k v m) [] kvs = kvs"
proof (induction kvs rule: rev_induct)
  case (snoc kv kvs)
  then have "map_of kvs (fst kv) = None" by (simp add: map_of_eq_None_iff)
  then show ?case using snoc by (simp add: case_prod_beta update_fresh)
qed simp

lemma number_ends_sep: "number_ends (44 # r)" "number_ends (newline k @ r)"
  by (simp_all add: number_ends_def newline_def is_digit_def)

lemma elements_back:
  assumes "xs \<noteq> []" and "\<And>x r. x \<in> set xs \<Longrightarrow> number_ends r \<Longrightarrow> parse_value (stringify k x @ r) = Some (x, r)"
  shows "parse_elements (join_with [44] (map (\<lambda>x. newline k @ stringify k x) xs) @ newline m @ 93 # r) = Some (xs, r)"
  using assms
proof (induction xs)
  case (Cons x xs)
  show ?case
  proof (cases xs)
    case Nil
    then show ?thesis using Cons.prems(2) [of x] number_ends_sep
      by (subst parse_elements.simps) (simp add: parse_value_space expect_simps not_space)
  next
    case (Cons y ys)
    let ?rest = "join_with [44] (map (\<lambda>x. newline k @ stringify k x) xs) @ newline m @ 93 # r"
    have "join_with [44] (map (\<lambda>x. newline k @ stringify k x) (x # xs)) @ newline m @ 93 # r = newline k @ stringify k x @ 44 # ?rest"
      using Cons by simp
    moreover have "parse_elements ?rest = Some (xs, r)" using Cons.IH Cons.prems Cons by simp
    ultimately show ?thesis using Cons.prems(2) [of x "44 # ?rest"] number_ends_sep
      by (subst parse_elements.simps) (simp add: parse_value_space expect_simps not_space)
  qed
qed simp

lemma member_back:
  assumes "parse_value (t @ r) = Some (v, r)" and "length r < length t + length r"
  shows "parse_members (newline k @ quote_json key @ [58, 32] @ t @ r)
    = (case expect 44 r of Some r1 \<Rightarrow> if length r1 < length (newline k @ quote_json key @ [58, 32] @ t @ r) then map_option (apfst ((#) (key, v))) (parse_members r1) else None
       | None \<Rightarrow> map_option (\<lambda>r1. ([(key, v)], r1)) (expect 125 r))"
proof -
  have "parse_value (32 # t @ r) = parse_value (t @ r)" by (simp add: parse_value.simps not_space)
  moreover have "expect 34 (newline k @ quote_json key @ [58, 32] @ t @ r) = Some (quote_body key @ 34 # 58 # 32 # t @ r)"
    by (simp add: expect_simps quote_json_def not_space)
  ultimately show ?thesis using assms(1)
    by (subst parse_members.simps) (simp add: quote_back expect_simps not_space quote_json_def)
qed

lemma members_back:
  assumes "kvs \<noteq> []" and "\<And>key v r. (key, v) \<in> set kvs \<Longrightarrow> number_ends r \<Longrightarrow> parse_value (stringify k v @ r) = Some (v, r)"
    and "\<And>key v. (key, v) \<in> set kvs \<Longrightarrow> stringify k v \<noteq> []"
  shows "parse_members (join_with [44] (map (\<lambda>(key, v). newline k @ quote_json key @ [58, 32] @ stringify k v) kvs) @ newline m @ 125 # r) = Some (kvs, r)"
  using assms
proof (induction kvs)
  case (Cons kv kvs)
  obtain key v where kv: "kv = (key, v)" by (cases kv)
  have v: "parse_value (stringify k v @ u) = Some (v, u)" if "number_ends u" for u using Cons.prems(2) that kv by auto
  have l: "length u < length (stringify k v) + length u" for u :: jstr using Cons.prems(3) [of key v] kv by simp
  show ?case
  proof (cases kvs)
    case Nil
    then show ?thesis using member_back [OF v l, of "newline m @ 125 # r" k key] number_ends_sep
      by (simp add: kv expect_simps not_space)
  next
    case (Cons y ys)
    have sub: "(key, v) \<in> set (kv # kvs)" if "(key, v) \<in> set kvs" for key v using that by simp
    let ?rest = "join_with [44] (map (\<lambda>(key, v). newline k @ quote_json key @ [58, 32] @ stringify k v) kvs) @ newline m @ 125 # r"
    have "join_with [44] (map (\<lambda>(key, v). newline k @ quote_json key @ [58, 32] @ stringify k v) (kv # kvs)) @ newline m @ 125 # r
        = newline k @ quote_json key @ [58, 32] @ stringify k v @ 44 # ?rest"
      using Cons kv by simp
    moreover have "parse_members ?rest = Some (kvs, r)"
      by (rule Cons.IH) (use Cons in simp, rule Cons.prems(2) [OF sub], assumption+, rule Cons.prems(3) [OF sub])
    ultimately show ?thesis using member_back [OF v l, of "44 # ?rest" k key] number_ends_sep
      by (simp add: kv expect_simps not_space)
  qed
qed simp

lemma value_back: "json_ok j \<Longrightarrow> number_ends r \<Longrightarrow> parse_value (stringify k j @ r) = Some (j, r)"
proof (induction j arbitrary: k r)
  case JNull
  then show ?case by (simp add: parse_value.simps lit_eval json_space_def)
next
  case (JBool b)
  then show ?case by (cases b) (simp_all add: parse_value.simps lit_eval json_space_def)
next
  case (JNum n)
  then obtain i where n: "n = int_num i" "\<bar>i\<bar> \<le> 2 ^ 53" by auto
  let ?t = "num_to_string (int_num i)"
  obtain c cs where d: "dec_digits \<bar>i\<bar> = c # cs" by (cases "dec_digits \<bar>i\<bar>") auto
  have c: "is_digit c" using dec_digits_head [of "\<bar>i\<bar>"] d by simp
  have "?t = (if i < 0 then [45] else []) @ c # cs" using num_to_string_int [OF n(2)] d by (simp add: lit_eval)
  then obtain h u where h: "?t = h # u" "h = 45 \<or> is_digit h" using c by (cases "i < 0") auto
  then have "\<not> json_space h" "h \<noteq> 34" "h \<noteq> 91" "h \<noteq> 123" "h \<noteq> 110" "h \<noteq> 116" "h \<noteq> 102"
    using digit_not_space [of h] by (auto simp: json_space_def is_digit_def)
  then have "parse_value (?t @ r) = parse_number (?t @ r)" using h(1) by (simp add: parse_value.simps lit_eval)
  then show ?case using number_back [OF n(2) JNum.prems(2)] by (simp add: n(1) finite_num_def)
next
  case (JStr s)
  then show ?case by (simp add: parse_value.simps quote_json_def not_space quote_back)
next
  case (JArr xs)
  show ?case
  proof (cases "xs = []")
    case True
    then show ?thesis by (simp add: parse_value.simps expect_simps not_space)
  next
    case False
    let ?body = "join_with [44] (map (\<lambda>x. newline (k + 2) @ stringify (k + 2) x) xs) @ newline k @ 93 # r"
    have "parse_elements ?body = Some (xs, r)" by (rule elements_back [OF False]) (use JArr in auto)
    moreover have "expect 93 ?body = None"
    proof -
      obtain x ys where xs: "xs = x # ys" using False by (cases xs) auto
      then obtain c s where "stringify (k + 2) x = c # s" "\<not> json_space c" "c \<noteq> 93" using stringify_head [of x "k + 2"] JArr.prems(1) by auto
      then show ?thesis using xs by (cases ys) (simp_all add: expect_simps)
    qed
    ultimately show ?thesis using False by (simp add: parse_value.simps not_space)
  qed
next
  case (JObj kvs)
  show ?case
  proof (cases "kvs = []")
    case True
    then show ?thesis by (simp add: parse_value.simps expect_simps not_space)
  next
    case False
    let ?body = "join_with [44] (map (\<lambda>(key, v). newline (k + 2) @ quote_json key @ [58, 32] @ stringify (k + 2) v) kvs) @ newline k @ 125 # r"
    have ok: "json_ok v" if "(key, v) \<in> set kvs" for key v using that JObj.prems(1) by auto
    have "parse_members ?body = Some (kvs, r)"
    proof (rule members_back [OF False])
      show "parse_value (stringify (k + 2) v @ r) = Some (v, r)" if "(key, v) \<in> set kvs" "number_ends r" for key v r
        by (rule JObj.IH [OF that(1) _ ok [OF that(1)] that(2)]) simp
      show "stringify (k + 2) v \<noteq> []" if "(key, v) \<in> set kvs" for key v using stringify_head [OF ok [OF that], of "k + 2"] by auto
    qed
    moreover have "expect 125 ?body = None"
    proof -
      obtain key v rest where kvs: "kvs = (key, v) # rest" using False by (cases kvs) auto
      show ?thesis using kvs by (cases rest) (simp_all add: expect_simps quote_json_def not_space)
    qed
    ultimately show ?thesis using False update_all [of kvs] JObj.prems(1) by (simp add: parse_value.simps not_space)
  qed
qed

lemma json_parse_stringify: "json_ok j \<Longrightarrow> json_parse (stringify k j) = Some j"
  using value_back [of j "[]" k] by (simp add: json_parse_def number_ends_def)

section \<open>Printed text is well-formed\<close>

lemma well_formed_plain_app: "list_all plain_unit p \<Longrightarrow> well_formed (p @ t) = well_formed t"
proof (induction p)
  case (Cons c p)
  then show ?case using well_formed_append_plain [of c "[]" "p @ t"] by simp
qed simp

lemma plain_text: "list_all plain_unit (lit s)" "list_all is_digit d \<Longrightarrow> list_all plain_unit d" "list_all plain_unit (newline k)"
proof -
  have "plain_unit (cu c)" for c
  proof -
    have "unat (cu c) = (of_char c :: nat) mod 65536" by (simp add: cu_def unat_of_nat take_bit_eq_mod)
    also have "\<dots> < 256" using of_char_bound [of c] mod_less_eq_dividend [of "of_char c :: nat" 65536] by linarith
    finally have "uint (cu c) < 256" unfolding uint_nat by linarith
    then show ?thesis by (simp add: plain_unit_def is_high_def is_low_def)
  qed
  then show "list_all plain_unit (lit s)" by (simp add: lit_def list_all_iff)
  show "list_all is_digit d \<Longrightarrow> list_all plain_unit d"
    by (auto simp: list_all_iff plain_unit_def is_digit_def is_high_def is_low_def word_le_def)
  show "list_all plain_unit (newline k)" by (simp add: newline_def list_all_iff plain_unit_def is_high_def is_low_def)
qed

lemma hex4_plain: "list_all plain_unit (hex4 c)"
proof -
  have "plain_unit (hex_digit n)" if "0 \<le> n" "n < 16" for n
    using uint_hex_digit [OF that] that by (simp add: plain_unit_def is_high_def is_low_def)
  then show ?thesis by (simp add: hex4_def)
qed

lemma plain_numerals: "plain_unit 34" "plain_unit 92" "plain_unit 98" "plain_unit 116" "plain_unit 110" "plain_unit 102" "plain_unit 114"
  "plain_unit 117" "plain_unit 91" "plain_unit 93" "plain_unit 123" "plain_unit 125" "plain_unit 44" "plain_unit 58" "plain_unit 32" "plain_unit 45"
  by (simp_all add: plain_unit_def is_high_def is_low_def)

lemma quote_unit_plain: "list_all plain_unit (quote_unit c)"
proof -
  have "plain_unit c" if "c = 34 \<or> c = 92" using that plain_numerals by auto
  then show ?thesis using hex4_plain [of c] plain_numerals by (auto simp: quote_unit_def plain_unit_def [of c] plain_unit_def [of 8])
qed

lemma well_formed_quote: "well_formed (quote_json s @ t) = well_formed t"
proof -
  have "well_formed (quote_body s @ t) = well_formed t" for t
  proof (induction s rule: quote_body.induct)
    case (3 c d s)
    show ?case
    proof (cases "is_high c \<and> is_low d")
      case False
      then have "quote_body (c # d # s) @ t = quote_unit c @ (quote_body (d # s) @ t)" by auto
      then show ?thesis using 3(2) [OF False] by (simp only: well_formed_plain_app [OF quote_unit_plain])
    qed (use 3 in simp)
  qed (simp_all add: well_formed_plain_app quote_unit_plain)
  then show ?thesis using well_formed_plain_app [of "[34]"] by (simp add: quote_json_def plain_numerals)
qed

lemma well_formed_joined:
  assumes "\<And>x t. x \<in> set xs \<Longrightarrow> well_formed (f x @ t) = well_formed t"
  shows "well_formed (join_with [44] (map f xs) @ t) = well_formed t"
  using assms
proof (induction xs)
  case (Cons x xs)
  show ?case
  proof (cases xs)
    case (Cons y ys)
    have "well_formed (join_with [44] (map f (x # xs)) @ t) = well_formed (f x @ 44 # (join_with [44] (map f xs) @ t))" using Cons by simp
    also have "\<dots> = well_formed ([44] @ (join_with [44] (map f xs) @ t))" using Cons.prems [of x] by simp
    also have "\<dots> = well_formed t" using Cons.IH Cons.prems well_formed_plain_app [of "[44]"] by (simp add: plain_numerals)
    finally show ?thesis .
  qed (use Cons in simp)
qed simp

lemma well_formed_stringify: "json_ok j \<Longrightarrow> well_formed (stringify k j @ t) = well_formed t"
proof (induction j arbitrary: k t)
  case (JBool b)
  then show ?case by (simp add: well_formed_plain_app plain_text)
next
  case (JNum n)
  then obtain i where n: "n = int_num i" "\<bar>i\<bar> \<le> 2 ^ 53" by auto
  have "list_all plain_unit (dec_digits \<bar>i\<bar>)" by (rule plain_text(2)) (rule dec_digits_all, simp)
  then have "list_all plain_unit (num_to_string n)"
    unfolding n(1) num_to_string_int [OF n(2)] using plain_text(1) [of "''-''"] by simp
  then show ?case by (simp add: n(1) finite_num_def well_formed_plain_app del: num_to_string.simps)
next
  case (JArr xs)
  have e: "well_formed ((newline (k + 2) @ stringify (k + 2) x) @ t) = well_formed t" if "x \<in> set xs" for x t
    using JArr that by (simp add: well_formed_plain_app plain_text)
  have l: "well_formed ([91] @ u) = well_formed u" "well_formed ([93] @ u) = well_formed u" "well_formed ([91, 93] @ u) = well_formed u" for u
    by (rule well_formed_plain_app; simp add: plain_numerals)+
  show ?case
  proof (cases "xs = []")
    case False
    then have "stringify k (JArr xs) @ t = [91] @ join_with [44] (map (\<lambda>x. newline (k + 2) @ stringify (k + 2) x) xs) @ newline k @ [93] @ t"
      by simp
    also have "well_formed \<dots> = well_formed t"
      by (simp only: l well_formed_joined [of xs "\<lambda>x. newline (k + 2) @ stringify (k + 2) x", OF e] well_formed_plain_app [OF plain_text(3)])
    finally show ?thesis .
  qed (use l in simp)
next
  case (JObj kvs)
  have e: "well_formed ((case kv of (key, v) \<Rightarrow> newline (k + 2) @ quote_json key @ [58, 32] @ stringify (k + 2) v) @ t) = well_formed t"
    if "kv \<in> set kvs" for kv t
  proof -
    obtain key v where kv: "kv = (key, v)" by (cases kv)
    have "well_formed ([58, 32] @ u) = well_formed u" for u by (rule well_formed_plain_app) (simp add: plain_numerals)
    moreover have "well_formed (stringify (k + 2) v @ t) = well_formed t"
      by (rule JObj.IH [OF that]) (use kv JObj.prems that in auto)
    ultimately show ?thesis by (simp add: kv well_formed_plain_app plain_text well_formed_quote)
  qed
  have l: "well_formed ([123] @ u) = well_formed u" "well_formed ([125] @ u) = well_formed u" "well_formed ([123, 125] @ u) = well_formed u" for u
    by (rule well_formed_plain_app; simp add: plain_numerals)+
  show ?case
  proof (cases "kvs = []")
    case False
    then have "stringify k (JObj kvs) @ t
        = [123] @ join_with [44] (map (\<lambda>(key, v). newline (k + 2) @ quote_json key @ [58, 32] @ stringify (k + 2) v) kvs) @ newline k @ [125] @ t"
      by simp
    also have "well_formed \<dots> = well_formed t"
      by (simp only: l well_formed_joined [of kvs "\<lambda>(key, v). newline (k + 2) @ quote_json key @ [58, 32] @ stringify (k + 2) v", OF e]
          well_formed_plain_app [OF plain_text(3)])
    finally show ?thesis .
  qed (use l in simp)
qed (simp_all add: well_formed_plain_app plain_text well_formed_quote)

end
