(* ===== verification/Addon.thy ===== *)
theory Addon
  imports Paths Json
begin

text \<open>
  \<open>client/addon.ts\<close>: the search for the compiled addon and the check of what it exports. The process
  and the file system it asks are a record of their answers; \<open>existsSync\<close> may also throw. Requiring a
  file is a parameter too: the module, or the reason it could not be loaded.
\<close>

section \<open>Surroundings\<close>

datatype 'm module_value =
    NullModule
  | ObjectModule "jstr \<Rightarrow> jstr" 'm   \<comment> \<open>the \<open>typeof\<close> of each property, and the value itself\<close>
  | OtherModule jstr   \<comment> \<open>its \<open>typeof\<close>\<close>

record 'm host =
  existsSync :: "jstr \<Rightarrow> bool res"
  readFileSync :: "jstr \<Rightarrow> jstr option"
  process_env :: "jstr \<rightharpoonup> jstr"
  process_platform :: jstr
  process_arch :: jstr
  module_dir :: jstr   \<comment> \<open>\<open>__dirname\<close>\<close>
  cwd :: jstr
  require_module :: "jstr \<Rightarrow> jstr + 'm module_value"

record load_options =
  addonPath :: "jstr option"
  env_option :: "(jstr \<rightharpoonup> jstr) option"
  packageRoot :: "jstr option"
  platform_option :: "jstr option"

datatype addon_source = Explicit | FromEnv | Prebuilds | NodeGyp | FlatCopy | DevZigOut

record resolution =
  addon_path :: jstr
  source :: addon_source
  probed :: "jstr list"

definition given :: "jstr option \<Rightarrow> jstr list" where
  \<comment> \<open>the value, if it is truthy\<close>
  "given v = (case v of None \<Rightarrow> [] | Some s \<Rightarrow> if s = [] then [] else [s])"

definition SUPPORTED_PLATFORMS :: "jstr list" where
  "SUPPORTED_PLATFORMS = [lit ''linux-x64'', lit ''linux-arm64'', lit ''darwin-x64'', lit ''darwin-arm64'', lit ''win32-x64'']"

definition ADDON_BASENAME :: jstr where
  "ADDON_BASENAME = lit ''takyondb_bridge.node''"

definition currentPlatform :: "'m host \<Rightarrow> jstr" where
  "currentPlatform h = process_platform h @ lit ''-'' @ process_arch h"

section \<open>The package root\<close>

definition is_package_dir :: "'m host \<Rightarrow> jstr \<Rightarrow> bool" where
  \<comment> \<open>the body of the \<open>try\<close>; anything thrown in it is caught\<close>
  "is_package_dir h dir =
     (let pkgPath = path_join [dir, lit ''package.json''] in
      existsSync h pkgPath = Inr True \<and>
      (case readFileSync h pkgPath of None \<Rightarrow> False
       | Some raw \<Rightarrow> (case json_parse raw of None \<Rightarrow> False
         | Some pkg \<Rightarrow> get_prop pkg (lit ''name'') = Some (JStr (lit ''takyondb'')))))"

fun walk_up :: "'m host \<Rightarrow> nat \<Rightarrow> jstr \<Rightarrow> jstr option" where
  "walk_up h 0 dir = None"
| "walk_up h (Suc n) dir =
     (if is_package_dir h dir then Some dir
      else if dirname dir = dir then None else walk_up h n (dirname dir))"

definition findPackageRoot :: "'m host \<Rightarrow> jstr \<Rightarrow> jstr" where
  "findPackageRoot h start = (case walk_up h 10 start of Some dir \<Rightarrow> dir | None \<Rightarrow> start)"

section \<open>The search\<close>

definition option_env :: "'m host \<Rightarrow> load_options \<Rightarrow> jstr list" where
  \<comment> \<open>\<open>TAKYON_ADDON_PATH\<close>, if set and not empty\<close>
  "option_env h opts = given ((case env_option opts of Some e \<Rightarrow> e | None \<Rightarrow> process_env h) (lit ''TAKYON_ADDON_PATH''))"

definition option_root :: "'m host \<Rightarrow> load_options \<Rightarrow> jstr" where
  "option_root h opts = (case packageRoot opts of Some r \<Rightarrow> r | None \<Rightarrow> findPackageRoot h (module_dir h))"

definition option_platform :: "'m host \<Rightarrow> load_options \<Rightarrow> jstr" where
  "option_platform h opts = (case platform_option opts of Some p \<Rightarrow> p | None \<Rightarrow> currentPlatform h)"

definition addonCandidates :: "'m host \<Rightarrow> load_options \<Rightarrow> jstr list" where
  "addonCandidates h opts =
     (let root = option_root h opts in
      given (addonPath opts) @ option_env h opts
      @ [path_join [root, lit ''prebuilds'', option_platform h opts, ADDON_BASENAME],
         path_join [root, lit ''build'', lit ''Release'', ADDON_BASENAME],
         path_join [root, ADDON_BASENAME]]
      @ map (\<lambda>up. path_join [up, lit ''zig-out'', lit ''bin'', ADDON_BASENAME])
          [path_join [root, lit ''..'', lit ''..'', lit ''..''], path_join [root, lit ''..'', lit ''..'']])"

definition names_same :: "'m host \<Rightarrow> jstr \<Rightarrow> jstr list \<Rightarrow> bool" where
  \<comment> \<open>\<open>p && path.resolve(candidate) === path.resolve(p)\<close>\<close>
  "names_same h candidate ps \<longleftrightarrow> (\<exists>p\<in>set ps. path_resolve (cwd h) candidate = path_resolve (cwd h) p)"

definition in_dir :: "string list \<Rightarrow> jstr \<Rightarrow> bool" where
  \<comment> \<open>the path holds these directory names, between separators\<close>
  "in_dir ds candidate \<longleftrightarrow> js_includes_part (path_sep # join_with [path_sep] (map lit ds) @ [path_sep]) candidate"

definition classifyAddonSource :: "'m host \<Rightarrow> jstr \<Rightarrow> load_options \<Rightarrow> addon_source" where
  "classifyAddonSource h candidate opts =
     (if names_same h candidate (given (addonPath opts)) then Explicit
      else if names_same h candidate (option_env h opts) then FromEnv
      else if in_dir [''prebuilds''] candidate then Prebuilds
      else if in_dir [''build'', ''Release''] candidate then NodeGyp
      else if in_dir [''zig-out''] candidate then DevZigOut
      else FlatCopy)"

definition requested :: "'m host \<Rightarrow> load_options \<Rightarrow> (jstr \<times> addon_source) list" where
  "requested h opts = map (\<lambda>p. (p, Explicit)) (given (addonPath opts)) @ map (\<lambda>p. (p, FromEnv)) (option_env h opts)"

definition check_requested :: "'m host \<Rightarrow> jstr \<times> addon_source \<Rightarrow> unit res" where
  "check_requested h = (\<lambda>(p, s).
     res_bind (existsSync h p) (\<lambda>found.
       throw_if (\<not> found) (Error (lit ''TakyonDB addon '' @ (if s = Explicit then lit ''addonPath'' else lit ''TAKYON_ADDON_PATH'')
         @ lit '' points at a path that does not exist: '' @ p @ [10]
         @ lit ''Build it with: zig build -Doptimize=ReleaseSafe''))))"

fun probe :: "'m host \<Rightarrow> load_options \<Rightarrow> jstr list \<Rightarrow> jstr list \<Rightarrow> jstr list + resolution" where
  \<comment> \<open>the loop over the candidates, with the paths probed so far; \<open>Inl\<close> when none exists\<close>
  "probe h opts seen [] = Inl seen"
| "probe h opts seen (c # cs) =
     (if existsSync h c = Inr True
      then Inr \<lparr>addon_path = c, source = classifyAddonSource h c opts, probed = seen @ [c]\<rparr>
      else probe h opts (seen @ [c]) cs)"

definition not_found_message :: "jstr \<Rightarrow> jstr list \<Rightarrow> jstr" where
  "not_found_message platform paths =
     join_with [10]
      ([lit ''TakyonDB native addon not found for '' @ platform @ lit ''.'',
        if platform \<in> set SUPPORTED_PLATFORMS
        then lit ''The addon is built and bundled per platform; none of these paths exist:''
        else lit ''Platform '' @ platform @ lit '' has no bundled prebuild. Supported platforms: ''
          @ join_with (lit '', '') SUPPORTED_PLATFORMS @ lit ''.'',
        [], lit ''Probed:'']
       @ map (\<lambda>p. lit ''  - '' @ p) paths
       @ [[], lit ''Fixes:'',
          lit ''  - Build it from source:  zig build -Doptimize=ReleaseSafe   (then run from the repo)'',
          lit ''  - Point at an existing build:  TAKYON_ADDON_PATH=/path/to/takyondb_bridge.node'',
          lit ''  - Reinstall the package so its prebuild is present.''])"

definition resolveAddon :: "'m host \<Rightarrow> load_options \<Rightarrow> resolution res" where
  "resolveAddon h opts =
     res_bind (res_each (check_requested h) (requested h opts)) (\<lambda>_.
       case probe h opts [] (addonCandidates h opts) of
         Inl seen \<Rightarrow> Inl (Error (not_found_message (option_platform h opts) seen))
       | Inr r \<Rightarrow> Inr r)"

section \<open>Loading\<close>

definition required_methods :: "jstr list" where
  "required_methods = [lit ''initSharedMemory'', lit ''insert_index'', lit ''search_index'', lit ''pushDelta'']"

definition assertLooksLikeBindings :: "'m module_value \<Rightarrow> jstr \<Rightarrow> 'm res" where
  "assertLooksLikeBindings m path =
     (let not_object = (\<lambda>t. Inl (Error (path @ lit '' loaded but did not export an object (got '' @ t @ lit '').''))) in
      case m of
        NullModule \<Rightarrow> not_object (lit ''object'')
      | OtherModule t \<Rightarrow> not_object t
      | ObjectModule props v \<Rightarrow>
          let missing = filter (\<lambda>k. props k \<noteq> lit ''function'') required_methods in
          if missing \<noteq> [] then
            Inl (Error (path @ lit '' loaded but is not a TakyonDB addon: missing '' @ join_with (lit '', '') missing
              @ lit ''. This usually means a stale or foreign binary is on the path.''))
          else Inr v)"

fun source_name :: "addon_source \<Rightarrow> jstr" where
  "source_name Explicit = lit ''explicit''"
| "source_name FromEnv = lit ''env''"
| "source_name Prebuilds = lit ''prebuilds''"
| "source_name NodeGyp = lit ''node-gyp''"
| "source_name FlatCopy = lit ''flat''"
| "source_name DevZigOut = lit ''dev-zig-out''"

definition loadBindings :: "'m host \<Rightarrow> load_options \<Rightarrow> 'm res" where
  "loadBindings h opts =
     res_bind (resolveAddon h opts) (\<lambda>r.
       case require_module h (addon_path r) of
         Inl reason \<Rightarrow>
           Inl (Error (lit ''Failed to load the TakyonDB addon from '' @ addon_path r @ lit '' (source: '' @ source_name (source r)
             @ lit '').'' @ [10] @ reason @ [10]
             @ lit ''A prebuild that does not match this platform or Node ABI will fail here; rebuild it with: ''
             @ lit ''zig build -Doptimize=ReleaseSafe''))
       | Inr m \<Rightarrow> assertLooksLikeBindings m (addon_path r))"

section \<open>Facts\<close>

lemma probe_first:
  "probe h opts seen cs = Inr r \<Longrightarrow>
     \<exists>pre post. cs = pre @ addon_path r # post \<and> probed r = seen @ pre @ [addon_path r] \<and> existsSync h (addon_path r) = Inr True
       \<and> (\<forall>c\<in>set pre. existsSync h c \<noteq> Inr True) \<and> source r = classifyAddonSource h (addon_path r) opts"
proof (induction cs arbitrary: seen)
  case (Cons c cs)
  show ?case
  proof (cases "existsSync h c = Inr True")
    case True
    then show ?thesis using Cons.prems by (intro exI [of _ "[]"] exI [of _ cs]) auto
  next
    case False
    then obtain pre post where "cs = pre @ addon_path r # post" "probed r = (seen @ [c]) @ pre @ [addon_path r]"
        "existsSync h (addon_path r) = Inr True" "\<forall>c\<in>set pre. existsSync h c \<noteq> Inr True" "source r = classifyAddonSource h (addon_path r) opts"
      using Cons.IH [of "seen @ [c]"] Cons.prems by auto
    then show ?thesis using False by (intro exI [of _ "c # pre"] exI [of _ post]) auto
  qed
qed simp

lemma probe_none: "probe h opts seen cs = Inl seen' \<Longrightarrow> seen' = seen @ cs \<and> (\<forall>c\<in>set cs. existsSync h c \<noteq> Inr True)"
proof (induction cs arbitrary: seen)
  case (Cons c cs)
  have c: "existsSync h c \<noteq> Inr True" using Cons.prems by auto
  then have "probe h opts (seen @ [c]) cs = Inl seen'" using Cons.prems by simp
  from Cons.IH [OF this] c show ?case by simp
qed simp

lemma requested_exist:
  assumes "resolveAddon h opts = Inr r"
  shows "\<forall>p\<in>set (given (addonPath opts) @ option_env h opts). existsSync h p = Inr True" "probe h opts [] (addonCandidates h opts) = Inr r"
proof -
  have c: "res_each (check_requested h) (requested h opts) = Inr ()" and p: "probe h opts [] (addonCandidates h opts) = Inr r"
    using assms by (auto simp: resolveAddon_def res_bind_eqs split: sum.splits)
  then show "probe h opts [] (addonCandidates h opts) = Inr r" by simp
  have ok: "is_ok (check_requested h x)" if "x \<in> set (requested h opts)" for x using c that by (simp add: res_each_ok)
  have found: "existsSync h p = Inr True" if "(p, s) \<in> set (requested h opts)" for p s
    using ok [OF that] by (cases "existsSync h p") (simp_all add: check_requested_def throw_if_def split: if_splits)
  show "\<forall>p\<in>set (given (addonPath opts) @ option_env h opts). existsSync h p = Inr True"
  proof
    fix p
    assume "p \<in> set (given (addonPath opts) @ option_env h opts)"
    then have "(p, Explicit) \<in> set (requested h opts) \<or> (p, FromEnv) \<in> set (requested h opts)" by (simp add: requested_def image_iff)
    then show "existsSync h p = Inr True" using found by blast
  qed
qed

lemma walk_up_package: "walk_up h n dir = Some d \<Longrightarrow> is_package_dir h d \<and> (\<exists>i<n. d = (dirname ^^ i) dir)"
proof (induction n arbitrary: dir)
  case (Suc n)
  show ?case
  proof (cases "is_package_dir h dir")
    case True
    then show ?thesis using Suc.prems by (intro conjI exI [of _ 0]) auto
  next
    case False
    then obtain i where "is_package_dir h d" "i < n" "d = (dirname ^^ i) (dirname dir)"
      using Suc by (auto split: if_splits)
    then show ?thesis by (intro conjI exI [of _ "Suc i"]) (auto simp: funpow_swap1)
  qed
qed simp

section \<open>A concrete installation\<close>

definition ex_files :: "jstr list" where
  "ex_files = [lit ''/opt/addon.node'', lit ''/app/node_modules/takyondb/package.json'',
     lit ''/app/node_modules/takyondb/prebuilds/linux-x64/takyondb_bridge.node'']"

definition ex_host :: "nat host" where
  \<comment> \<open>an installed package with a prebuild, and another addon outside it\<close>
  "ex_host = \<lparr>existsSync = (\<lambda>p. Inr (p \<in> set ex_files)),
     readFileSync = (\<lambda>p. if p = ex_files ! 1 then Some ([123, 34] @ lit ''name'' @ [34, 58, 34] @ lit ''takyondb'' @ [34, 125]) else None),
     process_env = Map.empty, process_platform = lit ''linux'', process_arch = lit ''x64'',
     module_dir = lit ''/app/node_modules/takyondb/dist/client'', cwd = lit ''/app'',
     require_module = (\<lambda>_. Inr (ObjectModule (\<lambda>_. lit ''function'') 7))\<rparr>"

definition no_options :: load_options where
  "no_options = \<lparr>addonPath = None, env_option = None, packageRoot = None, platform_option = None\<rparr>"

lemma ex_bundled: "resolveAddon ex_host no_options
  = Inr \<lparr>addon_path = ex_files ! 2, source = Prebuilds, probed = [ex_files ! 2]\<rparr>"
  by code_simp

section \<open>Properties\<close>

text \<open>C38. A path that was asked for is never replaced by another binary: when the search succeeds, an
  \<open>addonPath\<close> is the path taken, and without one \<open>TAKYON_ADDON_PATH\<close> is; when either does not exist the
  search throws, whatever else is installed.\<close>

theorem requested_addon_honoured:
  assumes "given (addonPath opts) @ option_env h opts = p # ps"
  shows "(resolveAddon h opts = Inr r \<longrightarrow> addon_path r = p \<and> probed r = [p]
      \<and> source r = (if given (addonPath opts) = [] then FromEnv else Explicit))
    \<and> (\<forall>q\<in>set (p # ps). existsSync h q \<noteq> Inr True \<longrightarrow> (\<exists>e. resolveAddon h opts = Inl e))"
proof (intro conjI impI ballI)
  assume r: "resolveAddon h opts = Inr r"
  have "existsSync h p = Inr True" using requested_exist(1) [OF r] assms by auto
  moreover have "\<exists>cs. addonCandidates h opts = p # cs" using assms by (simp add: addonCandidates_def Let_def flip: append_assoc)
  ultimately have "r = \<lparr>addon_path = p, source = classifyAddonSource h p opts, probed = [p]\<rparr>" using requested_exist(2) [OF r] by auto
  moreover have "classifyAddonSource h p opts = (if given (addonPath opts) = [] then FromEnv else Explicit)"
    using assms by (cases "given (addonPath opts)") (auto simp: classifyAddonSource_def names_same_def)
  ultimately show "addon_path r = p" "probed r = [p]" "source r = (if given (addonPath opts) = [] then FromEnv else Explicit)"
    by simp_all
next
  fix q
  assume "q \<in> set (p # ps)" "existsSync h q \<noteq> Inr True"
  then show "\<exists>e. resolveAddon h opts = Inl e"
    using requested_exist(1) [of h opts] assms by (cases "resolveAddon h opts") auto
qed

theorem requested_addon_honoured_witness:
  "\<exists>e. resolveAddon ex_host (no_options\<lparr>addonPath := Some (lit ''/nowhere'')\<rparr>) = Inl e"
proof -
  let ?o = "no_options\<lparr>addonPath := Some (lit ''/nowhere'')\<rparr>"
  have g: "given (addonPath ?o) @ option_env ex_host ?o = [lit ''/nowhere'']"
    by (simp add: given_def option_env_def no_options_def ex_host_def)
  have "existsSync ex_host (lit ''/nowhere'') \<noteq> Inr True" by (simp add: ex_host_def ex_files_def)
  then show ?thesis using requested_addon_honoured [OF g] by simp
qed

text \<open>The search returns the first candidate that exists, reports every path it probed up to it and
  the strategy that claims it; it throws only if a requested path is missing, or no candidate exists, and then the message
  lists every candidate.\<close>

theorem addon_search:
  "(\<forall>r. resolveAddon h opts = Inr r \<longrightarrow>
      (\<exists>pre post. addonCandidates h opts = pre @ addon_path r # post \<and> probed r = pre @ [addon_path r]
        \<and> existsSync h (addon_path r) = Inr True \<and> (\<forall>c\<in>set pre. existsSync h c \<noteq> Inr True)
        \<and> source r = classifyAddonSource h (addon_path r) opts))
   \<and> (\<forall>e. resolveAddon h opts = Inl e \<longrightarrow>
      (\<exists>p\<in>set (given (addonPath opts) @ option_env h opts). existsSync h p \<noteq> Inr True)
      \<or> (\<forall>c\<in>set (addonCandidates h opts). existsSync h c \<noteq> Inr True)
        \<and> e = Error (not_found_message (option_platform h opts) (addonCandidates h opts)))"
proof (intro conjI allI impI)
  fix r
  assume r: "resolveAddon h opts = Inr r"
  show "\<exists>pre post. addonCandidates h opts = pre @ addon_path r # post \<and> probed r = pre @ [addon_path r]
        \<and> existsSync h (addon_path r) = Inr True \<and> (\<forall>c\<in>set pre. existsSync h c \<noteq> Inr True)
        \<and> source r = classifyAddonSource h (addon_path r) opts"
    using probe_first [OF requested_exist(2) [OF r]] by simp
next
  fix e
  assume e: "resolveAddon h opts = Inl e"
  show "(\<exists>p\<in>set (given (addonPath opts) @ option_env h opts). existsSync h p \<noteq> Inr True)
      \<or> (\<forall>c\<in>set (addonCandidates h opts). existsSync h c \<noteq> Inr True)
        \<and> e = Error (not_found_message (option_platform h opts) (addonCandidates h opts))"
  proof (cases "res_each (check_requested h) (requested h opts)")
    case (Inl e')
    then have "\<not> (\<forall>x\<in>set (requested h opts). is_ok (check_requested h x))"
      using res_each_ok [of "check_requested h" "requested h opts" "()"] by auto
    then show ?thesis by (auto simp: requested_def check_requested_def res_bind_def is_ok_def throw_if_def split: sum.splits if_splits)
  next
    case (Inr u)
    then obtain seen where "probe h opts [] (addonCandidates h opts) = Inl seen" "e = Error (not_found_message (option_platform h opts) seen)"
      using e by (auto simp: resolveAddon_def split: sum.splits)
    then show ?thesis using probe_none [of h opts "[]"] by auto
  qed
qed

text \<open>An explicit path is not enough: with \<open>TAKYON_ADDON_PATH\<close> set to a path that does not exist the search throws
  even though the explicit addon exists.\<close>

theorem stale_env_blocks_explicit:
  assumes "given (addonPath opts) = [p]" and "existsSync h p = Inr True"
    and "option_env h opts = [q]" and "existsSync h q = Inr False"
  shows "\<exists>msg. resolveAddon h opts = Inl (Error msg)"
  using assms by (simp add: resolveAddon_def requested_def check_requested_def throw_if_def)

theorem stale_env_blocks_explicit_witness:
  "\<exists>msg. resolveAddon ex_host (no_options\<lparr>addonPath := Some (lit ''/opt/addon.node''),
     env_option := Some [lit ''TAKYON_ADDON_PATH'' \<mapsto> lit ''/old/addon.node'']\<rparr>) = Inl (Error msg)"
  by (rule stale_env_blocks_explicit [of _ "lit ''/opt/addon.node''" _ "lit ''/old/addon.node''"])
    (simp_all add: given_def option_env_def no_options_def ex_host_def ex_files_def)

text \<open>What \<open>loadBindings\<close> returns is the export of the file the search found, an object with the four
  methods every engine surface must have.\<close>

theorem loaded_bindings_checked:
  assumes "loadBindings h opts = Inr v"
  shows "\<exists>r props. resolveAddon h opts = Inr r \<and> require_module h (addon_path r) = Inr (ObjectModule props v)
    \<and> (\<forall>k\<in>set required_methods. props k = lit ''function'')"
proof -
  obtain r where r: "resolveAddon h opts = Inr r" using assms by (auto simp: loadBindings_def res_bind_eqs)
  obtain m where m: "require_module h (addon_path r) = Inr m" using assms r by (cases "require_module h (addon_path r)") (simp_all add: loadBindings_def)
  have a: "assertLooksLikeBindings m (addon_path r) = Inr v" using assms r m by (simp add: loadBindings_def)
  then obtain props where p: "m = ObjectModule props v" "filter (\<lambda>k. props k \<noteq> lit ''function'') required_methods = []"
    by (cases m) (auto simp: assertLooksLikeBindings_def Let_def split: if_splits)
  then show ?thesis using r m by (auto simp: filter_empty_conv)
qed

theorem loaded_bindings_checked_witness:
  "\<exists>r. resolveAddon ex_host no_options = Inr r \<and> require_module ex_host (addon_path r) = Inr (ObjectModule (\<lambda>_. lit ''function'') 7)"
proof -
  have "loadBindings ex_host no_options = Inr 7"
    by (simp add: loadBindings_def ex_bundled) (simp add: ex_host_def assertLooksLikeBindings_def)
  from loaded_bindings_checked [OF this] show ?thesis by (auto simp: ex_host_def)
qed


end
