(* ===== verification/CatalogStore.thy ===== *)
theory CatalogStore
  imports Json Paths DbProps
begin

text \<open>
  \<open>client/relational/catalog_store.ts\<close>: table definitions as a versioned JSON file. The file system maps
  paths to bytes; a call to it may throw, and a write that throws leaves what the host left of it. What
  \<open>Buffer.from\<close> makes of a value that is not a string is the host's too.
\<close>

section \<open>Surroundings\<close>

datatype fs_call = Mkdir jstr | WriteFile jstr | Rename jstr jstr | ReadFile jstr

record io_host =
  refuses_call :: "fs_call \<Rightarrow> js_error option"
  torn_write :: "buffer option \<Rightarrow> buffer \<Rightarrow> buffer option"   \<comment> \<open>what a write that threw leaves of the file\<close>
  buffer_from :: "json \<Rightarrow> buffer res"   \<comment> \<open>\<open>Buffer.from(v, 'hex')\<close> on a value that is not a string\<close>

type_synonym files = "jstr \<rightharpoonup> buffer"

definition file_text :: "buffer \<Rightarrow> jstr" where
  \<comment> \<open>\<open>readFileSync(path, 'utf-8')\<close> on the bytes: a byte order mark stays\<close>
  "file_text b = concat (map utf16_scalar (utf8_scalars b))"

fun hex_bytes :: "jstr \<Rightarrow> buffer" where
  \<comment> \<open>\<open>Buffer.from(s, 'hex')\<close>: up to the first pair that is not hexadecimal\<close>
  "hex_bytes (a # b # s) =
     (case (hex_digit_value a, hex_digit_value b) of
        (Some x, Some y) \<Rightarrow> word_of_int (16 * x + y) # hex_bytes s
      | _ \<Rightarrow> [])"
| "hex_bytes _ = []"

section \<open>Writing\<close>

definition CATALOG_MAGIC :: jstr where
  "CATALOG_MAGIC = lit ''takyon-catalog''"

definition CATALOG_VERSION :: jsnum where
  "CATALOG_VERSION = Fin 1"

definition bytes_key :: jstr where
  "bytes_key = lit ''__bytes_hex''"

fun encodeDefault :: "jsval \<Rightarrow> json" where
  \<comment> \<open>a default as the JSON value it is written as\<close>
  "encodeDefault (Bytes i bs) = JObj [(bytes_key, JStr (bytes_to_hex bs))]"
| "encodeDefault (Bool b) = JBool b"
| "encodeDefault (Num n) = JNum n"
| "encodeDefault (Str s) = JStr s"
| "encodeDefault Null = JNull"
| "encodeDefault v = JObj []"

definition true_flag :: "string \<Rightarrow> bool option \<Rightarrow> (jstr \<times> json) list" where
  \<comment> \<open>\<open>...(f === true ? { name: true } : {})\<close>\<close>
  "true_flag name f = (if f = Some True then [(lit name, JBool True)] else [])"

definition stored_column :: "'a column_def_scheme \<Rightarrow> json" where
  "stored_column c = JObj
     ([(lit ''name'', JStr (col_name c)), (lit ''type'', JStr (type_name (col_type c)))]
      @ true_flag ''nullable'' (nullable c) @ true_flag ''primaryKey'' (primaryKey c) @ true_flag ''unique'' (unique c)
      @ (if defaultValue c = Undefined then [] else [(lit ''defaultValue'', encodeDefault (defaultValue c))]))"

definition snapshotCatalog :: "database \<Rightarrow> json list" where
  "snapshotCatalog db = map (\<lambda>(_, t). JObj [(lit ''name'', JStr (tableName (schema_of t))),
     (lit ''columns'', JArr (map stored_column (columns (schema_of t))))]) (tables db)"

definition catalog_document :: "database \<Rightarrow> json" where
  "catalog_document db = JObj [(lit ''magic'', JStr CATALOG_MAGIC), (lit ''version'', JNum CATALOG_VERSION),
     (lit ''tables'', JArr (snapshotCatalog db))]"

definition catalog_content :: "database \<Rightarrow> buffer" where
  "catalog_content db = utf8_encode (stringify 0 (catalog_document db))"

definition saveCatalog :: "io_host \<Rightarrow> database \<Rightarrow> jstr \<Rightarrow> (files, unit) action" where
  "saveCatalog h db filePath fs =
     (case refuses_call h (Mkdir (dirname filePath)) of
        Some e \<Rightarrow> (Inl e, fs)
      | None \<Rightarrow>
          let tmp = filePath @ lit ''.tmp''; content = catalog_content db in
          (case refuses_call h (WriteFile tmp) of
             Some e \<Rightarrow> (Inl e, fs(tmp := torn_write h (fs tmp) content))
           | None \<Rightarrow>
               (case refuses_call h (Rename tmp filePath) of
                  Some e \<Rightarrow> (Inl e, fs(tmp \<mapsto> content))
                | None \<Rightarrow> (Inr (), fs(tmp := None, filePath \<mapsto> content)))))"

section \<open>Reading\<close>

datatype loaded_default = NoDefault | JsonDefault json | BytesDefault buffer

record loaded_column =
  \<comment> \<open>the fields as they were read; the loader does not look at their types\<close>
  lc_name :: "json option"
  lc_type :: "json option"
  lc_nullable :: "json option"
  lc_primaryKey :: "json option"
  lc_unique :: "json option"
  lc_default :: loaded_default

definition decodeDefault :: "io_host \<Rightarrow> json \<Rightarrow> loaded_default res" where
  "decodeDefault h v =
     (case v of JObj kvs \<Rightarrow>
        (case map_of kvs bytes_key of
           None \<Rightarrow> Inr (JsonDefault v)
         | Some (JStr s) \<Rightarrow> Inr (BytesDefault (hex_bytes s))
         | Some j \<Rightarrow> res_bind (buffer_from h j) (\<lambda>b. Inr (BytesDefault b)))
      | _ \<Rightarrow> Inr (JsonDefault v))"

definition null_property :: "'a res" where
  \<comment> \<open>reading \<open>name\<close> of \<open>null\<close>\<close>
  "null_property = Inl (TypeError (lit ''Cannot read properties of null (reading '' @ quoted (lit ''name'') @ lit '')''))"

definition load_column :: "io_host \<Rightarrow> json \<Rightarrow> loaded_column res" where
  "load_column h c =
     (if c = JNull then null_property
      else res_bind (case get_prop c (lit ''defaultValue'') of None \<Rightarrow> Inr NoDefault | Some v \<Rightarrow> decodeDefault h v) (\<lambda>d.
        Inr \<lparr>lc_name = get_prop c (lit ''name''), lc_type = get_prop c (lit ''type''),
          lc_nullable = get_prop c (lit ''nullable''), lc_primaryKey = get_prop c (lit ''primaryKey''),
          lc_unique = get_prop c (lit ''unique''), lc_default = d\<rparr>))"

definition load_table :: "io_host \<Rightarrow> jstr \<Rightarrow> json \<Rightarrow> (jstr \<times> loaded_column list) res" where
  "load_table h filePath t =
     (if t = JNull then null_property
      else case (get_prop t (lit ''name''), get_prop t (lit ''columns'')) of
        (Some (JStr name), Some (JArr cols)) \<Rightarrow> res_bind (res_map (load_column h) cols) (\<lambda>cs. Inr (name, cs))
      | _ \<Rightarrow> Inl (Error (lit ''malformed catalog table in '' @ filePath)))"

definition read_catalog :: "io_host \<Rightarrow> jstr \<Rightarrow> files \<Rightarrow> json res" where
  \<comment> \<open>the document, or the first two errors\<close>
  "read_catalog h filePath fs =
     (case (refuses_call h (ReadFile filePath), fs filePath) of
        (None, Some b) \<Rightarrow>
          (case json_parse (file_text b) of
             None \<Rightarrow> Inl (Error (lit ''catalog file is not valid JSON: '' @ filePath))
           | Some doc \<Rightarrow> Inr doc)
      | _ \<Rightarrow> Inl (Error (lit ''catalog file not readable: '' @ filePath)))"

definition loadCatalogDefs :: "io_host \<Rightarrow> jstr \<Rightarrow> files \<Rightarrow> (jstr \<times> loaded_column list) list res" where
  "loadCatalogDefs h filePath fs =
     res_bind (read_catalog h filePath fs) (\<lambda>doc.
       if \<not> (case doc of JObj _ \<Rightarrow> True | JArr _ \<Rightarrow> True | _ \<Rightarrow> False) then Inl (Error (lit ''catalog file has no document''))
       else if get_prop doc (lit ''magic'') \<noteq> Some (JStr CATALOG_MAGIC) then Inl (Error (lit ''bad catalog magic in '' @ filePath))
       else if get_prop doc (lit ''version'') \<noteq> Some (JNum CATALOG_VERSION) then
         Inl (Error (lit ''unsupported catalog version in '' @ filePath))
       else case get_prop doc (lit ''tables'') of
         Some (JArr ts) \<Rightarrow> res_map (load_table h filePath) ts
       | _ \<Rightarrow> Inl (Error (lit ''catalog tables missing in '' @ filePath)))"

section \<open>Restoring\<close>

definition type_of_name :: "jstr \<Rightarrow> relational_type" where
  "type_of_name s = (case List.find (\<lambda>t. type_name t = s)
      [TBool, TInt8, TInt16, TInt32, TInt64, TUint8, TUint16, TUint32, TFloat32, TFloat64, TString, TBytes, TTimestampMs] of
      Some t \<Rightarrow> t | None \<Rightarrow> UnknownType s)"

definition typed_flag :: "json option \<Rightarrow> bool option option" where
  "typed_flag f = (case f of None \<Rightarrow> Some None | Some (JBool b) \<Rightarrow> Some (Some b) | _ \<Rightarrow> None)"

definition typed_default :: "loaded_default \<Rightarrow> jsval option" where
  "typed_default d = (case d of NoDefault \<Rightarrow> Some Undefined
     | BytesDefault b \<Rightarrow> Some (Bytes 0 b)
     | JsonDefault JNull \<Rightarrow> Some Null | JsonDefault (JBool b) \<Rightarrow> Some (Bool b)
     | JsonDefault (JNum n) \<Rightarrow> Some (Num n) | JsonDefault (JStr s) \<Rightarrow> Some (Str s)
     | JsonDefault _ \<Rightarrow> None)"

definition typed_column :: "loaded_column \<Rightarrow> column_def option" where
  \<comment> \<open>the fields as a \<open>ColumnDef\<close>, when they have its types\<close>
  "typed_column c =
     (case (lc_name c, lc_type c, typed_flag (lc_nullable c), typed_flag (lc_primaryKey c), typed_flag (lc_unique c), typed_default (lc_default c)) of
        (Some (JStr n), Some (JStr t), Some nl, Some pk, Some un, Some d) \<Rightarrow>
          Some \<lparr>col_name = n, col_type = type_of_name t, nullable = nl, primaryKey = pk, unique = un, defaultValue = d\<rparr>
      | _ \<Rightarrow> None)"

definition typed_table :: "jstr \<times> loaded_column list \<Rightarrow> (jstr \<times> column_def list) option" where
  "typed_table = (\<lambda>(n, cs). map_option (Pair n) (those (map typed_column cs)))"

definition restoreCatalog :: "io_host \<Rightarrow> jstr \<Rightarrow> files \<Rightarrow> database \<Rightarrow> (unit res \<times> database) option" where
  \<comment> \<open>\<open>None\<close> stands for a file with a column whose fields have other types than \<open>ColumnDef\<close> declares\<close>
  "restoreCatalog h filePath fs db =
     (case loadCatalogDefs h filePath fs of
        Inl e \<Rightarrow> Some (Inl e, db)
      | Inr ts \<Rightarrow> map_option (\<lambda>defs. bootCatalog defs db) (those (map typed_table ts)))"

section \<open>Reading back what was written\<close>

lemma file_text_encode: "well_formed s \<Longrightarrow> file_text (utf8_encode s) = s"
  by (simp add: file_text_def utf16_scalars)

lemma hex_digit_value_back: "hex_digit_value (hex_digit (uint (b :: 8 word) div 16)) = Some (uint b div 16)"
  "hex_digit_value (hex_digit (uint b mod 16)) = Some (uint b mod 16)"
proof -
  have "0 \<le> uint b" "uint b < 256" using uint_bounded [of b] by simp_all
  then have "0 \<le> uint b div 16" "uint b div 16 < 16" by linarith+
  then show "hex_digit_value (hex_digit (uint b div 16)) = Some (uint b div 16)" by (rule hex_digit_back)
  show "hex_digit_value (hex_digit (uint b mod 16)) = Some (uint b mod 16)" by (rule hex_digit_back) simp_all
qed

lemma hex_bytes_back: "hex_bytes (bytes_to_hex bs) = bs"
  by (induction bs) (simp_all add: bytes_to_hex_def byte_to_hex_def hex_digit_value_back)

definition default_ok :: "jsval \<Rightarrow> bool" where
  \<comment> \<open>a default that the file carries: no object, and a number only if it is a safe integer\<close>
  "default_ok v \<longleftrightarrow> (\<forall>n. v = Num n \<longrightarrow> (\<exists>i. n = int_num i \<and> \<bar>i\<bar> \<le> 2 ^ 53)) \<and> (\<forall>i. v \<noteq> Obj i)"

definition norm_column :: "column_def \<Rightarrow> column_def" where
  \<comment> \<open>flags that are not true dropped, a byte array by a new one\<close>
  "norm_column c = \<lparr>col_name = col_name c, col_type = col_type c,
     nullable = (if flag (nullable c) then Some True else None), primaryKey = (if flag (primaryKey c) then Some True else None),
     unique = (if flag (unique c) then Some True else None),
     defaultValue = (case defaultValue c of Bytes _ b \<Rightarrow> Bytes 0 b | v \<Rightarrow> v)\<rparr>"

lemma stored_base: "stored_column (base_def c) = stored_column c"
  by (simp add: stored_column_def base_def_def column_def.defs)

lemma type_of_type_name: "known_type t \<Longrightarrow> type_of_name (type_name t) = t"
  by (cases t) (simp_all add: type_of_name_def)

lemma lit_neqs: "lit s = lit t \<longleftrightarrow> s = t"
  by simp

lemma stored_ok: "default_ok (defaultValue c) \<Longrightarrow> json_ok (stored_column c)"
  by (cases "defaultValue c") (auto simp: stored_column_def true_flag_def default_ok_def)

lemma stored_props:
  "get_prop (stored_column c) (lit ''name'') = Some (JStr (col_name c))"
  "get_prop (stored_column c) (lit ''type'') = Some (JStr (type_name (col_type c)))"
  "get_prop (stored_column c) (lit ''nullable'') = (if flag (nullable c) then Some (JBool True) else None)"
  "get_prop (stored_column c) (lit ''primaryKey'') = (if flag (primaryKey c) then Some (JBool True) else None)"
  "get_prop (stored_column c) (lit ''unique'') = (if flag (unique c) then Some (JBool True) else None)"
  "get_prop (stored_column c) (lit ''defaultValue'') = (if defaultValue c = Undefined then None else Some (encodeDefault (defaultValue c)))"
  by (simp_all add: get_prop_def stored_column_def true_flag_def)

lemma default_back:
  assumes "default_ok v" and "v \<noteq> Undefined"
  shows "\<exists>d. decodeDefault h (encodeDefault v) = Inr d \<and> typed_default d = Some (case v of Bytes _ b \<Rightarrow> Bytes 0 b | v \<Rightarrow> v)"
  using assms by (cases v) (auto simp: decodeDefault_def typed_default_def default_ok_def bytes_key_def hex_bytes_back)

lemma column_back:
  assumes "default_ok (defaultValue c)" and "known_type (col_type c)"
  shows "\<exists>l. load_column h (stored_column c) = Inr l \<and> typed_column l = Some (norm_column c)"
proof -
  have n: "stored_column c \<noteq> JNull" by (simp add: stored_column_def)
  have f: "typed_flag (if b then Some (JBool True) else None) = Some (if b then Some True else None)" for b
    by (simp add: typed_flag_def)
  note u = load_column_def n stored_props typed_column_def f norm_column_def type_of_type_name [OF assms(2)]
  show ?thesis
  proof (cases "defaultValue c = Undefined")
    case True
    then show ?thesis by (simp add: u typed_default_def)
  next
    case False
    from default_back [OF assms(1) this, of h] obtain d where
      d: "decodeDefault h (encodeDefault (defaultValue c)) = Inr d" "typed_default d = Some (case defaultValue c of Bytes _ b \<Rightarrow> Bytes 0 b | v \<Rightarrow> v)"
      by blast
    show ?thesis using False by (simp add: u d)
  qed
qed

lemma columns_back:
  assumes "\<forall>c\<in>set cs. default_ok (defaultValue c) \<and> known_type (col_type c)"
  shows "\<exists>ls. res_map (load_column h) (map stored_column cs) = Inr ls \<and> those (map typed_column ls) = Some (map norm_column cs)"
  using assms
proof (induction cs)
  case (Cons c cs)
  then obtain ls where "res_map (load_column h) (map stored_column cs) = Inr ls" "those (map typed_column ls) = Some (map norm_column cs)"
    by auto
  moreover obtain l where "load_column h (stored_column c) = Inr l" "typed_column l = Some (norm_column c)"
    using column_back [of c h] Cons.prems by auto
  ultimately show ?case by simp
qed simp

definition table_defs :: "database \<Rightarrow> (jstr \<times> column_def list) list" where
  "table_defs db = map (\<lambda>(_, t). (tableName (schema_of t), map base_def (columns (schema_of t)))) (tables db)"

definition storable :: "database \<Rightarrow> bool" where
  "storable db \<longleftrightarrow> (\<forall>(n, cs)\<in>set (table_defs db). \<forall>c\<in>set cs. default_ok (defaultValue c) \<and> known_type (col_type c))"

definition table_json :: "jstr \<times> column_def list \<Rightarrow> json" where
  "table_json = (\<lambda>(n, cs). JObj [(lit ''name'', JStr n), (lit ''columns'', JArr (map stored_column cs))])"

lemma snapshot_table_json: "snapshotCatalog db = map table_json (table_defs db)"
proof -
  have "map stored_column cs = map stored_column (map base_def cs)" for cs :: "compiled_column list" by (simp add: stored_base)
  then show ?thesis unfolding snapshotCatalog_def table_defs_def table_json_def by (induction "tables db") auto
qed

lemma document_ok: "storable db \<Longrightarrow> json_ok (catalog_document db)"
  by (fastforce simp: catalog_document_def snapshot_table_json CATALOG_VERSION_def storable_def table_json_def
      intro!: exI [of _ 1] stored_ok)

lemma tables_back:
  assumes "\<forall>(n, cs)\<in>set defs. \<forall>c\<in>set cs. default_ok (defaultValue c) \<and> known_type (col_type c)"
  shows "\<exists>ts. res_map (load_table h p) (map table_json defs) = Inr ts
    \<and> those (map typed_table ts) = Some (map (\<lambda>(n, cs). (n, map norm_column cs)) defs)"
  using assms
proof (induction defs)
  case (Cons d defs)
  obtain n cs where d: "d = (n, cs)" by (cases d)
  obtain ls where "res_map (load_column h) (map stored_column cs) = Inr ls" "those (map typed_column ls) = Some (map norm_column cs)"
    using columns_back [of cs h] Cons.prems d by auto
  moreover obtain ts where "res_map (load_table h p) (map table_json defs) = Inr ts"
      "those (map typed_table ts) = Some (map (\<lambda>(n, cs). (n, map norm_column cs)) defs)"
    using Cons by auto
  moreover have "load_table h p (table_json d) = res_bind (res_map (load_column h) (map stored_column cs)) (\<lambda>cs. Inr (n, cs))"
    by (simp add: d load_table_def table_json_def get_prop_def)
  moreover have "typed_table (n, ls) = map_option (Pair n) (those (map typed_column ls))" by (simp add: typed_table_def)
  ultimately show ?case by (simp add: d)
qed simp

lemma load_saved:
  assumes "storable db" and "fs p = Some (catalog_content db)" and "refuses_call h (ReadFile p) = None"
  shows "\<exists>ts. loadCatalogDefs h p fs = Inr ts
    \<and> those (map typed_table ts) = Some (map (\<lambda>(n, cs). (n, map norm_column cs)) (table_defs db))"
proof -
  note ok = document_ok [OF assms(1)]
  have "well_formed (stringify 0 (catalog_document db))" using well_formed_stringify [OF ok, of 0 "[]"] by simp
  then have "read_catalog h p fs = Inr (catalog_document db)"
    using assms(2,3) json_parse_stringify [OF ok] by (simp add: read_catalog_def catalog_content_def file_text_encode)
  moreover obtain ts where "res_map (load_table h p) (map table_json (table_defs db)) = Inr ts"
      "those (map typed_table ts) = Some (map (\<lambda>(n, cs). (n, map norm_column cs)) (table_defs db))"
    using tables_back [of "table_defs db" h p] assms(1) unfolding storable_def by blast
  ultimately show ?thesis
    by (simp add: loadCatalogDefs_def catalog_document_def get_prop_def snapshot_table_json)
qed

section \<open>Schemas of reachable databases\<close>

definition compiled :: "database \<Rightarrow> bool" where
  \<comment> \<open>every schema is what the compiler made of its columns\<close>
  "compiled db \<longleftrightarrow> wf_db db \<and> (\<forall>n t. map_of (tables db) n = Some t \<longrightarrow>
     new_RelationalSchema n (map base_def (columns (schema_of t))) = Inr (schema_of t))"

lemma compiled_on:
  assumes "compiled db" and "\<And>t. wf_table t \<Longrightarrow> wf_table (snd (m t)) \<and> schema_of (snd (m t)) = schema_of t"
  shows "compiled (snd (db_on n m db))"
proof (cases rule: db_on_cases [of db n m])
  case (2 t r t')
  have "wf_table t" using assms(1) 2(1) by (simp add: compiled_def wf_db_def)
  then have "schema_of t' = schema_of t" using assms(2) [of t] 2(2) by simp
  moreover have "wf_db (snd (db_on n m db))" using assms by (simp add: compiled_def wf_db_on)
  ultimately show ?thesis using 2 assms(1) by (auto simp: compiled_def)
qed (use assms in simp)

lemma compiled_create:
  assumes "compiled db"
  shows "compiled (snd (db_createTable n cs db))"
proof (cases rule: db_createTable_cases [of n cs db])
  case (2 t)
  have s: "new_RelationalSchema n cs = Inr (schema_of t)" by (rule wf_new_table(3) [OF 2(2)])
  have "wf_db (snd (db_createTable n cs db))" using assms by (simp add: compiled_def wf_db_createTable)
  then show ?thesis using assms s 2(1,3) new_RelationalSchema_Inr(3) [OF s]
    by (auto simp: compiled_def map_add_Some_iff)
qed (use assms in simp)

lemma compiled_step: "compiled db \<Longrightarrow> compiled (db_step op db)"
proof (cases op)
  case (DropTable n)
  assume c: "compiled db"
  then have "wf_db (snd (db_dropTable n db))" by (simp add: compiled_def wf_db_dropTable)
  then show ?thesis using c DropTable by (auto simp: compiled_def db_dropTable_def split: if_splits)
next
  case (Boot defs)
  assume "compiled db"
  then have "compiled (snd (bootCatalog defs db))" unfolding bootCatalog_def
    by (rule run_each_invariant [rotated])
      (use compiled_create in \<open>auto simp: boot_table_def split: prod.splits sum.splits\<close>, metis snd_conv, metis snd_conv)
  then show ?thesis by (simp add: Boot)
next
  case (Commit ops)
  assume c: "compiled db"
  have "compiled (snd (apply_op op db))" if "compiled db" for op db
    using that by (cases op) (simp_all add: compiled_on wf_table_insert wf_table_update wf_table_delete)
  then have "compiled (snd (run_each apply_op ops db))" using run_each_invariant [of ops compiled apply_op db] c by blast
  then show ?thesis using c Commit by (auto simp: tx_commit_def split: prod.splits sum.splits)
next
  case (Statement sql)
  assume c: "compiled db"
  have "compiled (snd (executeSql sql db))"
  proof (cases rule: executeSql_cases [of sql db])
    case (2 plan)
    then show ?thesis using c by (simp add: run_create_def compiled_create)
  next
    case (3 plan)
    then show ?thesis using c by (simp add: run_insert_def compiled_on wf_table_insert)
  next
    case (4 plan)
    then show ?thesis using c by (simp add: run_update_def compiled_on update_loop_wf)
  next
    case (5 plan)
    then show ?thesis using c by (simp add: run_delete_def compiled_on delete_loop_wf)
  qed (use c in simp)
  then show ?thesis by (simp add: Statement)
qed (simp_all add: compiled_create compiled_on wf_table_step)

lemma reachable_compiled: "reachable_db db \<Longrightarrow> compiled db"
proof (induction rule: reachable_db.induct)
  case empty
  then show ?case using wf_new_db by (simp add: compiled_def) (simp add: new_RelationalDatabase_def)
qed (rule compiled_step)

lemma boot_creates:
  assumes "distinct (map fst defs)" and "\<forall>d\<in>set defs. schema_accepts (fst d) (snd d) \<and> fst d \<notin> set (db_listTables db)"
  shows "\<exists>ts. bootCatalog defs db = (Inr (), \<lparr>tables = tables db @ ts\<rparr>)
    \<and> list_all2 (\<lambda>d (n, t). n = fst d \<and> new_RelationalTable n (snd d) = Inr t) defs ts"
  using assms
proof (induction defs arbitrary: db)
  case Nil
  then show ?case by (simp add: bootCatalog_def)
next
  case (Cons d defs)
  have "is_ok (new_RelationalSchema (fst d) (snd d))" using Cons.prems(2) new_RelationalSchema_complete by simp
  then obtain t where t: "new_RelationalTable (fst d) (snd d) = Inr t" by (auto simp: is_ok_def new_RelationalTable_def)
  have "map_of (tables db) (fst d) = None" using Cons.prems(2) by (simp add: db_listTables_def map_of_eq_None_iff)
  then have "boot_table d db = (Inr (), db\<lparr>tables := tables db @ [(fst d, t)]\<rparr>)"
    using t Cons.prems(2) by (simp add: boot_table_def db_createTable_def jm_has_def update_fresh)
  moreover have "\<exists>ts. bootCatalog defs (db\<lparr>tables := tables db @ [(fst d, t)]\<rparr>) = (Inr (), \<lparr>tables = tables (db\<lparr>tables := tables db @ [(fst d, t)]\<rparr>) @ ts\<rparr>)
    \<and> list_all2 (\<lambda>d (n, t). n = fst d \<and> new_RelationalTable n (snd d) = Inr t) defs ts"
  proof (rule Cons.IH)
    have "fst d \<notin> fst ` set defs" using Cons.prems(1) by simp
    then show "\<forall>e\<in>set defs. schema_accepts (fst e) (snd e) \<and> fst e \<notin> set (db_listTables (db\<lparr>tables := tables db @ [(fst d, t)]\<rparr>))"
      using Cons.prems(2) by (auto simp: db_listTables_def) (metis fst_conv image_eqI)+
  qed (use Cons.prems in simp)
  ultimately show ?case using t by (fastforce simp: bootCatalog_def)
qed

lemma accepts_norm: "schema_accepts n cs \<Longrightarrow> schema_accepts n (map norm_column cs)"
  by (auto simp: schema_accepts_def list_all_iff valid_column_def norm_column_def filter_map comp_def)

lemma table_defs_facts:
  assumes "compiled db" and "(n, cs) \<in> set (table_defs db)"
  shows "schema_accepts n cs"
proof -
  obtain k t where t: "(k, t) \<in> set (tables db)" "n = tableName (schema_of t)" "cs = map base_def (columns (schema_of t))"
    using assms(2) by (auto simp: table_defs_def)
  have m: "map_of (tables db) k = Some t" using assms(1) t(1) by (simp add: compiled_def wf_db_def)
  then have "new_RelationalSchema k cs = Inr (schema_of t)" using assms(1) t(3) by (auto simp: compiled_def)
  moreover have "n = k" using assms(1) m t(2) by (auto simp: compiled_def wf_db_def)
  ultimately show ?thesis using new_RelationalSchema_Inr(1) by simp
qed

lemma restore_saved:
  assumes "reachable_db db" and "\<forall>(n, cs)\<in>set (table_defs db). \<forall>c\<in>set cs. default_ok (defaultValue c)"
    and "fs p = Some (catalog_content db)" and "refuses_call h (ReadFile p) = None"
  shows "\<exists>ts. restoreCatalog h p fs new_RelationalDatabase = Some (Inr (), \<lparr>tables = ts\<rparr>)
    \<and> list_all2 (\<lambda>(n, t) (n', t'). n' = n \<and> rows t' = []
        \<and> map base_def (columns (schema_of t')) = map (norm_column \<circ> base_def) (columns (schema_of t))) (tables db) ts"
proof -
  have c: "compiled db" by (rule reachable_compiled [OF assms(1)])
  have st: "storable db"
    using assms(2) table_defs_facts [OF c] by (fastforce simp: storable_def schema_accepts_def list_all_iff)
  let ?defs = "map (\<lambda>(n, cs). (n, map norm_column cs)) (table_defs db)"
  obtain ls where l: "loadCatalogDefs h p fs = Inr ls" "those (map typed_table ls) = Some ?defs"
    using load_saved [of db fs p h, OF st assms(3,4)] by blast
  have name: "tableName (schema_of t) = n" if "(n, t) \<in> set (tables db)" for n t
    using c that by (auto simp: compiled_def wf_db_def)
  then have "map fst ?defs = jm_keys (tables db)" by (simp add: table_defs_def case_prod_beta comp_def)
  then have d: "distinct (map fst ?defs)" using c by (simp add: compiled_def wf_db_def)
  have "\<forall>e\<in>set ?defs. schema_accepts (fst e) (snd e) \<and> fst e \<notin> set (db_listTables new_RelationalDatabase)"
    using table_defs_facts [OF c] accepts_norm by (auto simp: db_listTables_def new_RelationalDatabase_def)
  from boot_creates [OF d this] obtain ts where ts: "bootCatalog ?defs new_RelationalDatabase = (Inr (), \<lparr>tables = ts\<rparr>)"
      "list_all2 (\<lambda>d (n, t). n = fst d \<and> new_RelationalTable n (snd d) = Inr t) ?defs ts"
    by (auto simp: new_RelationalDatabase_def)
  have "list_all2 (\<lambda>(n, t) (n', t'). n' = n \<and> rows t' = []
        \<and> map base_def (columns (schema_of t')) = map (norm_column \<circ> base_def) (columns (schema_of t))) (tables db) ts"
    using ts(2) unfolding table_defs_def list_all2_map1
  proof (rule list.rel_mono_strong)
    fix x y
    assume x: "x \<in> set (tables db)"
      and y: "(case y of (n, t) \<Rightarrow> n = fst (case case x of (_, t) \<Rightarrow> (tableName (schema_of t), map base_def (columns (schema_of t))) of (n, cs) \<Rightarrow> (n, map norm_column cs))
        \<and> new_RelationalTable n (snd (case case x of (_, t) \<Rightarrow> (tableName (schema_of t), map base_def (columns (schema_of t))) of (n, cs) \<Rightarrow> (n, map norm_column cs))) = Inr t)"
    obtain n t n' t' where xy: "x = (n, t)" "y = (n', t')" by (cases x; cases y)
    then have "n' = n" "new_RelationalTable n (map norm_column (map base_def (columns (schema_of t)))) = Inr t'"
      using x y name by auto
    then show "(case x of (n, t) \<Rightarrow> \<lambda>(n', t'). n' = n \<and> rows t' = []
        \<and> map base_def (columns (schema_of t')) = map (norm_column \<circ> base_def) (columns (schema_of t))) y"
      using wf_new_table(2,3) new_RelationalSchema_Inr(3) by (fastforce simp: xy)
  qed
  then show ?thesis using ts(1) l by (auto simp: restoreCatalog_def)
qed

section \<open>Properties\<close>

text \<open>C40. However a save ends, no file but the catalog and its temporary file changes, and the catalog
  file holds either what it held before or the whole new document; when the save returns it holds the new
  one and the temporary file is gone.\<close>

theorem save_catalog_atomic:
  assumes "saveCatalog h db p fs = (res, fs')"
  shows "(\<forall>q. q \<noteq> p \<longrightarrow> q \<noteq> p @ lit ''.tmp'' \<longrightarrow> fs' q = fs q)
    \<and> (res = Inr () \<and> fs' p = Some (catalog_content db) \<and> fs' (p @ lit ''.tmp'') = None
       \<or> (\<exists>e. res = Inl e) \<and> fs' p = fs p)"
proof -
  have "p @ lit ''.tmp'' \<noteq> p" by simp
  then show ?thesis using assms by (auto simp: saveCatalog_def Let_def split: option.splits)
qed

definition ex_io :: io_host where
  \<comment> \<open>a host that refuses nothing\<close>
  "ex_io = \<lparr>refuses_call = (\<lambda>_. None), torn_write = (\<lambda>old _. old), buffer_from = (\<lambda>_. null_property)\<rparr>"

definition ex_path :: jstr where
  "ex_path = lit ''data/catalog.json''"

lemma ex_save: "saveCatalog ex_io ex_db ex_path Map.empty =
    (Inr (), Map.empty(ex_path @ lit ''.tmp'' := None, ex_path \<mapsto> catalog_content ex_db))"
  by (simp add: saveCatalog_def ex_io_def Let_def)

theorem save_catalog_atomic_witness:
  "(Map.empty(ex_path @ lit ''.tmp'' := None, ex_path \<mapsto> catalog_content ex_db)) (lit ''other'') = None"
  using save_catalog_atomic [OF ex_save] by (elim conjE allE [of _ "lit ''other''"]) (simp add: ex_path_def)

text \<open>C21. Definitions survive the catalog file: after a save of any reachable database (defaults: texts, booleans,
  bytes, safe integers), restoring the file into an empty database succeeds and gives the same tables in
  the same order, without rows, with the same columns; only flags that are not true are dropped and byte
  defaults are new arrays.\<close>

theorem catalog_file_roundtrip:
  assumes "reachable_db db" and "\<forall>(n, cs)\<in>set (table_defs db). \<forall>c\<in>set cs. default_ok (defaultValue c)"
    and "saveCatalog h db p fs = (Inr (), fs')" and "refuses_call h' (ReadFile p) = None"
  shows "\<exists>ts. restoreCatalog h' p fs' new_RelationalDatabase = Some (Inr (), \<lparr>tables = ts\<rparr>)
    \<and> list_all2 (\<lambda>(n, t) (n', t'). n' = n \<and> rows t' = []
        \<and> map base_def (columns (schema_of t')) = map (norm_column \<circ> base_def) (columns (schema_of t))) (tables db) ts"
proof -
  have "p @ lit ''.tmp'' \<noteq> p" by simp
  then have "fs' p = Some (catalog_content db)" using assms(3) by (auto simp: saveCatalog_def Let_def split: option.splits)
  then show ?thesis by (rule restore_saved [OF assms(1,2) _ assms(4)])
qed

lemma ex_defaults: "\<forall>(n, cs)\<in>set (table_defs ex_db). \<forall>c\<in>set cs. default_ok (defaultValue c)"
proof -
  have "map (\<lambda>c. defaultValue c) (columns (schema_of ex_table)) = [Undefined, Undefined]" by code_simp
  then have "defaultValue c = Undefined" if "c \<in> set (columns (schema_of ex_table))" for c
    using that by (metis (no_types, lifting) empty_iff image_eqI insert_iff list.set(1,2) list.set_map)
  then show ?thesis by (auto simp: table_defs_def ex_db_def base_def_def column_def.defs default_ok_def)
qed

theorem catalog_file_roundtrip_witness:
  "\<exists>db. restoreCatalog ex_io ex_path (Map.empty(ex_path @ lit ''.tmp'' := None, ex_path \<mapsto> catalog_content ex_db))
      new_RelationalDatabase = Some (Inr (), db) \<and> db_listTables db = [lit ''t'']"
proof -
  have "refuses_call ex_io (ReadFile ex_path) = None" by (simp add: ex_io_def)
  from catalog_file_roundtrip [OF ex_db_reachable ex_defaults ex_save this] obtain ts where
    ts: "restoreCatalog ex_io ex_path (Map.empty(ex_path @ lit ''.tmp'' := None, ex_path \<mapsto> catalog_content ex_db))
      new_RelationalDatabase = Some (Inr (), \<lparr>tables = ts\<rparr>)"
    and rel: "list_all2 (\<lambda>(n, t) (n', t'). n' = n \<and> rows t' = []
      \<and> map base_def (columns (schema_of t')) = map (norm_column \<circ> base_def) (columns (schema_of t))) (tables ex_db) ts"
    by blast
  have "map fst ts = [lit ''t'']" using rel by (auto simp: ex_db_def list_all2_Cons1)
  then show ?thesis using ts by (simp add: db_listTables_def)
qed

end
